(* ===== verification/Prelude.thy ===== *)
theory Prelude
  imports Main "HOL-Library.Word" "HOL-Library.Signed_Division" "HOL-Library.Multiset"
begin

text \<open>
  Shared vocabulary of the development: the machine types the C++ code uses, the
  collections of rewrite rules the components add to, and the list facts that more than
  one component needs.

  A byte of a socket or of a \<^verbatim>\<open>std::vector<char>\<close> is an \<open>8 word\<close>. Container sizes and
  indices (\<^verbatim>\<open>size_t\<close>) are natural numbers: every subtraction of the code on them is
  guarded by an invariant the component proves. An \<^verbatim>\<open>int\<close> is an integer; where the code
  narrows a 64-bit value to an \<^verbatim>\<open>int\<close> the narrowing is written with \<open>to_int32\<close>.
\<close>

type_synonym byte = "8 word"
type_synonym bytes = "byte list"
type_synonym fd = int

section \<open>Rewrite collections\<close>

named_theorems buffer_simps \<open>unfoldings of the buffer operations\<close>
named_theorems poller_simps \<open>unfoldings of the channel and poller operations\<close>
named_theorems wheel_simps \<open>unfoldings of the timing wheel operations\<close>
named_theorems conn_simps \<open>unfoldings of the connection operations\<close>
named_theorems log_simps \<open>unfoldings of the logging operations\<close>

section \<open>Narrowing to a 32-bit signed integer\<close>

definition to_int32 :: "int \<Rightarrow> int" where
  "to_int32 x = (x + 2 ^ 31) mod 2 ^ 32 - 2 ^ 31"

lemma to_int32_id [simp]: "- (2 ^ 31) \<le> x \<Longrightarrow> x < 2 ^ 31 \<Longrightarrow> to_int32 x = x"
  by (simp add: to_int32_def)

lemma to_int32_range: "- (2 ^ 31) \<le> to_int32 x \<and> to_int32 x < 2 ^ 31"
proof -
  have "0 \<le> (x + 2 ^ 31) mod 2 ^ 32" and "(x + 2 ^ 31) mod 2 ^ 32 < 2 ^ 32"
    by (rule pos_mod_sign, simp) (rule pos_mod_bound, simp)
  then show ?thesis by (simp add: to_int32_def)
qed

text \<open>\<^verbatim>\<open>int\<close> arithmetic that overflows is undefined behaviour: \<open>None\<close>.\<close>

definition in_int32 :: "int \<Rightarrow> bool" where
  "in_int32 x \<longleftrightarrow> - (2 ^ 31) \<le> x \<and> x < 2 ^ 31"

definition checked_int :: "int \<Rightarrow> int option" where
  "checked_int x = (if in_int32 x then Some x else None)"

lemma checked_int_Some [simp]: "checked_int x = Some y \<longleftrightarrow> in_int32 x \<and> y = x"
  by (auto simp: checked_int_def)

lemma checked_int_None [simp]: "checked_int x = None \<longleftrightarrow> \<not> in_int32 x"
  by (simp add: checked_int_def)

section \<open>Division and remainder of C++\<close>

text \<open>
  \<^verbatim>\<open>/\<close> and \<^verbatim>\<open>%\<close> truncate towards zero: \<open>sdiv\<close> and \<open>smod\<close>. On the operands the code
  uses, a non-negative dividend and a positive divisor, they are \<open>div\<close> and \<open>mod\<close>.
\<close>

lemma sdiv_nonneg [simp]: "0 \<le> (a :: int) \<Longrightarrow> 0 < b \<Longrightarrow> a sdiv b = a div b"
  by (auto simp: signed_divide_int_def sgn_if)

lemma smod_nonneg [simp]: "0 \<le> (a :: int) \<Longrightarrow> 0 < b \<Longrightarrow> a smod b = a mod b"
  by (auto simp: signed_modulo_int_def sgn_if)

section \<open>Lists written through an index or an iterator\<close>

text \<open>Writing a block \<open>d\<close> over a list from position \<open>i\<close>, as \<^verbatim>\<open>std::copy\<close> does.\<close>

definition write_at :: "nat \<Rightarrow> 'a list \<Rightarrow> 'a list \<Rightarrow> 'a list" where
  "write_at i d xs = take i xs @ d @ drop (i + length d) xs"

lemma length_write_at [simp]:
  "i + length d \<le> length xs \<Longrightarrow> length (write_at i d xs) = length xs"
  by (simp add: write_at_def)

lemma take_write_at [simp]: "i \<le> length xs \<Longrightarrow> take i (write_at i d xs) = take i xs"
  by (simp add: write_at_def)

lemma drop_take_write_at:
  assumes "r \<le> i" and "i \<le> length xs"
  shows "take (i + length d - r) (drop r (write_at i d xs)) = take (i - r) (drop r xs) @ d"
proof -
  have "drop r (write_at i d xs) = take (i - r) (drop r xs) @ d @ drop (i + length d) xs"
    using assms by (simp add: write_at_def drop_take)
  moreover have "length (take (i - r) (drop r xs)) = i - r"
    using assms by simp
  moreover have "i + length d - r = (i - r) + length d"
    using assms by simp
  ultimately show ?thesis by simp
qed

text \<open>\<^verbatim>\<open>std::vector<char>::resize\<close>: the new cells are value-initialised to zero.\<close>

definition resize :: "nat \<Rightarrow> 'a::zero list \<Rightarrow> 'a list" where
  "resize n xs = take n xs @ replicate (n - length xs) 0"

lemma length_resize [simp]: "length (resize n xs) = n"
  by (simp add: resize_def)

lemma take_resize: "k \<le> length xs \<Longrightarrow> k \<le> n \<Longrightarrow> take k (resize n xs) = take k xs"
  by (simp add: resize_def)

section \<open>Decimal numbers\<close>

text \<open>What \<^verbatim>\<open>%d\<close> and \<^verbatim>\<open>%u\<close> print for a number that is not negative, and how digits are read.\<close>

definition digit :: "nat \<Rightarrow> char" where
  "digit n = char_of (48 + n)"

definition digit_val :: "char \<Rightarrow> nat" where
  "digit_val c = of_char c - 48"

definition is_digit :: "char \<Rightarrow> bool" where
  "is_digit c \<longleftrightarrow> (48 :: nat) \<le> of_char c \<and> of_char c \<le> (57 :: nat)"

fun show_nat :: "nat \<Rightarrow> string" where
  "show_nat n = (if n < 10 then [digit n] else show_nat (n div 10) @ [digit (n mod 10)])"

declare show_nat.simps [simp del]

definition read_digits :: "string \<Rightarrow> nat" where
  "read_digits s = foldl (\<lambda>n c. n * 10 + digit_val c) 0 s"

lemma digit_val_digit [simp]: "n < 10 \<Longrightarrow> digit_val (digit n) = n"
  by (simp add: digit_val_def digit_def)

lemma is_digit_digit [simp]: "n < 10 \<Longrightarrow> is_digit (digit n)"
  by (simp add: is_digit_def digit_def)

lemma read_show [simp]: "read_digits (show_nat n) = n"
proof (induction n rule: show_nat.induct)
  case (1 n)
  then show ?case by (subst show_nat.simps) (simp add: read_digits_def)
qed

lemma show_nat_inj: "show_nat m = show_nat n \<longleftrightarrow> m = n"
  by (metis read_show)

lemma show_nat_digits: "c \<in> set (show_nat n) \<Longrightarrow> is_digit c"
proof (induction n rule: show_nat.induct)
  case (1 n)
  then show ?case
    by (subst (asm) (2) show_nat.simps) (auto split: if_splits)
qed

lemma show_nat_not_empty [simp]: "show_nat n \<noteq> []"
  by (subst show_nat.simps) simp

lemma length_show_nat: "n < 10 ^ Suc k \<Longrightarrow> length (show_nat n) \<le> Suc k"
proof (induction k arbitrary: n)
  case 0
  then show ?case by (subst show_nat.simps) simp
next
  case (Suc k)
  have "n div 10 < 10 ^ Suc k" using Suc.prems by (simp add: less_mult_imp_div_less mult.commute)
  from Suc.IH [OF this] show ?case by (subst show_nat.simps) simp
qed

text \<open>Splitting at a separator.\<close>

fun split_at :: "'a \<Rightarrow> 'a list \<Rightarrow> 'a list list" where
  "split_at s [] = [[]]"
| "split_at s (x # xs) =
     (if x = s then [] # split_at s xs
      else (case split_at s xs of [] \<Rightarrow> [[x]] | y # ys \<Rightarrow> (x # y) # ys))"

lemma split_at_no_sep: "s \<notin> set xs \<Longrightarrow> split_at s xs = [xs]"
  by (induction xs) auto

lemma split_at_append: "s \<notin> set xs \<Longrightarrow> split_at s (xs @ s # ys) = xs # split_at s ys"
  by (induction xs) auto

end
