(* ===== verification/TimingWheel.thy ===== *)
theory TimingWheel
  imports Prelude
begin

text \<open>
  \<^verbatim>\<open>Task\<close> and \<^verbatim>\<open>TimeWheel\<close> of \<^verbatim>\<open>gdrpc/util/timingWheel.hpp\<close> and \<^verbatim>\<open>timingWheel.cpp\<close>.

  A \<^verbatim>\<open>shared_ptr<Task>\<close> sits in exactly one slot; its address is the field \<open>task_id\<close>, and a
  \<^verbatim>\<open>weak_ptr<Task>\<close> is that address: locking it succeeds while the task is in some slot.
  The closure of a task is a value of type \<open>'f\<close> and \<^verbatim>\<open>nullptr\<close> is \<open>None\<close>. What running a
  closure does is the parameter \<open>cb\<close>, a function on the outer state and the wheel, because
  the closures of the code do add and cancel tasks while a tick runs. The constructor that
  \<^verbatim>\<open>addTask\<close> calls leaves \<^verbatim>\<open>times_\<close> uninitialised: the value found there is the argument
  \<open>junk\<close>.
\<close>

section \<open>Tasks and the wheel\<close>

record 'f task =
  task_id :: nat
  rotations :: int
  timeout :: int
  times :: int
  task_fun :: "'f option"

record 'f wheel =
  slotLen :: int
  currentSlot :: int
  starttime :: int
  slots :: "'f task list list"
  next_id :: nat

type_synonym ('s, 'f) wheel_state = "'s \<times> 'f wheel"
type_synonym ('s, 'f) closure_run = "'f \<Rightarrow> ('s, 'f) wheel_state \<Rightarrow> ('s, 'f) wheel_state"

text \<open>An index outside \<^verbatim>\<open>slots_\<close>, which \<^verbatim>\<open>operator[]\<close> of a vector does not check.\<close>

datatype wheel_ub = SlotOutOfRange

definition new_wheel :: "int \<Rightarrow> int \<Rightarrow> 'f wheel" where
  "new_wheel msLen now =
     \<lparr>slotLen = msLen, currentSlot = 0, starttime = now,
      slots = replicate (nat msLen) [], next_id = 0\<rparr>"

definition slot_for :: "'f wheel \<Rightarrow> int \<Rightarrow> int" where
  "slot_for w t = (currentSlot w + t smod slotLen w) smod slotLen w"

definition push_slot :: "int \<Rightarrow> 'f task \<Rightarrow> 'f wheel \<Rightarrow> 'f wheel" where
  "push_slot c t w = w\<lparr>slots := (slots w)[nat c := slots w ! nat c @ [t]]\<rparr>"

definition current_list :: "'f wheel \<Rightarrow> 'f task list" where
  "current_list w = slots w ! nat (currentSlot w)"

definition set_current :: "'f task list \<Rightarrow> 'f wheel \<Rightarrow> 'f wheel" where
  "set_current L w = w\<lparr>slots := (slots w)[nat (currentSlot w) := L]\<rparr>"

section \<open>Adding and cancelling\<close>

text \<open>\<^verbatim>\<open>addTask\<close>: a negative timeout runs the closure at once and returns no handle.\<close>

definition addTask :: "('s, 'f) closure_run \<Rightarrow> int \<Rightarrow> 'f \<Rightarrow> int \<Rightarrow> ('s, 'f) wheel_state
    \<Rightarrow> nat option \<times> ('s, 'f) wheel_state" where
  "addTask cb tmo f junk sw =
     (if tmo < 0 then (None, cb f sw)
      else let (s, w) = sw;
               t = \<lparr>task_id = next_id w, rotations = to_int32 (tmo sdiv slotLen w),
                    timeout = to_int32 tmo, times = junk, task_fun = Some f\<rparr>
           in (Some (next_id w), s, push_slot (slot_for w tmo) t (w\<lparr>next_id := next_id w + 1\<rparr>)))"

definition cancel :: "nat \<Rightarrow> 'f task \<Rightarrow> 'f task" where
  "cancel i t = (if task_id t = i then t\<lparr>task_fun := None\<rparr> else t)"

definition delTask :: "nat \<Rightarrow> 'f wheel \<Rightarrow> 'f wheel" where
  "delTask i w = w\<lparr>slots := map (map (cancel i)) (slots w)\<rparr>"

section \<open>One tick\<close>

definition exec :: "('s, 'f) closure_run \<Rightarrow> 'f task \<Rightarrow> ('s, 'f) wheel_state \<Rightarrow> ('s, 'f) wheel_state" where
  "exec cb t sw = (case task_fun t of None \<Rightarrow> sw | Some f \<Rightarrow> cb f sw)"

definition recurring :: "'f task \<Rightarrow> bool" where
  "recurring t \<longleftrightarrow> times t > 1 \<or> times t = -1"

definition rearmed :: "'f wheel \<Rightarrow> 'f task \<Rightarrow> 'f task" where
  "rearmed w t = t\<lparr>times := (if times t > 1 then times t - 1 else times t),
                   rotations := timeout t sdiv slotLen w\<rparr>"

definition remove_at :: "nat \<Rightarrow> 'a list \<Rightarrow> 'a list" where
  "remove_at i xs = take i xs @ drop (Suc i) xs"

text \<open>
  The part of the loop body after \<^verbatim>\<open>exec\<close>: the task is pushed again when it recurs, then
  the iterator's element is erased.
\<close>

definition after_exec :: "nat \<Rightarrow> 'f wheel \<Rightarrow> wheel_ub + 'f wheel" where
  "after_exec i w =
     (let t = current_list w ! i in
      if recurring t
      then let t' = rearmed w t; c = slot_for w (timeout t) in
           if c < 0 then Inl SlotOutOfRange
           else let w' = push_slot c t' (set_current ((current_list w)[i := t']) w)
                in Inr (set_current (remove_at i (current_list w')) w')
      else Inr (set_current (remove_at i (current_list w)) w))"

text \<open>
  The loop over the list of the current slot. The iterator is the position \<open>i\<close>: pushing at
  the end leaves it valid, and \<^verbatim>\<open>end()\<close> is read again in every round. \<open>None\<close> is a tick that
  does not return.
\<close>

partial_function (option) tick_loop :: "('s, 'f) closure_run \<Rightarrow> nat \<Rightarrow> ('s, 'f) wheel_state
    \<Rightarrow> (wheel_ub + ('s, 'f) wheel_state) option" where
  "tick_loop cb i sw =
     (if length (current_list (snd sw)) \<le> i then Some (Inr sw)
      else if rotations (current_list (snd sw) ! i) > 0
      then tick_loop cb (Suc i)
             (fst sw, set_current ((current_list (snd sw))[i := (current_list (snd sw) ! i)
               \<lparr>rotations := rotations (current_list (snd sw) ! i) - 1\<rparr>]) (snd sw))
      else (case after_exec i (snd (exec cb (current_list (snd sw) ! i) sw)) of
              Inl e \<Rightarrow> Some (Inl e)
            | Inr w' \<Rightarrow> tick_loop cb i (fst (exec cb (current_list (snd sw) ! i) sw), w')))"

definition advance :: "'f wheel \<Rightarrow> 'f wheel" where
  "advance w = w\<lparr>currentSlot := (currentSlot w + 1) smod slotLen w\<rparr>"

definition tick :: "('s, 'f) closure_run \<Rightarrow> ('s, 'f) wheel_state
    \<Rightarrow> (wheel_ub + ('s, 'f) wheel_state) option" where
  "tick cb sw =
     (case tick_loop cb 0 sw of
        None \<Rightarrow> None
      | Some (Inl e) \<Rightarrow> Some (Inl e)
      | Some (Inr (s, w)) \<Rightarrow> Some (Inr (s, advance w)))"

fun ticks :: "('s, 'f) closure_run \<Rightarrow> nat \<Rightarrow> ('s, 'f) wheel_state
    \<Rightarrow> (wheel_ub + ('s, 'f) wheel_state) option" where
  "ticks cb 0 sw = Some (Inr sw)"
| "ticks cb (Suc n) sw =
     (case tick cb sw of
        Some (Inr sw') \<Rightarrow> ticks cb n sw'
      | r \<Rightarrow> r)"

text \<open>\<^verbatim>\<open>takeAllTimeout\<close>: one tick per millisecond since the last call, none when the clock went back.\<close>

definition takeAllTimeout :: "('s, 'f) closure_run \<Rightarrow> int \<Rightarrow> ('s, 'f) wheel_state
    \<Rightarrow> (wheel_ub + ('s, 'f) wheel_state) option" where
  "takeAllTimeout cb now sw =
     (case ticks cb (nat (now - starttime (snd sw))) sw of
        Some (Inr (s, w)) \<Rightarrow> Some (Inr (s, w\<lparr>starttime := now\<rparr>))
      | r \<Rightarrow> r)"

section \<open>Well-formed wheels\<close>

definition task_ok :: "nat \<Rightarrow> 'f task \<Rightarrow> bool" where
  "task_ok n t \<longleftrightarrow> 0 \<le> rotations t \<and> 0 \<le> timeout t \<and> task_id t < n"

definition tasks_of :: "'f wheel \<Rightarrow> 'f task set" where
  "tasks_of w = (\<Union>L \<in> set (slots w). set L)"

definition wheel_wf :: "'f wheel \<Rightarrow> bool" where
  "wheel_wf w \<longleftrightarrow> 0 < slotLen w \<and> slotLen w < 2 ^ 31 \<and> 0 \<le> currentSlot w \<and> currentSlot w < slotLen w
     \<and> length (slots w) = nat (slotLen w) \<and> (\<forall>t \<in> tasks_of w. task_ok (next_id w) t)"

text \<open>A task that cannot make one tick run for ever.\<close>

definition progressing :: "'f task \<Rightarrow> bool" where
  "progressing t \<longleftrightarrow> 0 < timeout t \<or> \<not> recurring t"

definition wheel_live :: "'f wheel \<Rightarrow> bool" where
  "wheel_live w \<longleftrightarrow> wheel_wf w \<and> (\<forall>t \<in> tasks_of w. progressing t)"

lemma wf_new_wheel: "0 < n \<Longrightarrow> n < 2 ^ 31 \<Longrightarrow> wheel_live (new_wheel n now)"
  by (auto simp: wheel_live_def wheel_wf_def new_wheel_def tasks_of_def)

lemma slot_for_eq:
  "wheel_wf w \<Longrightarrow> 0 \<le> t \<Longrightarrow> slot_for w t = (currentSlot w + t) mod slotLen w"
  by (simp add: slot_for_def wheel_wf_def mod_add_right_eq)

lemma slot_for_range:
  "wheel_wf w \<Longrightarrow> 0 \<le> t \<Longrightarrow> 0 \<le> slot_for w t \<and> slot_for w t < slotLen w"
  by (simp add: slot_for_eq wheel_wf_def)

text \<open>The setters, read back.\<close>

lemma wheel_sel [simp]:
  "slotLen (set_current L w) = slotLen w" "currentSlot (set_current L w) = currentSlot w"
  "starttime (set_current L w) = starttime w" "next_id (set_current L w) = next_id w"
  "length (slots (set_current L w)) = length (slots w)"
  "slotLen (push_slot c t w) = slotLen w" "currentSlot (push_slot c t w) = currentSlot w"
  "starttime (push_slot c t w) = starttime w" "next_id (push_slot c t w) = next_id w"
  "length (slots (push_slot c t w)) = length (slots w)"
  by (simp_all add: set_current_def push_slot_def)

lemma wf_current: "wheel_wf w \<Longrightarrow> nat (currentSlot w) < length (slots w)"
  by (simp add: wheel_wf_def)

lemma current_set_current [simp]:
  "wheel_wf w \<Longrightarrow> current_list (set_current L w) = L"
  using wf_current [of w] by (simp add: current_list_def set_current_def)

lemma current_push_slot:
  assumes "wheel_wf w" and "0 \<le> c"
  shows "current_list (push_slot c t w)
    = (if c = currentSlot w then current_list w @ [t] else current_list w)"
  using assms wf_current [OF assms(1)]
  by (auto simp: current_list_def push_slot_def wheel_wf_def nth_list_update)

lemma tasks_ofI: "c < length (slots w) \<Longrightarrow> t \<in> set (slots w ! c) \<Longrightarrow> t \<in> tasks_of w"
  unfolding tasks_of_def by (rule UN_I [of "slots w ! c"]) simp_all

lemma tasks_ofE:
  assumes "t \<in> tasks_of w"
  obtains c where "c < length (slots w)" and "t \<in> set (slots w ! c)"
  using assms unfolding tasks_of_def by (metis UN_E in_set_conv_nth)

lemma tasks_of_current: "wheel_wf w \<Longrightarrow> set (current_list w) \<subseteq> tasks_of w"
  using wf_current [of w] by (auto simp: current_list_def intro: tasks_ofI)

lemma tasks_of_update:
  "tasks_of (w\<lparr>slots := (slots w)[k := L]\<rparr>) \<subseteq> tasks_of w \<union> set L"
  using set_update_subset_insert [of "slots w" k L] by (fastforce simp: tasks_of_def)

lemma tasks_of_set_current: "tasks_of (set_current L w) \<subseteq> tasks_of w \<union> set L"
  unfolding set_current_def by (rule tasks_of_update)

lemma tasks_of_push_slot:
  assumes "nat c < length (slots w)"
  shows "tasks_of (push_slot c t w) \<subseteq> insert t (tasks_of w)"
proof -
  have "set (slots w ! nat c) \<subseteq> tasks_of w"
    using assms by (auto intro: tasks_ofI)
  then show ?thesis
    using tasks_of_update [of w "nat c" "slots w ! nat c @ [t]"] by (auto simp: push_slot_def)
qed

lemma wf_set_current:
  assumes "wheel_wf w" and "\<And>t. t \<in> set L \<Longrightarrow> task_ok (next_id w) t"
  shows "wheel_wf (set_current L w)"
  using assms tasks_of_set_current [of L w] by (fastforce simp: wheel_wf_def)

lemma live_set_current:
  assumes "wheel_live w" and "\<And>t. t \<in> set L \<Longrightarrow> task_ok (next_id w) t \<and> progressing t"
  shows "wheel_live (set_current L w)"
  using assms tasks_of_set_current [of L w] by (fastforce simp: wheel_live_def wf_set_current)

lemma live_push_slot:
  assumes "wheel_live w" and "0 \<le> c" and "c < slotLen w"
    and "task_ok (next_id w) t" and "progressing t"
  shows "wheel_live (push_slot c t w)"
proof -
  have "tasks_of (push_slot c t w) \<subseteq> insert t (tasks_of w)"
    using assms by (intro tasks_of_push_slot) (auto simp: wheel_live_def wheel_wf_def)
  with assms show ?thesis by (fastforce simp: wheel_live_def wheel_wf_def)
qed

section \<open>What a closure may do to the wheel\<close>

text \<open>
  A closure adds tasks and cancels tasks. \<open>extends w w'\<close> says that nothing else happened:
  every list of \<open>w'\<close> is the list of \<open>w\<close>, some of its tasks cancelled, followed by new
  tasks, and no new task of the current slot is due in the running tick.
\<close>

definition erase :: "'f task \<Rightarrow> 'f task" where
  "erase t = t\<lparr>task_fun := None\<rparr>"

lemma erase_sel [simp]:
  "task_id (erase t) = task_id t" "rotations (erase t) = rotations t"
  "timeout (erase t) = timeout t" "times (erase t) = times t" "erase (erase t) = erase t"
  "task_ok n (erase t) = task_ok n t" "recurring (erase t) = recurring t"
  "progressing (erase t) = progressing t"
  by (simp_all add: erase_def task_ok_def progressing_def recurring_def)

lemma erase_eqD:
  assumes "erase t = erase u"
  shows "rotations t = rotations u" "timeout t = timeout u" "times t = times u"
    "task_id t = task_id u" "task_ok n t = task_ok n u" "progressing t = progressing u"
    "recurring t = recurring u"
  using arg_cong [OF assms, of rotations] arg_cong [OF assms, of timeout]
    arg_cong [OF assms, of times] arg_cong [OF assms, of task_id]
    arg_cong [OF assms, of "task_ok n"] arg_cong [OF assms, of progressing]
    arg_cong [OF assms, of recurring] by simp_all

definition fresh_task :: "'f wheel \<Rightarrow> nat \<Rightarrow> nat \<Rightarrow> 'f task \<Rightarrow> bool" where
  "fresh_task w n c t \<longleftrightarrow>
     task_ok n t \<and> progressing t \<and> (int c = currentSlot w \<longrightarrow> 0 < rotations t)"

definition extends :: "'f wheel \<Rightarrow> 'f wheel \<Rightarrow> bool" where
  "extends w w' \<longleftrightarrow>
     slotLen w' = slotLen w \<and> currentSlot w' = currentSlot w \<and> starttime w' = starttime w
     \<and> next_id w \<le> next_id w' \<and> length (slots w') = length (slots w)
     \<and> (\<forall>c < length (slots w). \<exists>new. map erase (slots w' ! c) = map erase (slots w ! c @ new)
          \<and> (\<forall>t \<in> set new. fresh_task w (next_id w') c t))"

lemma task_ok_mono: "task_ok n t \<Longrightarrow> n \<le> m \<Longrightarrow> task_ok m t"
  by (simp add: task_ok_def)

lemma fresh_task_erase: "fresh_task w n c (erase t) = fresh_task w n c t"
  by (simp add: fresh_task_def)

lemma extends_refl: "extends w w"
  unfolding extends_def by (auto intro: exI [of _ "[]"])

lemma extends_trans:
  assumes "extends w1 w2" and "extends w2 w3"
  shows "extends w1 w3"
proof -
  have "\<exists>new. map erase (slots w3 ! c) = map erase (slots w1 ! c @ new)
      \<and> (\<forall>t \<in> set new. fresh_task w1 (next_id w3) c t)" if c: "c < length (slots w1)" for c
  proof -
    obtain a where a: "map erase (slots w2 ! c) = map erase (slots w1 ! c @ a)"
        "\<forall>t \<in> set a. fresh_task w1 (next_id w2) c t"
      using assms(1) c by (auto simp: extends_def)
    obtain b where b: "map erase (slots w3 ! c) = map erase (slots w2 ! c @ b)"
        "\<forall>t \<in> set b. fresh_task w2 (next_id w3) c t"
      using assms c by (auto simp: extends_def)
    have "map erase (slots w3 ! c) = map erase (slots w1 ! c @ a @ b)"
      using a(1) b(1) by simp
    moreover have "\<forall>t \<in> set (a @ b). fresh_task w1 (next_id w3) c t"
      using a(2) b(2) assms by (auto simp: extends_def fresh_task_def elim: task_ok_mono)
    ultimately show ?thesis by blast
  qed
  then show ?thesis using assms by (auto simp: extends_def)
qed

lemma extends_live:
  assumes "extends w w'" and "wheel_live w"
  shows "wheel_live w'"
proof -
  have "task_ok (next_id w') t \<and> progressing t" if "t \<in> tasks_of w'" for t
  proof -
    obtain c where c: "c < length (slots w')" "t \<in> set (slots w' ! c)"
      using \<open>t \<in> tasks_of w'\<close> by (rule tasks_ofE)
    then obtain new where new: "map erase (slots w' ! c) = map erase (slots w ! c @ new)"
        "\<forall>t \<in> set new. fresh_task w (next_id w') c t"
      using assms(1) by (auto simp: extends_def)
    have "erase t \<in> set (map erase (slots w ! c @ new))"
      using c(2) new(1) by (metis image_eqI set_map)
    then obtain u where u: "erase t = erase u" "u \<in> set (slots w ! c) \<or> u \<in> set new"
      by auto
    have "task_ok (next_id w') u \<and> progressing u"
      using u(2)
    proof
      assume "u \<in> set (slots w ! c)"
      moreover have "c < length (slots w)" using c(1) assms(1) by (simp add: extends_def)
      ultimately have "u \<in> tasks_of w" by (auto intro: tasks_ofI)
      then show ?thesis
        using assms by (auto simp: wheel_live_def wheel_wf_def extends_def elim: task_ok_mono)
    next
      assume "u \<in> set new"
      then show ?thesis using new(2) by (simp add: fresh_task_def)
    qed
    then show ?thesis using erase_eqD(5,6) [OF u(1)] by simp
  qed
  then show ?thesis using assms by (auto simp: wheel_live_def wheel_wf_def extends_def)
qed

text \<open>Adding with a timeout inside the \<^verbatim>\<open>int\<close> range, and cancelling, are such steps.\<close>

lemma new_task_ok:
  assumes "wheel_wf w" and "0 < tmo" and "tmo < 2 ^ 31"
  shows "to_int32 (tmo sdiv slotLen w) = tmo div slotLen w"
    and "0 \<le> tmo div slotLen w"
    and "slot_for w tmo = currentSlot w \<Longrightarrow> 0 < tmo div slotLen w"
proof -
  have L: "0 < slotLen w" "0 \<le> currentSlot w" "currentSlot w < slotLen w"
    using assms(1) by (simp_all add: wheel_wf_def)
  show nn: "0 \<le> tmo div slotLen w"
    using L assms(2) by (simp add: pos_imp_zdiv_nonneg_iff)
  have "tmo div slotLen w \<le> tmo div 1"
    using L assms(2) by (intro zdiv_mono2) simp_all
  then have "tmo div slotLen w < 2 ^ 31"
    using assms(3) by simp
  then show "to_int32 (tmo sdiv slotLen w) = tmo div slotLen w"
    using nn L assms(2) by simp
  show "0 < tmo div slotLen w" if "slot_for w tmo = currentSlot w"
  proof -
    have "(currentSlot w + tmo) mod slotLen w = currentSlot w mod slotLen w"
      using that L assms(1,2) slot_for_eq [of w tmo] by simp
    then have "slotLen w dvd tmo"
      by (metis add_diff_cancel_left' mod_eq_dvd_iff)
    then have "slotLen w \<le> tmo"
      using assms(2) by (intro zdvd_imp_le)
    then show ?thesis
      using L by (simp add: pos_imp_zdiv_pos_iff)
  qed
qed

lemma push_new_extends:
  assumes "wheel_wf w" and "0 \<le> c" and "c < slotLen w"
    and "task_ok (Suc (next_id w)) t" and "progressing t" and "c = currentSlot w \<Longrightarrow> 0 < rotations t"
  shows "extends w (push_slot c t (w\<lparr>next_id := Suc (next_id w)\<rparr>))"
  unfolding extends_def
proof (intro conjI allI impI)
  fix k assume k: "k < length (slots w)"
  let ?w = "push_slot c t (w\<lparr>next_id := Suc (next_id w)\<rparr>)"
  show "\<exists>new. map erase (slots ?w ! k) = map erase (slots w ! k @ new)
      \<and> (\<forall>t \<in> set new. fresh_task w (next_id ?w) k t)"
  proof (cases "k = nat c")
    case True
    then have "slots ?w ! k = slots w ! k @ [t]"
      using k by (simp add: push_slot_def)
    moreover have "fresh_task w (next_id ?w) k t"
      using assms True by (auto simp: fresh_task_def)
    ultimately show ?thesis by (intro exI [of _ "[t]"]) simp
  next
    case False
    then have "slots ?w ! k = slots w ! k"
      using k by (simp add: push_slot_def)
    then show ?thesis by (intro exI [of _ "[]"]) simp
  qed
qed simp_all

lemma addTask_extends:
  assumes "wheel_wf w" and "0 < tmo" and "tmo < 2 ^ 31"
  shows "extends w (snd (snd (addTask cb tmo f junk (s, w))))"
proof -
  have "0 < slotLen w" using assms(1) by (simp add: wheel_wf_def)
  then show ?thesis
    using assms slot_for_range [OF assms(1), of tmo] new_task_ok [OF assms]
    by (simp add: addTask_def Let_def)
       (rule push_new_extends, simp_all add: task_ok_def progressing_def)
qed

lemma erase_cancel [simp]: "erase (cancel i t) = erase t"
  by (simp add: erase_def cancel_def)

lemma delTask_extends: "extends w (delTask i w)"
  unfolding extends_def by (auto simp: delTask_def comp_def intro!: exI [of _ "[]"])

lemma delTask_live: "wheel_live w \<Longrightarrow> wheel_live (delTask i w)"
  by (rule extends_live [OF delTask_extends])

section \<open>A tick returns\<close>

text \<open>The contract of the closures handed to a wheel.\<close>

locale wheel_client =
  fixes cb :: "('s, 'f) closure_run"
    and ok :: "'s \<Rightarrow> bool"
  assumes cb_extends: "ok s \<Longrightarrow> wheel_live w \<Longrightarrow> extends w (snd (cb f (s, w)))"
    and cb_ok: "ok s \<Longrightarrow> wheel_live w \<Longrightarrow> ok (fst (cb f (s, w)))"
begin

lemma exec_extends: "ok s \<Longrightarrow> wheel_live w \<Longrightarrow> extends w (snd (exec cb t (s, w)))"
  by (auto simp: exec_def extends_refl cb_extends split: option.splits)

lemma exec_ok: "ok s \<Longrightarrow> wheel_live w \<Longrightarrow> ok (fst (exec cb t (s, w)))"
  by (auto simp: exec_def cb_ok split: option.splits)

end

definition zeros :: "nat \<Rightarrow> 'f wheel \<Rightarrow> nat" where
  "zeros i w = length (filter (\<lambda>t. rotations t \<le> 0) (drop i (current_list w)))"

text \<open>What every round of the loop leaves alone.\<close>

definition same_frame :: "'f wheel \<Rightarrow> 'f wheel \<Rightarrow> bool" where
  "same_frame w w' \<longleftrightarrow> slotLen w' = slotLen w \<and> currentSlot w' = currentSlot w
     \<and> starttime w' = starttime w"

lemma same_frame_trans: "same_frame a b \<Longrightarrow> same_frame b c \<Longrightarrow> same_frame a c"
  by (simp add: same_frame_def)

lemma extends_frame: "extends w w' \<Longrightarrow> same_frame w w'"
  by (simp add: extends_def same_frame_def)

lemma live_current:
  "wheel_live w \<Longrightarrow> t \<in> set (current_list w) \<Longrightarrow> task_ok (next_id w) t \<and> progressing t"
  using tasks_of_current [of w] by (auto simp: wheel_live_def wheel_wf_def)

text \<open>A round that only counts a rotation down.\<close>

lemma skip_round:
  assumes "wheel_live w" and i: "i < length (current_list w)" and "0 < rotations (current_list w ! i)"
  defines "w' \<equiv> set_current ((current_list w)[i := (current_list w ! i)
                   \<lparr>rotations := rotations (current_list w ! i) - 1\<rparr>]) w"
  shows "wheel_live w'" and "same_frame w w'" and "zeros (Suc i) w' = zeros i w"
    and "length (current_list w') - Suc i < length (current_list w) - i"
proof -
  have wf: "wheel_wf w" using assms(1) by (simp add: wheel_live_def)
  note ok = live_current [OF assms(1)]
  have "task_ok (next_id w) ((current_list w ! i)\<lparr>rotations := rotations (current_list w ! i) - 1\<rparr>)
      \<and> progressing ((current_list w ! i)\<lparr>rotations := rotations (current_list w ! i) - 1\<rparr>)"
    using ok [OF nth_mem [OF i]] assms(3) by (simp add: task_ok_def progressing_def recurring_def)
  then show "wheel_live w'"
    unfolding w'_def using ok set_update_subset_insert
    by (intro live_set_current assms(1)) (fastforce dest!: subsetD [OF set_update_subset_insert])
  show "same_frame w w'" by (simp add: same_frame_def w'_def)
  show "zeros (Suc i) w' = zeros i w"
    using assms(3) i wf by (simp add: zeros_def w'_def Cons_nth_drop_Suc [symmetric])
  show "length (current_list w') - Suc i < length (current_list w) - i"
    using i wf by (simp add: w'_def)
qed

text \<open>A round that runs a closure: the list it leaves is one due task shorter.\<close>

lemma length_remove_at [simp]: "i < length xs \<Longrightarrow> length (remove_at i xs) = length xs - 1"
  by (simp add: remove_at_def min_def)

lemma set_remove_at: "set (remove_at i xs) \<subseteq> set xs"
  by (auto simp: remove_at_def dest: in_set_takeD in_set_dropD)

lemma drop_remove_at: "i < length xs \<Longrightarrow> drop i (remove_at i xs) = drop (Suc i) xs"
  by (simp add: remove_at_def)

lemma rearm_current:
  assumes "wheel_wf w" and "0 < timeout t" and "slot_for w (timeout t) = currentSlot w"
  shows "0 < rotations (rearmed w t)"
proof -
  have L: "0 < slotLen w" "0 \<le> currentSlot w" "currentSlot w < slotLen w"
    using assms(1) by (simp_all add: wheel_wf_def)
  have "(currentSlot w + timeout t) mod slotLen w = currentSlot w mod slotLen w"
    using L assms slot_for_eq [of w "timeout t"] by simp
  then have "slotLen w dvd timeout t"
    by (metis add_diff_cancel_left' mod_eq_dvd_iff)
  then have "slotLen w \<le> timeout t"
    using assms(2) by (intro zdvd_imp_le)
  then show ?thesis
    using L assms(2) by (simp add: rearmed_def pos_imp_zdiv_pos_iff)
qed

lemma rearmed_ok:
  assumes "wheel_wf w" and "task_ok n t" and "0 < timeout t"
  shows "task_ok n (rearmed w t)" and "progressing (rearmed w t)"
  using assms by (simp_all add: task_ok_def rearmed_def progressing_def wheel_wf_def
      pos_imp_zdiv_nonneg_iff)

lemma fire_round:
  assumes live: "wheel_live w" and i: "i < length (current_list w)"
    and due: "rotations (current_list w ! i) \<le> 0"
  obtains w' where "after_exec i w = Inr w'" "wheel_live w'" "same_frame w w'"
    "zeros i w' < zeros i w"
proof -
  let ?L = "current_list w"
  let ?t = "?L ! i"
  have wf: "wheel_wf w" using live by (simp add: wheel_live_def)
  note ok = live_current [OF live]
  have zs: "zeros i w = Suc (length (filter (\<lambda>t. rotations t \<le> 0) (drop (Suc i) ?L)))"
    using i due by (simp add: zeros_def Cons_nth_drop_Suc [symmetric])
  show thesis
  proof (cases "recurring ?t")
    case False
    let ?w = "set_current (remove_at i ?L) w"
    have "wheel_live ?w"
      using ok set_remove_at [of i ?L] by (intro live_set_current live) auto
    moreover have "zeros i ?w < zeros i w"
      using zs i wf by (simp add: zeros_def drop_remove_at)
    ultimately show thesis
      using False by (intro that [of ?w]) (simp_all add: after_exec_def same_frame_def)
  next
    case True
    then have pos: "0 < timeout ?t"
      using ok [OF nth_mem [OF i]] by (simp add: progressing_def)
    let ?t' = "rearmed w ?t" and ?c = "slot_for w (timeout ?t)"
    let ?w1 = "set_current (?L[i := ?t']) w"
    let ?w2 = "push_slot ?c ?t' ?w1"
    let ?w3 = "set_current (remove_at i (current_list ?w2)) ?w2"
    have c: "0 \<le> ?c" "?c < slotLen w"
      using slot_for_range [OF wf, of "timeout ?t"] pos by simp_all
    have t': "task_ok (next_id w) ?t'" "progressing ?t'"
      using rearmed_ok [OF wf _ pos] ok [OF nth_mem [OF i]] by blast+
    have l1: "wheel_live ?w1"
      using ok t' by (intro live_set_current live) (auto dest!: subsetD [OF set_update_subset_insert])
    have l2: "wheel_live ?w2"
      using t' c by (intro live_push_slot l1) simp_all
    have wf1: "wheel_wf ?w1" and wf2: "wheel_wf ?w2"
      using l1 l2 by (simp_all add: wheel_live_def)
    have cur2: "current_list ?w2 = ?L[i := ?t'] @ (if ?c = currentSlot w then [?t'] else [])"
      using current_push_slot [OF wf1 c(1)] wf by simp
    have "task_ok (next_id w) t \<and> progressing t" if "t \<in> set (current_list ?w2)" for t
      using that ok t' unfolding cur2
      by (auto split: if_splits dest!: subsetD [OF set_update_subset_insert])
    then have l3: "wheel_live ?w3"
      using set_remove_at [of i "current_list ?w2"] by (intro live_set_current l2) auto
    have "drop i (current_list ?w3)
        = drop (Suc i) ?L @ (if ?c = currentSlot w then [?t'] else [])"
      using wf2 i by (simp add: drop_remove_at cur2)
    moreover have "?c = currentSlot w \<Longrightarrow> 0 < rotations ?t'"
      by (rule rearm_current [OF wf pos])
    ultimately have "zeros i ?w3 < zeros i w"
      by (auto simp: zs zeros_def [of i ?w3])
    then show thesis
      using True c l3 by (intro that [of ?w3]) (simp_all add: after_exec_def same_frame_def Let_def)
  qed
qed

lemma extends_current:
  assumes "wheel_wf w" and "extends w w'"
  obtains new where "map erase (current_list w') = map erase (current_list w @ new)"
    and "\<And>t. t \<in> set new \<Longrightarrow> fresh_task w (next_id w') (nat (currentSlot w)) t"
proof -
  have "current_list w' = slots w' ! nat (currentSlot w)"
    using assms(2) by (simp add: current_list_def extends_def)
  then show thesis
    using assms wf_current [OF assms(1)] that by (auto simp: extends_def current_list_def)
qed

lemma zeros_erase: "zeros i w = length (filter (\<lambda>t. rotations t \<le> 0) (drop i (map erase (current_list w))))"
  by (simp add: zeros_def drop_map filter_map comp_def)

lemma extends_round:
  assumes "wheel_wf w" and "extends w w'" and i: "i < length (current_list w)"
  shows "zeros i w' = zeros i w" and "i < length (current_list w')"
    and "erase (current_list w' ! i) = erase (current_list w ! i)"
proof -
  obtain new where new: "map erase (current_list w') = map erase (current_list w @ new)"
    and fr: "\<And>t. t \<in> set new \<Longrightarrow> fresh_task w (next_id w') (nat (currentSlot w)) t"
    using extends_current [OF assms(1,2)] by blast
  have len: "length (current_list w') = length (current_list w) + length new"
    using arg_cong [OF new, of length] by simp
  then show i': "i < length (current_list w')" using i by simp
  show "erase (current_list w' ! i) = erase (current_list w ! i)"
    using arg_cong [OF new, of "\<lambda>xs. xs ! i"] i i' by (simp add: nth_append)
  have "0 < rotations t" if "t \<in> set new" for t
    using fr [OF that] assms(1) by (simp add: fresh_task_def wheel_wf_def)
  then have none: "filter (\<lambda>t. rotations t \<le> 0) new = []"
    by (auto simp: filter_empty_conv linorder_not_le)
  show "zeros i w' = zeros i w"
    unfolding zeros_erase new using i none by (simp add: drop_map filter_map comp_def)
qed

context wheel_client begin

lemma tick_loop_returns:
  "wheel_live w \<Longrightarrow> ok s \<Longrightarrow> \<exists>s' w'. tick_loop cb i (s, w) = Some (Inr (s', w')) \<and> wheel_live w'
    \<and> same_frame w w' \<and> ok s'"
proof (induction "(zeros i w, length (current_list w) - i)" arbitrary: i s w
    rule: wf_induct_rule [OF wf_lex_prod [OF wf_less_than wf_less_than]])
  case less: 1
  have wf: "wheel_wf w" using less.prems(1) by (simp add: wheel_live_def)
  consider (stop) "length (current_list w) \<le> i"
    | (skip) "i < length (current_list w)" "0 < rotations (current_list w ! i)"
    | (fire) "i < length (current_list w)" "rotations (current_list w ! i) \<le> 0"
    by linarith
  then show ?case
  proof cases
    case stop
    then show ?thesis using less.prems by (simp add: tick_loop.simps same_frame_def)
  next
    case skip
    let ?w = "set_current ((current_list w)[i := (current_list w ! i)
                   \<lparr>rotations := rotations (current_list w ! i) - 1\<rparr>]) w"
    note round = skip_round [OF less.prems(1) skip]
    from less.hyps [of "Suc i" ?w s] less.prems(2) round obtain s' w' where
      "tick_loop cb (Suc i) (s, ?w) = Some (Inr (s', w'))" "wheel_live w'" "same_frame ?w w'" "ok s'"
      by auto
    then show ?thesis
      using skip same_frame_trans [OF round(2)] by (subst tick_loop.simps) auto
  next
    case fire
    let ?sw = "exec cb (current_list w ! i) (s, w)"
    have ext: "extends w (snd ?sw)" by (rule exec_extends [OF less.prems(2,1)])
    note er = extends_round [OF wf ext fire(1)]
    have due: "rotations (current_list (snd ?sw) ! i) \<le> 0"
      using erase_eqD(1) [OF er(3)] fire(2) by simp
    obtain w1 where w1: "after_exec i (snd ?sw) = Inr w1" "wheel_live w1"
        "same_frame (snd ?sw) w1" "zeros i w1 < zeros i (snd ?sw)"
      by (rule fire_round [OF extends_live [OF ext less.prems(1)] er(2) due])
    have "zeros i w1 < zeros i w" using w1(4) er(1) by simp
    with less.hyps [of i w1 "fst ?sw"] w1(2) exec_ok [OF less.prems(2,1)] obtain s' w' where
      "tick_loop cb i (fst ?sw, w1) = Some (Inr (s', w'))" "wheel_live w'" "same_frame w1 w'" "ok s'"
      by auto
    moreover have "same_frame w w1"
      by (rule same_frame_trans [OF extends_frame [OF ext] w1(3)])
    ultimately show ?thesis
      using fire w1(1) same_frame_trans by (subst tick_loop.simps) auto
  qed
qed

lemma tick_returns:
  assumes "wheel_live w" and "ok s"
  shows "\<exists>s' w'. tick cb (s, w) = Some (Inr (s', w')) \<and> wheel_live w' \<and> ok s'
    \<and> slotLen w' = slotLen w \<and> currentSlot w' = (currentSlot w + 1) mod slotLen w
    \<and> starttime w' = starttime w"
proof -
  obtain s' w' where r: "tick_loop cb 0 (s, w) = Some (Inr (s', w'))" "wheel_live w'" "same_frame w w'" "ok s'"
    using tick_loop_returns [OF assms] by blast
  have "wheel_live (advance w')"
    using r(2) by (auto simp: wheel_live_def wheel_wf_def advance_def tasks_of_def)
  then show ?thesis
    using r assms by (auto simp: tick_def advance_def same_frame_def wheel_live_def wheel_wf_def)
qed

lemma ticks_return:
  "wheel_live w \<Longrightarrow> ok s \<Longrightarrow> \<exists>s' w'. ticks cb n (s, w) = Some (Inr (s', w')) \<and> wheel_live w' \<and> ok s'
    \<and> slotLen w' = slotLen w \<and> currentSlot w' = (currentSlot w + int n) mod slotLen w
    \<and> starttime w' = starttime w"
proof (induction n arbitrary: s w)
  case 0
  then show ?case by (simp add: wheel_live_def wheel_wf_def)
next
  case (Suc n)
  obtain s1 w1 where t: "tick cb (s, w) = Some (Inr (s1, w1))" "wheel_live w1" "ok s1"
      "slotLen w1 = slotLen w" "currentSlot w1 = (currentSlot w + 1) mod slotLen w"
      "starttime w1 = starttime w"
    using tick_returns [OF Suc.prems] by blast
  with Suc.IH [OF t(2,3)] show ?case
    by (auto simp: mod_simps add.assoc)
qed

lemma takeAll_returns:
  assumes "wheel_live w" and "ok s"
  shows "\<exists>s' w'. takeAllTimeout cb now (s, w) = Some (Inr (s', w')) \<and> wheel_live w' \<and> ok s'
    \<and> starttime w' = now"
proof -
  obtain s' w' where "ticks cb (nat (now - starttime w)) (s, w) = Some (Inr (s', w'))"
      "wheel_live w'" "ok s'"
    using ticks_return [OF assms] by blast
  moreover from this have "wheel_live (w'\<lparr>starttime := now\<rparr>)"
    by (auto simp: wheel_live_def wheel_wf_def tasks_of_def)
  ultimately show ?thesis by (simp add: takeAllTimeout_def)
qed

end

end
