(* ===== verification/WheelTimers.thy ===== *)
theory WheelTimers
  imports TimingWheel
begin

text \<open>
  The abstract view of a timing wheel: a multiset of timers, each with the number of
  ticks left before the one that runs it. A tick of the wheel is shown to be a tick of this
  multiset, and the closures it runs are those of the timers with nothing left.
\<close>

section \<open>The abstract timers\<close>

type_synonym 'f timer = "int \<times> 'f task"

definition norm :: "'f task \<Rightarrow> 'f task" where
  "norm t = t\<lparr>rotations := 0\<rparr>"

definition due :: "int \<Rightarrow> int \<Rightarrow> nat \<Rightarrow> 'f task \<Rightarrow> int" where
  "due len cur c t = (int c - cur) mod len + rotations t * len"

definition slot_sum :: "(nat \<Rightarrow> 'f task list \<Rightarrow> 'a multiset) \<Rightarrow> 'f wheel \<Rightarrow> 'a multiset" where
  "slot_sum h w = (\<Sum>c<length (slots w). h c (slots w ! c))"

definition timers :: "'f wheel \<Rightarrow> 'f timer multiset" where
  "timers w = slot_sum (\<lambda>c L. mset (map (\<lambda>t. (due (slotLen w) (currentSlot w) c t, norm t)) L)) w"

text \<open>What a timer with nothing left becomes: nothing, or itself with its period ahead.\<close>

definition next_times :: "'f task \<Rightarrow> 'f task" where
  "next_times t = t\<lparr>times := (if times t > 1 then times t - 1 else times t)\<rparr>"

definition timer_tick :: "'f timer \<Rightarrow> 'f timer multiset" where
  "timer_tick = (\<lambda>(d, t). if 0 < d then {#(d - 1, t)#}
      else if recurring t then {#(timeout t - 1, next_times t)#} else {#})"

definition abs_tick :: "'f timer multiset \<Rightarrow> 'f timer multiset" where
  "abs_tick T = \<Sum>\<^sub># (image_mset timer_tick T)"

section \<open>Sums over the slots\<close>

lemma slot_sum_update:
  assumes "k < length (slots w)"
  shows "slot_sum h (w\<lparr>slots := (slots w)[k := L]\<rparr>) + h k (slots w ! k) = slot_sum h w + h k L"
proof -
  have k: "k \<in> {..<length (slots w)}" using assms by simp
  have "(\<Sum>c\<in>{..<length (slots w)} - {k}. h c ((slots w)[k := L] ! c))
      = (\<Sum>c\<in>{..<length (slots w)} - {k}. h c (slots w ! c))"
    by (rule sum.cong) auto
  then show ?thesis
    using assms unfolding slot_sum_def by (simp add: sum.remove [OF _ k])
qed

lemma slot_sum_set_current:
  assumes "wheel_wf w"
  shows "slot_sum h (set_current L w) + h (nat (currentSlot w)) (current_list w)
    = slot_sum h w + h (nat (currentSlot w)) L"
  unfolding set_current_def current_list_def by (rule slot_sum_update [OF wf_current [OF assms]])

lemma slot_sum_push:
  assumes "nat c < length (slots w)"
  shows "slot_sum h (push_slot c t w) + h (nat c) (slots w ! nat c)
    = slot_sum h w + h (nat c) (slots w ! nat c @ [t])"
  unfolding push_slot_def by (rule slot_sum_update [OF assms])

lemma slot_sum_cong:
  "(\<And>c. c < length (slots w) \<Longrightarrow> h c (slots w ! c) = h' c (slots w ! c)) \<Longrightarrow> slot_sum h w = slot_sum h' w"
  unfolding slot_sum_def by (rule sum.cong) simp_all

section \<open>The loop, counted in timers of the next tick\<close>

text \<open>
  \<open>done_part\<close> counts a task for the wheel after the tick; \<open>todo_part\<close> is what the loop will
  make of a task of the current slot that it has not visited yet.
\<close>

definition done_part :: "int \<Rightarrow> int \<Rightarrow> nat \<Rightarrow> 'f task \<Rightarrow> 'f timer" where
  "done_part len cur c t = (due len (cur + 1) c t, norm t)"

definition todo_part :: "int \<Rightarrow> 'f task \<Rightarrow> 'f timer multiset" where
  "todo_part len t = timer_tick (rotations t * len, norm t)"

definition elsewhere_part :: "int \<Rightarrow> int \<Rightarrow> nat \<Rightarrow> 'f task list \<Rightarrow> 'f timer multiset" where
  "elsewhere_part len cur c L = (if int c = cur then {#} else mset (map (done_part len cur c) L))"

definition elsewhere :: "'f wheel \<Rightarrow> 'f timer multiset" where
  "elsewhere w = slot_sum (elsewhere_part (slotLen w) (currentSlot w)) w"

definition done_here :: "'f wheel \<Rightarrow> 'f task list \<Rightarrow> 'f timer multiset" where
  "done_here w L = mset (map (done_part (slotLen w) (currentSlot w) (nat (currentSlot w))) L)"

definition todo_here :: "'f wheel \<Rightarrow> 'f task list \<Rightarrow> 'f timer multiset" where
  "todo_here w L = (\<Sum>t\<leftarrow>L. todo_part (slotLen w) t)"

definition loop_timers :: "nat \<Rightarrow> 'f wheel \<Rightarrow> 'f timer multiset" where
  "loop_timers i w =
     elsewhere w + done_here w (take i (current_list w)) + todo_here w (drop i (current_list w))"

lemma norm_sel [simp]:
  "times (norm t) = times t" "timeout (norm t) = timeout t" "task_fun (norm t) = task_fun t"
  "task_id (norm t) = task_id t" "recurring (norm t) = recurring t"
  "norm (t\<lparr>rotations := r\<rparr>) = norm t" "norm (rearmed w t) = next_times (norm t)"
  by (simp_all add: norm_def recurring_def rearmed_def next_times_def)

lemma due_current: "due len cur (nat cur) t = rotations t * len" if "0 \<le> cur"
  using that by (simp add: due_def)

lemma due_current_next:
  assumes "0 < len" and "0 \<le> cur"
  shows "due len (cur + 1) (nat cur) t = len - 1 + rotations t * len"
proof -
  have "(- 1 :: int) mod len = len - 1" using assms by (simp add: zmod_minus1)
  then show ?thesis using assms by (simp add: due_def)
qed

lemma mod_diff_one: "0 < len \<Longrightarrow> x mod len \<noteq> 0 \<Longrightarrow> (x - 1) mod len = x mod len - 1" for x :: int
proof -
  assume a: "0 < len" "x mod len \<noteq> 0"
  then have "0 < x mod len" by (simp add: le_neq_trans)
  moreover have "x mod len < len" using a(1) by simp
  ultimately have "(x mod len - 1) mod len = x mod len - 1"
    by (intro mod_pos_pos_trivial) linarith+
  then show ?thesis by (simp add: mod_diff_left_eq)
qed

lemma due_elsewhere_next:
  assumes "0 < len" and "0 \<le> cur" and "cur < len" and "int c < len" and "int c \<noteq> cur"
  shows "due len (cur + 1) c t = due len cur c t - 1"
proof -
  have "(int c - cur) mod len \<noteq> 0"
  proof
    assume "(int c - cur) mod len = 0"
    then have "int c mod len = cur mod len" by (simp add: mod_eq_dvd_iff mod_eq_0_iff_dvd)
    then show False using assms by simp
  qed
  then show ?thesis
    using mod_diff_one [OF assms(1), of "int c - cur"] by (simp add: due_def algebra_simps)
qed

text \<open>A task pushed again, wherever it lands, is due its timeout after this tick.\<close>

lemma due_rearmed:
  assumes "wheel_wf w" and "0 < timeout t"
  defines "c \<equiv> slot_for w (timeout t)"
  shows "c \<noteq> currentSlot w \<Longrightarrow>
      due (slotLen w) (currentSlot w + 1) (nat c) (rearmed w t) = timeout t - 1"
    and "c = currentSlot w \<Longrightarrow> rotations (rearmed w t) * slotLen w = timeout t"
proof -
  let ?n = "slotLen w" and ?T = "timeout t"
  have L: "0 < ?n" "0 \<le> currentSlot w" "currentSlot w < ?n"
    using assms(1) by (simp_all add: wheel_wf_def)
  have c: "c = (currentSlot w + ?T) mod ?n" "0 \<le> c" "c < ?n"
    using assms slot_for_eq [of w ?T] slot_for_range [of w ?T] by simp_all
  have rot: "rotations (rearmed w t) = ?T div ?n"
    using assms(2) L by (simp add: rearmed_def)
  have "(c - currentSlot w) mod ?n = ?T mod ?n"
    unfolding c(1) by (simp add: mod_diff_left_eq)
  then have d: "due ?n (currentSlot w) (nat c) (rearmed w t) = ?T"
    using c(2) by (simp add: due_def rot)
  show "due ?n (currentSlot w + 1) (nat c) (rearmed w t) = ?T - 1" if "c \<noteq> currentSlot w"
    using due_elsewhere_next [of ?n "currentSlot w" "nat c" "rearmed w t"] that L c(2,3) d
    by linarith
  show "rotations (rearmed w t) * ?n = ?T" if "c = currentSlot w"
    using d that L by (simp add: due_current)
qed

lemma here_frame [simp]:
  "done_here (set_current L w) = done_here w" "todo_here (set_current L w) = todo_here w"
  "done_here (push_slot c t w) = done_here w" "todo_here (push_slot c t w) = todo_here w"
  by (simp_all add: fun_eq_iff done_here_def todo_here_def)

lemma todo_here_simps [simp]:
  "todo_here w [] = {#}" "todo_here w (t # L) = todo_part (slotLen w) t + todo_here w L"
  "todo_here w (L @ L') = todo_here w L + todo_here w L'"
  by (simp_all add: todo_here_def)

lemma done_here_simps [simp]:
  "done_here w [] = {#}" "done_here w (L @ L') = done_here w L + done_here w L'"
  by (simp_all add: done_here_def)

lemma elsewhere_set_current: "wheel_wf w \<Longrightarrow> elsewhere (set_current L w) = elsewhere w"
proof -
  assume wf: "wheel_wf w"
  then have "int (nat (currentSlot w)) = currentSlot w" by (simp add: wheel_wf_def)
  then show ?thesis
    using slot_sum_set_current [OF wf, of "elsewhere_part (slotLen w) (currentSlot w)" L]
    by (simp add: elsewhere_def elsewhere_part_def)
qed

lemma elsewhere_push:
  assumes "wheel_wf w" and "0 \<le> c" and "c < slotLen w"
  shows "elsewhere (push_slot c t w) = elsewhere w
    + (if c = currentSlot w then {#} else {#done_part (slotLen w) (currentSlot w) (nat c) t#})"
proof -
  have "nat c < length (slots w)" using assms by (simp add: wheel_wf_def)
  then show ?thesis
    using assms(2) slot_sum_push [of c w "elsewhere_part (slotLen w) (currentSlot w)" t]
    by (auto simp: elsewhere_def elsewhere_part_def)
qed

lemma loop_timers_skip:
  assumes "wheel_live w" and i: "i < length (current_list w)" and pos: "0 < rotations (current_list w ! i)"
  defines "t' \<equiv> (current_list w ! i)\<lparr>rotations := rotations (current_list w ! i) - 1\<rparr>"
  shows "loop_timers (Suc i) (set_current ((current_list w)[i := t']) w) = loop_timers i w"
proof -
  let ?L = "current_list w" and ?n = "slotLen w"
  have wf: "wheel_wf w" and L: "0 < ?n" "0 \<le> currentSlot w"
    using assms(1) by (simp_all add: wheel_live_def wheel_wf_def)
  have "?n - 1 + (rotations (?L ! i) - 1) * ?n = rotations (?L ! i) * ?n - 1"
    by (simp add: left_diff_distrib)
  then have "done_part ?n (currentSlot w) (nat (currentSlot w)) t' = (rotations (?L ! i) * ?n - 1, norm (?L ! i))"
    using L unfolding done_part_def due_current_next [OF L] by (simp add: t'_def)
  moreover have "0 < rotations (?L ! i) * ?n" using pos L by simp
  ultimately have "done_here w [t'] = todo_part ?n (?L ! i)"
    by (simp add: todo_part_def timer_tick_def done_here_def)
  moreover have "take (Suc i) (?L[i := t']) = take i ?L @ [t']" "drop (Suc i) (?L[i := t']) = drop (Suc i) ?L"
      "drop i ?L = ?L ! i # drop (Suc i) ?L"
    using i by (simp_all add: take_Suc_conv_app_nth Cons_nth_drop_Suc)
  ultimately show ?thesis
    using wf by (simp add: loop_timers_def elsewhere_set_current)
qed

lemma take_remove_at: "i < length xs \<Longrightarrow> take i (remove_at i xs) = take i xs"
  by (simp add: remove_at_def)

text \<open>The list a firing round leaves, and the tasks still to be visited.\<close>

lemma loop_timers_fire:
  assumes live: "wheel_live w" and i: "i < length (current_list w)"
    and due: "rotations (current_list w ! i) \<le> 0" and r: "after_exec i w = Inr w'"
  shows "loop_timers i w' = loop_timers i w"
    and "filter (\<lambda>t. rotations t \<le> 0) (drop i (current_list w'))
      = filter (\<lambda>t. rotations t \<le> 0) (drop (Suc i) (current_list w))"
proof -
  let ?L = "current_list w" and ?n = "slotLen w"
  let ?t = "?L ! i"
  have wf: "wheel_wf w" and n: "0 < ?n"
    using live by (simp_all add: wheel_live_def wheel_wf_def)
  have ti: "task_ok (next_id w) ?t" "progressing ?t"
    using live_current [OF live nth_mem [OF i]] by simp_all
  have dr: "drop i ?L = ?t # drop (Suc i) ?L"
    using i by (simp add: Cons_nth_drop_Suc)
  have "rotations ?t = 0" using due ti(1) by (simp add: task_ok_def)
  then have todo: "todo_part ?n ?t
      = (if recurring ?t then {#(timeout ?t - 1, next_times (norm ?t))#} else {#})"
    by (simp add: todo_part_def timer_tick_def)
  have "loop_timers i w' = loop_timers i w \<and> filter (\<lambda>t. rotations t \<le> 0) (drop i (current_list w'))
      = filter (\<lambda>t. rotations t \<le> 0) (drop (Suc i) ?L)"
  proof (cases "recurring ?t")
    case False
    then have w': "w' = set_current (remove_at i ?L) w" using r by (simp add: after_exec_def)
    have "todo_here w (drop i ?L) = todo_here w (drop (Suc i) ?L)"
      using False by (simp add: dr todo)
    then show ?thesis
      using i wf by (simp add: w' loop_timers_def elsewhere_set_current take_remove_at drop_remove_at)
  next
    case True
    then have pos: "0 < timeout ?t" using ti(2) by (simp add: progressing_def)
    let ?t' = "rearmed w ?t" and ?c = "slot_for w (timeout ?t)"
    let ?w1 = "set_current (?L[i := ?t']) w"
    let ?w2 = "push_slot ?c ?t' ?w1"
    have c: "0 \<le> ?c" "?c < ?n" using slot_for_range [OF wf, of "timeout ?t"] pos by simp_all
    have t': "task_ok (next_id w) ?t'" "progressing ?t'"
      using rearmed_ok [OF wf ti(1) pos] by blast+
    have l1: "wheel_live ?w1"
      using live_current [OF live] t' by (intro live_set_current live) (auto dest!: subsetD [OF set_update_subset_insert])
    have l2: "wheel_live ?w2" using t' c by (intro live_push_slot l1) simp_all
    have wf1: "wheel_wf ?w1" and wf2: "wheel_wf ?w2" using l1 l2 by (simp_all add: wheel_live_def)
    have w': "w' = set_current (remove_at i (current_list ?w2)) ?w2"
      using r True c by (simp add: after_exec_def Let_def)
    have cur2: "current_list ?w2 = ?L[i := ?t'] @ (if ?c = currentSlot w then [?t'] else [])"
      using current_push_slot [OF wf1 c(1)] wf by simp
    have td: "take i (current_list w') = take i ?L"
        "drop i (current_list w') = drop (Suc i) ?L @ (if ?c = currentSlot w then [?t'] else [])"
      using i wf2 by (simp_all add: w' cur2 take_remove_at drop_remove_at)
    have fr: "done_here w' = done_here w" "todo_here w' = todo_here w"
      by (simp_all add: w')
    have els: "elsewhere w' = elsewhere w
        + (if ?c = currentSlot w then {#} else {#(timeout ?t - 1, next_times (norm ?t))#})"
      using wf wf1 wf2 c due_rearmed(1) [OF wf pos]
      by (simp add: w' elsewhere_set_current elsewhere_push done_part_def)
    have rot: "?c = currentSlot w \<Longrightarrow> 0 < rotations ?t'" by (rule rearm_current [OF wf pos])
    have "?c = currentSlot w \<Longrightarrow> todo_part ?n ?t' = {#(timeout ?t - 1, next_times (norm ?t))#}"
      using due_rearmed(2) [OF wf pos] pos by (simp add: todo_part_def timer_tick_def)
    then have "loop_timers i w' = loop_timers i w"
      using True by (simp add: loop_timers_def td fr els dr todo)
    then show ?thesis using rot by (auto simp: td)
  qed
  then show "loop_timers i w' = loop_timers i w"
    and "filter (\<lambda>t. rotations t \<le> 0) (drop i (current_list w')) = filter (\<lambda>t. rotations t \<le> 0) (drop (Suc i) ?L)"
    by simp_all
qed

text \<open>The tick as a whole, for closures that only record that they ran.\<close>

definition record_closure :: "('f list, 'f) closure_run" where
  "record_closure f sw = (fst sw @ [f], snd sw)"

interpretation rc: wheel_client record_closure "\<lambda>_. True"
  by unfold_locales (simp_all add: record_closure_def extends_refl)

definition due_closures :: "'f task list \<Rightarrow> 'f list" where
  "due_closures L = List.map_filter task_fun (filter (\<lambda>t. rotations t \<le> 0) L)"

lemma record_exec:
  "exec record_closure t (log, w) = (log @ List.map_filter task_fun [t], w)"
  by (simp add: exec_def record_closure_def map_filter_def split: option.splits)

lemma due_closures_Nil [simp]: "due_closures [] = []"
  by (simp add: due_closures_def map_filter_def)

lemma due_closures_Cons:
  "due_closures (t # L) = (if rotations t \<le> 0 then List.map_filter task_fun [t] else []) @ due_closures L"
  by (simp add: due_closures_def map_filter_def)

lemma record_loop:
  fixes w :: "'f wheel"
  assumes "tick_loop record_closure i (log, w) = Some (Inr (log', w'))" and "wheel_live w"
  shows "loop_timers i w = loop_timers (length (current_list w')) w' \<and> wheel_live w' \<and> same_frame w w'
    \<and> log' = log @ due_closures (drop i (current_list w))"
proof -
  define Q :: "('f list, 'f) closure_run \<Rightarrow> nat \<Rightarrow> ('f list, 'f) wheel_state
      \<Rightarrow> wheel_ub + ('f list, 'f) wheel_state \<Rightarrow> bool" where
    "Q = (\<lambda>cb i sw r. cb = record_closure \<longrightarrow> wheel_live (snd sw) \<longrightarrow> (\<forall>log' w'. r = Inr (log', w') \<longrightarrow>
       loop_timers i (snd sw) = loop_timers (length (current_list w')) w' \<and> wheel_live w'
       \<and> same_frame (snd sw) w' \<and> log' = fst sw @ due_closures (drop i (current_list (snd sw)))))"
  have "Q record_closure i (log, w) (Inr (log', w'))"
  proof (rule tick_loop.raw_induct [where P = Q, OF _ assms(1)])
    fix f cb i sw r
    assume IH: "\<And>cb i sw r. f cb i sw = Some r \<Longrightarrow> Q cb i sw r"
      and eq: "(if length (current_list (snd sw)) \<le> i then Some (Inr sw)
        else if rotations (current_list (snd sw) ! i) > 0
        then f cb (Suc i)
             (fst sw, set_current ((current_list (snd sw))[i := (current_list (snd sw) ! i)
               \<lparr>rotations := rotations (current_list (snd sw) ! i) - 1\<rparr>]) (snd sw))
        else (case after_exec i (snd (exec cb (current_list (snd sw) ! i) sw)) of
              Inl e \<Rightarrow> Some (Inl e)
            | Inr w' \<Rightarrow> f cb i (fst (exec cb (current_list (snd sw) ! i) sw), w'))) = Some r"
    show "Q cb i sw r"
      unfolding Q_def
    proof (intro impI allI)
      fix log' w'
      assume cb: "cb = record_closure" and live: "wheel_live (snd sw)" and r: "r = Inr (log', w')"
      obtain log w where sw: "sw = (log, w)" by force
      consider (stop) "length (current_list w) \<le> i"
        | (skip) "i < length (current_list w)" "0 < rotations (current_list w ! i)"
        | (fire) "i < length (current_list w)" "rotations (current_list w ! i) \<le> 0"
        by linarith
      then show "loop_timers i (snd sw) = loop_timers (length (current_list w')) w' \<and> wheel_live w'
          \<and> same_frame (snd sw) w' \<and> log' = fst sw @ due_closures (drop i (current_list (snd sw)))"
      proof cases
        case stop
        then show ?thesis
          using eq r live by (simp add: sw loop_timers_def same_frame_def due_closures_def map_filter_def)
      next
        case skip
        then have dr: "drop i (current_list w) = current_list w ! i # drop (Suc i) (current_list w)"
          by (simp add: Cons_nth_drop_Suc)
        let ?w = "set_current ((current_list w)[i := (current_list w ! i)
                   \<lparr>rotations := rotations (current_list w ! i) - 1\<rparr>]) w"
        have round: "wheel_live ?w" "same_frame w ?w"
          using skip_round(1,2) [of w i] skip live sw by simp_all
        have "wheel_wf w" using live sw by (simp add: wheel_live_def)
        moreover have "Q cb (Suc i) (log, ?w) r"
          using eq skip by (intro IH) (simp add: sw)
        ultimately show ?thesis
          using round skip cb r sw live dr loop_timers_skip [of w i] same_frame_trans [OF round(2)]
          by (simp add: Q_def due_closures_Cons)
      next
        case fire
        then have dr: "drop i (current_list w) = current_list w ! i # drop (Suc i) (current_list w)"
          by (simp add: Cons_nth_drop_Suc)
        let ?log = "log @ List.map_filter task_fun [current_list w ! i]"
        obtain w1 where w1: "after_exec i w = Inr w1" "wheel_live w1" "same_frame w w1"
          using fire_round [of w i] fire live sw by auto
        have "Q cb i (?log, w1) r"
          using eq fire cb w1(1) by (intro IH) (simp add: sw record_exec)
        then show ?thesis
          using w1 fire cb r sw live dr loop_timers_fire [of w i w1] same_frame_trans [OF w1(3)]
          by (simp add: Q_def due_closures_Cons) (simp add: due_closures_def)
      qed
    qed
  qed
  then show ?thesis using assms(2) by (simp add: Q_def)
qed

section \<open>A tick of the wheel is a tick of its timers\<close>

definition timer_fires :: "'f timer \<Rightarrow> 'f multiset" where
  "timer_fires = (\<lambda>(d, t). if 0 < d then {#} else mset (List.map_filter task_fun [t]))"

definition abs_fired :: "'f timer multiset \<Rightarrow> 'f multiset" where
  "abs_fired T = \<Sum>\<^sub># (image_mset timer_fires T)"

lemma abs_tick_simps [simp]:
  "abs_tick {#} = {#}" "abs_tick (add_mset p T) = timer_tick p + abs_tick T"
  "abs_tick (S + T) = abs_tick S + abs_tick T"
  by (simp_all add: abs_tick_def)

lemma abs_fired_simps [simp]:
  "abs_fired {#} = {#}" "abs_fired (add_mset p T) = timer_fires p + abs_fired T"
  "abs_fired (S + T) = abs_fired S + abs_fired T"
  by (simp_all add: abs_fired_def)

lemma abs_slot_sum:
  "abs_tick (slot_sum h w) = slot_sum (\<lambda>c L. abs_tick (h c L)) w"
  "abs_fired (slot_sum h w) = slot_sum (\<lambda>c L. abs_fired (h c L)) w"
proof -
  have "abs_tick (\<Sum>c<n. h c (slots w ! c)) = (\<Sum>c<n. abs_tick (h c (slots w ! c)))"
    and "abs_fired (\<Sum>c<n. h c (slots w ! c)) = (\<Sum>c<n. abs_fired (h c (slots w ! c)))" for n
    by (induction n) simp_all
  then show "abs_tick (slot_sum h w) = slot_sum (\<lambda>c L. abs_tick (h c L)) w"
    "abs_fired (slot_sum h w) = slot_sum (\<lambda>c L. abs_fired (h c L)) w"
    by (simp_all add: slot_sum_def)
qed

lemma slot_sum_split:
  assumes "wheel_wf w"
    and "\<And>c L. int c = currentSlot w \<Longrightarrow> h c L = here L"
    and "\<And>c. c < length (slots w) \<Longrightarrow> int c \<noteq> currentSlot w \<Longrightarrow> h c (slots w ! c) = there c (slots w ! c)"
  shows "slot_sum h w
    = slot_sum (\<lambda>c L. if int c = currentSlot w then {#} else there c L) w + here (current_list w)"
proof -
  let ?k = "nat (currentSlot w)"
  have k: "int ?k = currentSlot w" using assms(1) by (simp add: wheel_wf_def)
  have mem: "?k \<in> {..<length (slots w)}" using wf_current [OF assms(1)] by simp
  have rest: "(\<Sum>c\<in>{..<length (slots w)} - {?k}. h c (slots w ! c))
      = (\<Sum>c\<in>{..<length (slots w)} - {?k}. if int c = currentSlot w then {#} else there c (slots w ! c))"
    using assms(3) k by (intro sum.cong) auto
  have "slot_sum h w = here (current_list w) + (\<Sum>c\<in>{..<length (slots w)} - {?k}. h c (slots w ! c))"
    unfolding slot_sum_def sum.remove [OF finite_lessThan mem] current_list_def assms(2) [OF k] ..
  also have "\<dots> = slot_sum (\<lambda>c L. if int c = currentSlot w then {#} else there c L) w + here (current_list w)"
    unfolding rest slot_sum_def sum.remove [OF finite_lessThan mem]
    by (simp only: k simp_thms if_True add_0 add.commute)
  finally show ?thesis .
qed

lemma timers_current_slot:
  fixes L :: "'f task list"
  assumes "wheel_wf w" and "int c = currentSlot w"
  shows "abs_tick (mset (map (\<lambda>t. (due (slotLen w) (currentSlot w) c t, norm t)) L)) = todo_here w L"
    and "\<forall>t \<in> set L. 0 \<le> rotations t \<Longrightarrow>
      abs_fired (mset (map (\<lambda>t. (due (slotLen w) (currentSlot w) c t, norm t)) L)) = mset (due_closures L)"
proof -
  have n: "0 < slotLen w" using assms(1) by (simp add: wheel_wf_def)
  have d: "due (slotLen w) (currentSlot w) c t = rotations t * slotLen w" for t :: "'f task"
    using assms(2) by (simp add: due_def)
  show "abs_tick (mset (map (\<lambda>t. (due (slotLen w) (currentSlot w) c t, norm t)) L)) = todo_here w L"
    by (induction L) (simp_all add: d todo_part_def)
  show "abs_fired (mset (map (\<lambda>t. (due (slotLen w) (currentSlot w) c t, norm t)) L)) = mset (due_closures L)"
    if "\<forall>t \<in> set L. 0 \<le> rotations t"
    using that n
    by (induction L)
       (auto simp: d due_closures_Cons timer_fires_def map_filter_def zero_less_mult_iff)
qed

lemma timers_other_slot:
  fixes L :: "'f task list"
  assumes "wheel_wf w" and "c < length (slots w)" and "int c \<noteq> currentSlot w"
    and "\<forall>t \<in> set L. 0 \<le> rotations t"
  shows "abs_tick (mset (map (\<lambda>t. (due (slotLen w) (currentSlot w) c t, norm t)) L))
      = mset (map (done_part (slotLen w) (currentSlot w) c) L)"
    and "abs_fired (mset (map (\<lambda>t. (due (slotLen w) (currentSlot w) c t, norm t)) L)) = {#}"
proof -
  let ?n = "slotLen w" and ?cur = "currentSlot w"
  have n: "0 < ?n" "0 \<le> ?cur" "?cur < ?n" "int c < ?n"
    using assms(1,2) by (simp_all add: wheel_wf_def)
  have pos: "0 < due ?n ?cur c t \<and> done_part ?n ?cur c t = (due ?n ?cur c t - 1, norm t)"
    if "0 \<le> rotations t" for t :: "'f task"
  proof -
    have "due ?n (?cur + 1) c t = due ?n ?cur c t - 1"
      by (rule due_elsewhere_next [OF n assms(3)])
    moreover have "0 \<le> due ?n (?cur + 1) c t"
      using that n by (simp add: due_def)
    ultimately show ?thesis by (simp add: done_part_def)
  qed
  show "abs_tick (mset (map (\<lambda>t. (due ?n ?cur c t, norm t)) L)) = mset (map (done_part ?n ?cur c) L)"
    using assms(4) by (induction L) (simp_all add: timer_tick_def pos)
  show "abs_fired (mset (map (\<lambda>t. (due ?n ?cur c t, norm t)) L)) = {#}"
    using assms(4) by (induction L) (simp_all add: timer_fires_def pos)
qed

lemma current_index: "int c = currentSlot w \<Longrightarrow> nat (currentSlot w) = c"
  by arith

lemma abs_timers:
  assumes "wheel_live w"
  shows "abs_tick (timers w) = loop_timers 0 w"
    and "abs_fired (timers w) = mset (due_closures (current_list w))"
proof -
  have wf: "wheel_wf w" using assms by (simp add: wheel_live_def)
  have rot: "\<forall>t \<in> set (slots w ! c). 0 \<le> rotations t" if "c < length (slots w)" for c
    using wf tasks_ofI [OF that] by (auto simp: wheel_wf_def task_ok_def)
  let ?h = "\<lambda>c L. mset (map (\<lambda>t. (due (slotLen w) (currentSlot w) c t, norm t)) L)"
  have "slot_sum (\<lambda>c L. abs_tick (?h c L)) w
      = slot_sum (\<lambda>c L. if int c = currentSlot w then {#}
          else mset (map (done_part (slotLen w) (currentSlot w) c) L)) w + todo_here w (current_list w)"
  proof (rule slot_sum_split [OF wf])
    show "abs_tick (?h c L) = todo_here w L" if "int c = currentSlot w" for c L
      by (rule timers_current_slot(1) [OF wf that])
    show "abs_tick (?h c (slots w ! c)) = mset (map (done_part (slotLen w) (currentSlot w) c) (slots w ! c))"
      if "c < length (slots w)" "int c \<noteq> currentSlot w" for c
      by (rule timers_other_slot(1) [OF wf that rot [OF that(1)]])
  qed
  then show "abs_tick (timers w) = loop_timers 0 w"
    by (simp add: timers_def abs_slot_sum loop_timers_def elsewhere_def elsewhere_part_def [abs_def])
  let ?g = "\<lambda>c L. if int c = currentSlot w then abs_fired (?h c L) else {#}"
  have "slot_sum (\<lambda>c L. abs_fired (?h c L)) w = slot_sum ?g w"
    by (rule slot_sum_cong) (simp add: timers_other_slot(2) [OF wf] rot del: mset_map)
  also have "\<dots> = slot_sum (\<lambda>c L. if int c = currentSlot w then {#} else {#}) w
      + abs_fired (?h (nat (currentSlot w)) (current_list w))"
    by (rule slot_sum_split [OF wf]) (simp_all add: current_index)
  also have "\<dots> = mset (due_closures (current_list w))"
    using wf rot [OF wf_current [OF wf]] timers_current_slot(2) [OF wf, of "nat (currentSlot w)" "current_list w"]
    by (simp add: slot_sum_def current_list_def wheel_wf_def)
  finally show "abs_fired (timers w) = mset (due_closures (current_list w))"
    by (simp add: timers_def abs_slot_sum)
qed

lemma timers_advance:
  assumes "wheel_live w"
  shows "timers (advance w) = loop_timers (length (current_list w)) w"
proof -
  have wf: "wheel_wf w" using assms by (simp add: wheel_live_def)
  let ?n = "slotLen w" and ?cur = "currentSlot w"
  have "timers (advance w)
      = slot_sum (\<lambda>c L. mset (map (done_part ?n ?cur c) L)) w"
    using wf by (simp add: timers_def advance_def slot_sum_def done_part_def [abs_def] due_def wheel_wf_def mod_diff_right_eq)
  also have "\<dots> = slot_sum (\<lambda>c L. if int c = ?cur then {#} else mset (map (done_part ?n ?cur c) L)) w
      + done_here w (current_list w)"
    by (rule slot_sum_split [OF wf]) (simp_all add: done_here_def current_index)
  finally show ?thesis
    by (simp add: loop_timers_def elsewhere_def elsewhere_part_def [abs_def])
qed

lemma record_tick:
  assumes "wheel_live w"
  shows "\<exists>w'. tick record_closure (log, w) = Some (Inr (log @ due_closures (current_list w), w'))
    \<and> wheel_live w' \<and> timers w' = abs_tick (timers w)"
proof -
  obtain log' w' where r: "tick_loop record_closure 0 (log, w) = Some (Inr (log', w'))"
    using rc.tick_loop_returns [OF assms] by blast
  note l = record_loop [OF r assms]
  have "wheel_live (advance w')"
    using l by (auto simp: wheel_live_def wheel_wf_def advance_def tasks_of_def)
  then show ?thesis
    using r l by (simp add: tick_def timers_advance abs_timers [OF assms])
qed

section \<open>Runs of several ticks\<close>

primrec fired_within :: "nat \<Rightarrow> 'f timer multiset \<Rightarrow> 'f multiset" where
  "fired_within 0 T = {#}"
| "fired_within (Suc n) T = abs_fired T + fired_within n (abs_tick T)"

lemma fired_within_empty [simp]: "fired_within n {#} = {#}"
  by (induction n) simp_all

lemma fired_within_add: "fired_within n (S + T) = fired_within n S + fired_within n T"
  by (induction n arbitrary: S T) simp_all

lemma fired_within_insert: "fired_within n (add_mset p T) = fired_within n {#p#} + fired_within n T"
  using fired_within_add [of n "{#p#}" T] by simp

lemma fired_within_once:
  "\<not> recurring t \<Longrightarrow> 0 \<le> d \<Longrightarrow>
    fired_within n {#(d, t)#} = (if d < int n then mset (List.map_filter task_fun [t]) else {#})"
proof (induction n arbitrary: d)
  case 0
  then show ?case by simp
next
  case (Suc n)
  show ?case
  proof (cases "d = 0")
    case True
    with Suc.prems show ?thesis by (simp add: timer_fires_def timer_tick_def)
  next
    case False
    with Suc.prems have "0 < d" "0 \<le> d - 1" by simp_all
    with Suc.IH [of "d - 1"] Suc.prems(1) show ?thesis
      by (simp add: timer_fires_def timer_tick_def)
  qed
qed

text \<open>A task whose \<^verbatim>\<open>times_\<close> is -1 runs every \<open>timeout\<close> ticks.\<close>

definition runs_forever :: "int \<Rightarrow> int \<Rightarrow> nat \<Rightarrow> nat" where
  "runs_forever T d n = (if int n \<le> d then 0 else Suc (nat ((int n - 1 - d) div T)))"

lemma fired_within_forever:
  assumes "times t = -1" and "0 < timeout t" and "task_fun t = Some f"
  shows "0 \<le> d \<Longrightarrow> fired_within n {#(d, t)#} = replicate_mset (runs_forever (timeout t) d n) f"
proof (induction n arbitrary: d)
  case 0
  then show ?case by (simp add: runs_forever_def)
next
  case (Suc n)
  let ?T = "timeout t"
  have nt: "next_times t = t" using assms(1) by (simp add: next_times_def)
  show ?case
  proof (cases "d = 0")
    case True
    have "runs_forever ?T 0 (Suc n) = Suc (runs_forever ?T (?T - 1) n)"
    proof (cases "int n \<le> ?T - 1")
      case True
      then show ?thesis by (simp add: runs_forever_def div_pos_pos_trivial)
    next
      case False
      have "int n div ?T = (int n - ?T) div ?T + 1"
        using assms(2) div_add_self2 [of ?T "int n - ?T"] by simp
      moreover have "0 \<le> (int n - ?T) div ?T"
        using False assms(2) by (simp add: pos_imp_zdiv_nonneg_iff)
      ultimately show ?thesis using False by (simp add: runs_forever_def nat_add_distrib)
    qed
    with True Suc.IH [of "?T - 1"] assms nt show ?thesis
      by (simp add: timer_fires_def timer_tick_def map_filter_def recurring_def)
  next
    case False
    with Suc.prems have d: "0 < d" "0 \<le> d - 1" by simp_all
    then have "runs_forever ?T d (Suc n) = runs_forever ?T (d - 1) n"
      by (simp add: runs_forever_def)
    with d Suc.IH [of "d - 1"] show ?thesis
      by (simp add: timer_fires_def timer_tick_def)
  qed
qed

lemma record_ticks:
  "wheel_live w \<Longrightarrow> \<exists>log' w'. ticks record_closure n (log, w) = Some (Inr (log', w'))
    \<and> wheel_live w' \<and> mset log' = mset log + fired_within n (timers w)"
proof (induction n arbitrary: log w)
  case 0
  then show ?case by simp
next
  case (Suc n)
  obtain w1 where w1: "tick record_closure (log, w) = Some (Inr (log @ due_closures (current_list w), w1))"
      "wheel_live w1" "timers w1 = abs_tick (timers w)"
    using record_tick [OF Suc.prems] by blast
  obtain log' w' where "ticks record_closure n (log @ due_closures (current_list w), w1) = Some (Inr (log', w'))"
      "wheel_live w'" "mset log' = mset (log @ due_closures (current_list w)) + fired_within n (timers w1)"
    using Suc.IH [OF w1(2)] by blast
  with w1 show ?case by (simp add: abs_timers(2) [OF Suc.prems])
qed

definition fired_log :: "nat \<Rightarrow> 'f wheel \<Rightarrow> 'f multiset option" where
  "fired_log n w = (case ticks record_closure n ([], w) of
     Some (Inr (log, w')) \<Rightarrow> Some (mset log) | _ \<Rightarrow> None)"

lemma fired_log_eq: "wheel_live w \<Longrightarrow> fired_log n w = Some (fired_within n (timers w))"
  using record_ticks [of w n "[]"] by (auto simp: fired_log_def)

section \<open>Adding and cancelling, seen on the timers\<close>

abbreviation added :: "int \<Rightarrow> 'f \<Rightarrow> int \<Rightarrow> 'f wheel \<Rightarrow> 'f wheel" where
  "added tmo f junk w \<equiv> snd (snd (addTask record_closure tmo f junk ([], w)))"

lemma added_eq:
  assumes "wheel_wf w" and "0 \<le> tmo" and "tmo < 2 ^ 31"
  shows "added tmo f junk w = push_slot (slot_for w tmo)
      \<lparr>task_id = next_id w, rotations = tmo div slotLen w, timeout = tmo, times = junk, task_fun = Some f\<rparr>
      (w\<lparr>next_id := Suc (next_id w)\<rparr>)"
proof -
  have "0 < slotLen w" using assms(1) by (simp add: wheel_wf_def)
  moreover have "tmo div slotLen w \<le> tmo div 1"
    using assms(2) \<open>0 < slotLen w\<close> by (intro zdiv_mono2) simp_all
  moreover have "0 \<le> tmo div slotLen w"
    using assms(2) \<open>0 < slotLen w\<close> by (simp add: pos_imp_zdiv_nonneg_iff)
  ultimately show ?thesis using assms by (simp add: addTask_def Let_def)
qed

lemma added_live:
  assumes "wheel_live w" and "0 \<le> tmo" and "tmo < 2 ^ 31"
    and "0 < tmo \<or> \<not> (junk > 1 \<or> junk = -1)"
  shows "wheel_live (added tmo f junk w)"
proof -
  have wf: "wheel_wf w" using assms(1) by (simp add: wheel_live_def)
  then have "wheel_live (w\<lparr>next_id := Suc (next_id w)\<rparr>)"
    using assms(1) by (auto simp: wheel_live_def wheel_wf_def tasks_of_def task_ok_def less_Suc_eq)
  then show ?thesis
    using slot_for_range [OF wf assms(2)] wf assms
    by (simp add: added_eq [OF wf assms(2,3)])
       (intro live_push_slot, auto simp: task_ok_def progressing_def recurring_def wheel_wf_def
          pos_imp_zdiv_nonneg_iff)
qed

lemma timers_added:
  assumes "wheel_wf w" and "0 \<le> tmo" and "tmo < 2 ^ 31"
  shows "timers (added tmo f junk w) = add_mset (tmo,
      \<lparr>task_id = next_id w, rotations = 0, timeout = tmo, times = junk, task_fun = Some f\<rparr>) (timers w)"
proof -
  let ?c = "slot_for w tmo" and ?n = "slotLen w" and ?w = "w\<lparr>next_id := Suc (next_id w)\<rparr>"
  have c: "0 \<le> ?c" "?c < ?n" "?c = (currentSlot w + tmo) mod ?n" "0 < ?n"
    using slot_for_range [OF assms(1,2)] slot_for_eq [OF assms(1,2)] assms(1)
    by (simp_all add: wheel_wf_def)
  have "(?c - currentSlot w) mod ?n = tmo mod ?n"
    unfolding c(3) by (simp add: mod_diff_left_eq)
  then have d: "due ?n (currentSlot w) (nat ?c) t = tmo" if "rotations t = tmo div ?n" for t :: "'a task"
    using c(1) that by (simp add: due_def)
  let ?h = "\<lambda>c L. mset (map (\<lambda>t. (due ?n (currentSlot w) c t, norm t)) L)"
  let ?t = "\<lparr>task_id = next_id w, rotations = tmo div ?n, timeout = tmo, times = junk, task_fun = Some f\<rparr>"
  have "nat ?c < length (slots ?w)" using c assms(1) by (simp add: wheel_wf_def)
  note slot_sum_push [OF this, of ?h ?t]
  moreover have "slot_sum ?h ?w = timers w" by (simp add: slot_sum_def timers_def)
  ultimately show ?thesis
    by (simp add: added_eq [OF assms] timers_def [of "push_slot _ _ _"] d norm_def)
qed

lemma timers_cancel:
  "timers (delTask i w) = image_mset (\<lambda>(d, t). (d, cancel i t)) (timers w)"
proof -
  have map_sum: "image_mset g (\<Sum>c<n. h c) = (\<Sum>c<n. image_mset g (h c))"
    for g :: "'a timer \<Rightarrow> 'a timer" and h :: "nat \<Rightarrow> 'a timer multiset" and n
    by (induction n) simp_all
  have "norm (cancel i t) = cancel i (norm t)" and "rotations (cancel i t) = rotations t" for t :: "'a task"
    by (simp_all add: norm_def cancel_def)
  then show ?thesis
    by (simp add: timers_def slot_sum_def delTask_def map_sum multiset.map_comp comp_def due_def)
qed

lemma timers_ids:
  assumes "wheel_wf w" and "(d, t) \<in># timers w"
  shows "task_id t < next_id w"
proof -
  obtain c u where "c < length (slots w)" "u \<in> set (slots w ! c)" "t = norm u"
    using assms(2) by (auto simp: timers_def slot_sum_def set_mset_sum)
  then show ?thesis
    using assms(1) tasks_ofI [of c w u] by (auto simp: wheel_wf_def task_ok_def)
qed

section \<open>A task that stops the loop from returning\<close>

lemma stuck_round:
  assumes "wheel_wf w" and "current_list w = [t]" and "timeout t = 0" and "rotations t = 0"
    and "times t = -1"
  shows "after_exec 0 w = Inr w"
proof -
  let ?c = "nat (currentSlot w)"
  have c: "?c < length (slots w)" "0 \<le> currentSlot w" "currentSlot w < slotLen w" "0 < slotLen w"
    using assms(1) by (simp_all add: wheel_wf_def)
  have t': "rearmed w t = t" using assms by (simp add: rearmed_def)
  have sl: "slot_for w 0 = currentSlot w" using c by (simp add: slot_for_eq [OF assms(1)])
  have "slots w ! ?c = [t]" using assms(2) by (simp add: current_list_def)
  then have id: "set_current [t] w = w"
    using list_update_id [of "slots w" ?c] by (simp add: set_current_def)
  have "set_current [t] (push_slot (currentSlot w) t w) = w"
    using id c \<open>slots w ! ?c = [t]\<close> by (simp add: set_current_def push_slot_def)
  moreover have "current_list (push_slot (currentSlot w) t w) = [t, t]"
    using current_push_slot [OF assms(1) c(2)] assms(2) by simp
  ultimately show ?thesis
    using assms c t' sl id
    by (simp add: after_exec_def recurring_def Let_def remove_at_def)
qed

lemma stuck_loop:
  fixes w :: "'f wheel"
  assumes "wheel_wf w" and "current_list w = [t]" and "timeout t = 0" and "rotations t = 0"
    and "times t = -1"
  shows "tick_loop record_closure 0 (log, w) = None"
proof (rule ccontr)
  assume "tick_loop record_closure 0 (log, w) \<noteq> None"
  then obtain r where ret: "tick_loop record_closure 0 (log, w) = Some r" by blast
  define Q :: "('f list, 'f) closure_run \<Rightarrow> nat \<Rightarrow> ('f list, 'f) wheel_state
      \<Rightarrow> wheel_ub + ('f list, 'f) wheel_state \<Rightarrow> bool" where
    "Q = (\<lambda>cb i sw r. \<not> (cb = record_closure \<and> i = 0 \<and> snd sw = w))"
  have "Q record_closure 0 (log, w) r"
  proof (rule tick_loop.raw_induct [where P = Q, OF _ ret])
    fix f cb i sw r
    assume IH: "\<And>cb i sw r. f cb i sw = Some r \<Longrightarrow> Q cb i sw r"
      and eq: "(if length (current_list (snd sw)) \<le> i then Some (Inr sw)
        else if rotations (current_list (snd sw) ! i) > 0
        then f cb (Suc i)
             (fst sw, set_current ((current_list (snd sw))[i := (current_list (snd sw) ! i)
               \<lparr>rotations := rotations (current_list (snd sw) ! i) - 1\<rparr>]) (snd sw))
        else (case after_exec i (snd (exec cb (current_list (snd sw) ! i) sw)) of
              Inl e \<Rightarrow> Some (Inl e)
            | Inr w' \<Rightarrow> f cb i (fst (exec cb (current_list (snd sw) ! i) sw), w'))) = Some r"
    show "Q cb i sw r"
      unfolding Q_def
    proof
      assume h: "cb = record_closure \<and> i = 0 \<and> snd sw = w"
      then obtain log where sw: "sw = (log, w)" by (metis prod.collapse)
      have "f cb 0 (log @ List.map_filter task_fun [t], w) = Some r"
        using eq h assms stuck_round [OF assms] by (simp add: sw record_exec)
      from IH [OF this] h show False by (simp add: Q_def)
    qed
  qed
  then show False by (simp add: Q_def)
qed

lemma current_added_zero:
  assumes "wheel_wf w"
  shows "current_list (added 0 f junk w) = current_list w
      @ [\<lparr>task_id = next_id w, rotations = 0, timeout = 0, times = junk, task_fun = Some f\<rparr>]"
proof -
  have "wheel_wf (w\<lparr>next_id := Suc (next_id w)\<rparr>)"
    using assms by (auto simp: wheel_wf_def tasks_of_def task_ok_def less_Suc_eq)
  then show ?thesis
    using assms slot_for_eq [OF assms, of 0] current_push_slot [of "w\<lparr>next_id := Suc (next_id w)\<rparr>"]
    by (simp add: added_eq wheel_wf_def current_list_def)
qed

section \<open>Properties of the timing wheel\<close>

text \<open>C19. Let the wheel be well formed and hold no recurring task with a timeout of 0 (\<open>wheel_live\<close>; with
  one a tick need not return, see \<open>zero_timeout_never_returns\<close>), and let the closures leave the wheel
  alone, each only recording that it ran. Then one tick of the wheel, with its rotation counts and
  its list edited while it is walked, returns and is exactly one tick of the abstract timers: the
  closures it runs are those of the timers that are due, in the order of the current list; every
  other timer comes one tick closer; a recurring one starts its period again.\<close>

theorem tick_refines_timers:
  assumes "wheel_live w"
  shows "\<exists>w'. tick record_closure (log, w) = Some (Inr (log @ due_closures (current_list w), w'))
    \<and> mset (due_closures (current_list w)) = abs_fired (timers w)
    \<and> timers w' = abs_tick (timers w) \<and> wheel_live w'"
  using record_tick [OF assms, of log] abs_timers(2) [OF assms] by auto

theorem tick_refines_timers_witness:
  "\<exists>w'. tick record_closure ([], added 2 (7 :: nat) 0 (new_wheel 3 0)) = Some (Inr ([], w'))
    \<and> timers w' = {#(1, \<lparr>task_id = 0, rotations = 0, timeout = 2, times = 0, task_fun = Some 7\<rparr>)#}"
proof -
  have n: "wheel_live (new_wheel 3 0 :: nat wheel)" by (rule wf_new_wheel) simp_all
  have live: "wheel_live (added 2 (7 :: nat) 0 (new_wheel 3 0))"
    by (rule added_live [OF n]) simp_all
  have "timers (new_wheel 3 0 :: nat wheel) = {#}" by (simp add: timers_def slot_sum_def new_wheel_def)
  moreover have "wheel_wf (new_wheel 3 0 :: nat wheel)" using n by (simp add: wheel_live_def)
  ultimately have t: "timers (added 2 (7 :: nat) 0 (new_wheel 3 0))
      = {#(2, \<lparr>task_id = 0, rotations = 0, timeout = 2, times = 0, task_fun = Some 7\<rparr>)#}"
    by (simp add: timers_added) (simp add: new_wheel_def)
  have "due_closures (current_list (added 2 (7 :: nat) 0 (new_wheel 3 0))) = []"
    using abs_timers(2) [OF live] by (simp add: t timer_fires_def)
  then show ?thesis
    using tick_refines_timers [OF live, of "[]"] by (auto simp: t abs_tick_def timer_tick_def)
qed

text \<open>C20. Take a wheel without recurring tasks of timeout 0 (\<open>wheel_live\<close>) and closures that only record
  that they ran, and add a task with a timeout of \<open>tmo\<close> milliseconds, \<open>0 \<le> tmo < 2 ^ 31\<close> (the range
  of \<^verbatim>\<open>Task::timeout_\<close>). If its uninitialised \<^verbatim>\<open>times_\<close> holds neither -1 nor a number above 1 (else it
  recurs, see \<open>stale_times_recurs\<close>), it runs exactly once, in tick number \<open>tmo\<close> counted from 0, and
  adding it changes nothing else of any later run.\<close>

theorem one_shot_runs_once:
  assumes "wheel_live w" and "0 \<le> tmo" and "tmo < 2 ^ 31" and "\<not> (junk > 1 \<or> junk = -1)"
  shows "\<exists>F. fired_log n w = Some F
    \<and> fired_log n (snd (snd (addTask record_closure tmo f junk ([], w))))
        = Some (if tmo < int n then add_mset f F else F)"
proof -
  have wf: "wheel_wf w" using assms(1) by (simp add: wheel_live_def)
  have live: "wheel_live (added tmo f junk w)" using assms by (intro added_live) simp_all
  show ?thesis
    using assms by (simp add: fired_log_eq live fired_log_eq [OF live] timers_added [OF wf]
        fired_within_insert [of _ _ "timers w"] fired_within_once recurring_def map_filter_def)
qed

theorem one_shot_runs_once_witness:
  "\<exists>F. fired_log 5 (new_wheel 3 0) = Some F
    \<and> fired_log 5 (snd (snd (addTask record_closure 4 (7 :: nat) 0 ([], new_wheel 3 0))))
        = Some (if (4 :: int) < int 5 then add_mset 7 F else F)"
  by (rule one_shot_runs_once [OF wf_new_wheel]) simp_all

text \<open>When the uninitialised \<^verbatim>\<open>times_\<close> of a task happens to hold -1 the same call makes a
  timer that runs every \<open>tmo\<close> ticks, for ever.\<close>

theorem stale_times_recurs:
  assumes "wheel_live w" and "0 < tmo" and "tmo < 2 ^ 31"
  shows "\<exists>F. fired_log n w = Some F
    \<and> fired_log n (snd (snd (addTask record_closure tmo f (-1) ([], w))))
        = Some (F + replicate_mset (runs_forever tmo tmo n) f)"
proof -
  have wf: "wheel_wf w" using assms(1) by (simp add: wheel_live_def)
  have live: "wheel_live (added tmo f (-1) w)" using assms by (intro added_live) simp_all
  show ?thesis
    using assms by (simp add: fired_log_eq live fired_log_eq [OF live] timers_added [OF wf]
        fired_within_insert [of _ _ "timers w"] fired_within_forever)
qed

theorem stale_times_recurs_witness:
  "\<exists>F. fired_log 10 (new_wheel 4 0) = Some F
    \<and> fired_log 10 (snd (snd (addTask record_closure 3 (7 :: nat) (-1) ([], new_wheel 4 0))))
        = Some (F + replicate_mset (runs_forever 3 3 10) 7)
    \<and> runs_forever 3 3 10 = 3"
  using stale_times_recurs [of "new_wheel 4 0" 3 10 "7 :: nat", OF wf_new_wheel]
  by (simp add: runs_forever_def)

text \<open>A task cancelled through the handle \<^verbatim>\<open>addTask\<close> returned never runs, and the other tasks
  run as if it had never been added.\<close>

theorem cancelled_never_runs:
  assumes "wheel_live w" and "0 \<le> tmo" and "tmo < 2 ^ 31" and "0 < tmo \<or> \<not> (junk > 1 \<or> junk = -1)"
    and "addTask record_closure tmo f junk ([], w) = (Some i, log, w')"
  shows "fired_log n (delTask i w') = fired_log n w \<and> fired_log n w \<noteq> None"
proof -
  have wf: "wheel_wf w" using assms(1) by (simp add: wheel_live_def)
  have i: "i = next_id w" and w': "w' = added tmo f junk w"
    using assms(2,5) by (auto simp: addTask_def Let_def)
  have live: "wheel_live (delTask i w')"
    unfolding w' by (rule delTask_live [OF added_live [OF assms(1-4)]])
  have old: "image_mset (\<lambda>(d, t). (d, cancel i t)) (timers w) = timers w"
    using timers_ids [OF wf] unfolding i
    by (intro trans [OF image_mset_cong multiset.map_ident]) (fastforce simp: cancel_def)
  have dead: "fired_within n {#(d, t)#} = {#}" if "task_fun t = None" "0 \<le> timeout t" for d n and t :: "'a task"
    using that
  proof (induction n arbitrary: d t)
    case (Suc n)
    then have "fired_within n {#(timeout t - 1, next_times t)#} = {#}" "fired_within n {#(d - 1, t)#} = {#}"
      by (simp_all add: next_times_def)
    with Suc.prems show ?case by (simp add: timer_fires_def timer_tick_def map_filter_def)
  qed simp
  have "timers (delTask i w') = add_mset (tmo, \<lparr>task_id = next_id w, rotations = 0, timeout = tmo,
      times = junk, task_fun = None\<rparr>) (timers w)"
    using assms(2,3) by (simp add: timers_cancel w' timers_added [OF wf] old) (simp add: cancel_def i)
  then have "fired_within n (timers (delTask i w')) = fired_within n (timers w)"
    using assms(2) by (simp add: fired_within_insert [of n _ "timers w"] dead)
  then show ?thesis by (simp add: fired_log_eq [OF live] fired_log_eq [OF assms(1)])
qed

theorem cancelled_never_runs_witness:
  "fired_log 9 (delTask 0 (snd (snd (addTask record_closure 4 (7 :: nat) (-1) ([], new_wheel 3 0)))))
    = fired_log 9 (new_wheel 3 0) \<and> fired_log 9 (new_wheel 3 0 :: nat wheel) \<noteq> None"
  by (rule cancelled_never_runs [OF wf_new_wheel, of 3 4 "-1" "7 :: nat" 0 0 "[]"])
     (simp_all add: addTask_def Let_def new_wheel_def)

text \<open>With a timeout of 0 and a stale \<^verbatim>\<open>times_\<close> of -1 the next tick never returns: the task
  is pushed again at the end of the list the loop is walking.\<close>

theorem zero_timeout_never_returns:
  assumes "0 < len" and "len < 2 ^ 31"
  shows "tick record_closure ([], snd (snd (addTask record_closure 0 (f :: 'f) (-1) ([], new_wheel len now)))) = None"
proof -
  have "wheel_live (new_wheel len now :: 'f wheel)" by (rule wf_new_wheel [OF assms])
  then have wf: "wheel_wf (new_wheel len now :: 'f wheel)" by (simp add: wheel_live_def)
  let ?w = "added 0 f (-1) (new_wheel len now)"
  have empty: "current_list (new_wheel len now :: 'f wheel) = []"
    using assms by (simp add: current_list_def new_wheel_def)
  have "wheel_wf ?w"
    using assms wf unfolding wheel_wf_def
    by (simp add: added_eq [OF wf] slot_for_eq [OF wf])
       (auto simp: new_wheel_def push_slot_def tasks_of_def task_ok_def slot_for_def
          dest!: subsetD [OF set_update_subset_insert])
  moreover have "current_list ?w = [\<lparr>task_id = 0, rotations = 0, timeout = 0, times = -1, task_fun = Some f\<rparr>]"
    by (simp add: current_added_zero [OF wf] empty) (simp add: new_wheel_def)
  ultimately have "tick_loop record_closure 0 ([], ?w) = None"
    by (rule stuck_loop) simp_all
  then show ?thesis by (simp add: tick_def)
qed

theorem zero_timeout_never_returns_witness:
  "tick record_closure ([], snd (snd (addTask record_closure 0 (7 :: nat) (-1) ([], new_wheel 60000 0)))) = None"
  by (rule zero_timeout_never_returns) simp_all

text \<open>\<^verbatim>\<open>takeAllTimeout\<close> returns, turns the wheel by the milliseconds since the last call (by
  none when the clock went back), runs exactly the timers due in that time, and remembers the
  new time.\<close>

theorem takeAllTimeout_catches_up:
  assumes "wheel_live w"
  shows "\<exists>log' w'. takeAllTimeout record_closure now (log, w) = Some (Inr (log', w'))
    \<and> starttime w' = now \<and> wheel_live w'
    \<and> currentSlot w' = (currentSlot w + max 0 (now - starttime w)) mod slotLen w
    \<and> mset log' = mset log + fired_within (nat (now - starttime w)) (timers w)"
proof -
  let ?n = "nat (now - starttime w)"
  obtain log' w' where t: "ticks record_closure ?n (log, w) = Some (Inr (log', w'))" "wheel_live w'"
      "mset log' = mset log + fired_within ?n (timers w)"
    using record_ticks [OF assms] by blast
  moreover have "currentSlot w' = (currentSlot w + int ?n) mod slotLen w"
    using rc.ticks_return [OF assms, of ?n log] t(1) by auto
  moreover have "wheel_live (w'\<lparr>starttime := now\<rparr>)"
    using t(2) by (auto simp: wheel_live_def wheel_wf_def tasks_of_def)
  ultimately show ?thesis
    by (auto simp: takeAllTimeout_def max_def)
qed

theorem takeAllTimeout_catches_up_witness:
  "\<exists>log' w'. takeAllTimeout record_closure 105 ([], new_wheel 3 100 :: nat wheel) = Some (Inr (log', w'))
    \<and> starttime w' = 105 \<and> currentSlot w' = 2"
  using takeAllTimeout_catches_up [OF wf_new_wheel, of 3 105 "[]" 100]
  by (auto simp: new_wheel_def)

end
