(* ===== verification/Poller.thy ===== *)
theory Poller
  imports Prelude
begin

text \<open>
  \<^verbatim>\<open>Channel\<close> (\<^verbatim>\<open>gdrpc/net/channel.hpp\<close>, \<^verbatim>\<open>channel.cpp\<close>) and \<^verbatim>\<open>EPollPoller\<close>
  (\<^verbatim>\<open>gdrpc/net/epoll_poller.hpp\<close>, \<^verbatim>\<open>epoll_poller.cpp\<close>).

  A channel is a record; its address is the field \<open>ch_addr\<close>. The operations that reach the
  poller through the loop take the channel and the poller and return both. Every
  \<^verbatim>\<open>epoll_ctl\<close> the code issues is appended to \<open>ctl_log\<close>. What the kernel makes of such a
  sequence of calls, by its manual page, is the interest list of the section on the abstract
  registration; the program's two pieces of bookkeeping, the state of each channel and the map
  of the poller, are shown to agree with it.
\<close>

unbundle bit_operations_syntax

section \<open>Events and channels\<close>

type_synonym event_mask = "32 word"

definition EPOLLIN :: event_mask where "EPOLLIN = 0x001"
definition EPOLLPRI :: event_mask where "EPOLLPRI = 0x002"
definition EPOLLOUT :: event_mask where "EPOLLOUT = 0x004"
definition EPOLLERR :: event_mask where "EPOLLERR = 0x008"
definition EPOLLHUP :: event_mask where "EPOLLHUP = 0x010"

definition kNoneEvent :: event_mask where "kNoneEvent = 0"
definition kReadEvent :: event_mask where "kReadEvent = EPOLLIN OR EPOLLPRI"
definition kWriteEvent :: event_mask where "kWriteEvent = EPOLLOUT"

lemmas event_masks = EPOLLIN_def EPOLLPRI_def EPOLLOUT_def EPOLLERR_def EPOLLHUP_def
  kNoneEvent_def kReadEvent_def kWriteEvent_def

datatype channel_state = KNew | KAdded | KDeleted

datatype event_cb = ReadCb | WriteCb | CloseCb | ErrorCb

record channel =
  ch_addr :: nat
  ch_fd :: fd
  ch_events :: event_mask
  ch_revents :: event_mask
  ch_state :: channel_state
  ch_tied :: bool
  ch_cbs :: "event_cb list"

definition new_channel :: "nat \<Rightarrow> fd \<Rightarrow> channel" where
  "new_channel a f = \<lparr>ch_addr = a, ch_fd = f, ch_events = 0, ch_revents = 0, ch_state = KNew,
     ch_tied = False, ch_cbs = []\<rparr>"

definition isNoneEvent :: "channel \<Rightarrow> bool" where
  "isNoneEvent ch \<longleftrightarrow> ch_events ch = kNoneEvent"

definition isWriting :: "channel \<Rightarrow> bool" where
  "isWriting ch \<longleftrightarrow> ch_events ch AND kWriteEvent \<noteq> 0"

definition isReading :: "channel \<Rightarrow> bool" where
  "isReading ch \<longleftrightarrow> ch_events ch AND kReadEvent \<noteq> 0"

definition set_revents :: "event_mask \<Rightarrow> channel \<Rightarrow> channel" where
  "set_revents r ch = ch\<lparr>ch_revents := r\<rparr>"

section \<open>The poller\<close>

datatype ctl_op = CTL_ADD | CTL_MOD | CTL_DEL

record ctl_call =
  ctl_op_of :: ctl_op
  ctl_fd :: fd
  ctl_events :: event_mask
  ctl_ptr :: nat

record poller =
  channels :: "fd \<rightharpoonup> nat"
  ctl_log :: "ctl_call list"
  ep_size :: nat

definition kInitEventListSize :: nat where "kInitEventListSize = 16"

definition new_poller :: poller where
  "new_poller = \<lparr>channels = Map.empty, ctl_log = [], ep_size = kInitEventListSize\<rparr>"

text \<open>\<^verbatim>\<open>EPollPoller::update\<close>: one \<^verbatim>\<open>epoll_ctl\<close>; a failure is logged and otherwise ignored.\<close>

definition poller_update :: "ctl_op \<Rightarrow> channel \<Rightarrow> poller \<Rightarrow> poller" where
  "poller_update op ch p = p\<lparr>ctl_log := ctl_log p @
     [\<lparr>ctl_op_of = op, ctl_fd = ch_fd ch, ctl_events = ch_events ch, ctl_ptr = ch_addr ch\<rparr>]\<rparr>"

definition updateChannel :: "channel \<times> poller \<Rightarrow> channel \<times> poller" where
  "updateChannel = (\<lambda>(ch, p).
     if ch_state ch = KNew \<or> ch_state ch = KDeleted
     then let p' = (if ch_state ch = KNew
                    then p\<lparr>channels := (channels p)(ch_fd ch \<mapsto> ch_addr ch)\<rparr> else p);
              ch' = ch\<lparr>ch_state := KAdded\<rparr>
          in (ch', poller_update CTL_ADD ch' p')
     else if isNoneEvent ch
     then (ch\<lparr>ch_state := KDeleted\<rparr>, poller_update CTL_DEL ch p)
     else (ch, poller_update CTL_MOD ch p))"

definition removeChannel :: "channel \<times> poller \<Rightarrow> channel \<times> poller" where
  "removeChannel = (\<lambda>(ch, p).
     let p' = p\<lparr>channels := (channels p)(ch_fd ch := None)\<rparr>
     in (ch, if ch_state ch = KAdded then poller_update CTL_DEL ch p' else p'))"

definition hasChannel :: "channel \<Rightarrow> poller \<Rightarrow> bool" where
  "hasChannel ch p \<longleftrightarrow> channels p (ch_fd ch) = Some (ch_addr ch)"

text \<open>
  \<^verbatim>\<open>epoll_wait\<close> returned the events of \<open>WaitEvents\<close>, each with the pointer it was registered
  with. A pointer whose channel is gone from the store is dereferenced: \<open>None\<close>.
\<close>

datatype wait_result = WaitError int | WaitEvents "(nat \<times> event_mask) list"

fun fillActiveChannels :: "(nat \<times> event_mask) list \<Rightarrow> (nat \<rightharpoonup> channel) \<times> nat list
    \<Rightarrow> ((nat \<rightharpoonup> channel) \<times> nat list) option" where
  "fillActiveChannels [] (store, active) = Some (store, active)"
| "fillActiveChannels ((a, r) # evs) (store, active) =
     (case store a of
        None \<Rightarrow> None
      | Some ch \<Rightarrow> fillActiveChannels evs (store(a \<mapsto> set_revents r ch), active @ [a]))"

definition poll :: "wait_result \<Rightarrow> (nat \<rightharpoonup> channel) \<Rightarrow> poller
    \<Rightarrow> ((nat \<rightharpoonup> channel) \<times> nat list \<times> poller) option" where
  "poll res store p =
     (case res of
        WaitError e \<Rightarrow> Some (store, [], p)
      | WaitEvents evs \<Rightarrow>
          (if evs = [] then Some (store, [], p)
           else case fillActiveChannels evs (store, []) of
                  None \<Rightarrow> None
                | Some (store', active) \<Rightarrow>
                    Some (store', active,
                      if length evs = ep_size p then p\<lparr>ep_size := ep_size p * 2\<rparr> else p)))"

section \<open>The operations of a channel that update the poller\<close>

definition enableReading :: "channel \<times> poller \<Rightarrow> channel \<times> poller" where
  "enableReading = (\<lambda>(ch, p). updateChannel (ch\<lparr>ch_events := ch_events ch OR kReadEvent\<rparr>, p))"

definition disableReading :: "channel \<times> poller \<Rightarrow> channel \<times> poller" where
  "disableReading = (\<lambda>(ch, p). updateChannel (ch\<lparr>ch_events := ch_events ch AND NOT kReadEvent\<rparr>, p))"

definition enableWriting :: "channel \<times> poller \<Rightarrow> channel \<times> poller" where
  "enableWriting = (\<lambda>(ch, p). updateChannel (ch\<lparr>ch_events := ch_events ch OR kWriteEvent\<rparr>, p))"

definition disableWriting :: "channel \<times> poller \<Rightarrow> channel \<times> poller" where
  "disableWriting = (\<lambda>(ch, p). updateChannel (ch\<lparr>ch_events := ch_events ch AND NOT kWriteEvent\<rparr>, p))"

definition disableAll :: "channel \<times> poller \<Rightarrow> channel \<times> poller" where
  "disableAll = (\<lambda>(ch, p). updateChannel (ch\<lparr>ch_events := kNoneEvent\<rparr>, p))"

definition tie :: "channel \<Rightarrow> channel" where
  "tie ch = ch\<lparr>ch_tied := True\<rparr>"

lemmas channel_ops = enableReading_def disableReading_def enableWriting_def disableWriting_def
  disableAll_def

text \<open>
  \<^verbatim>\<open>handleEventWithGuard\<close> reads the channel again before each of its four tests: \<open>view\<close>
  reads it from the state the callbacks work on, \<open>run\<close> runs one of them.
\<close>

definition handleEventWithGuard :: "('s \<Rightarrow> channel) \<Rightarrow> (event_cb \<Rightarrow> 's \<Rightarrow> 's) \<Rightarrow> 's \<Rightarrow> 's" where
  "handleEventWithGuard view run s0 =
     (let fire = (\<lambda>cond cb s. if cond (ch_revents (view s)) \<and> cb \<in> set (ch_cbs (view s))
                              then run cb s else s);
          s1 = fire (\<lambda>r. r AND EPOLLHUP \<noteq> 0 \<and> r AND EPOLLIN = 0) CloseCb s0;
          s2 = fire (\<lambda>r. r AND EPOLLERR \<noteq> 0) ErrorCb s1;
          s3 = fire (\<lambda>r. r AND kReadEvent \<noteq> 0) ReadCb s2
      in fire (\<lambda>r. r AND kWriteEvent \<noteq> 0) WriteCb s3)"

text \<open>\<open>alive\<close> is what \<^verbatim>\<open>tie_.lock()\<close> finds.\<close>

definition handleEvent :: "bool \<Rightarrow> ('s \<Rightarrow> channel) \<Rightarrow> (event_cb \<Rightarrow> 's \<Rightarrow> 's) \<Rightarrow> 's \<Rightarrow> 's" where
  "handleEvent alive view run s =
     (if ch_tied (view s) then (if alive then handleEventWithGuard view run s else s)
      else handleEventWithGuard view run s)"

section \<open>The abstract registration\<close>

text \<open>
  The interest list of an epoll instance after a sequence of calls, \<open>None\<close> when one of them
  fails: \<^verbatim>\<open>EEXIST\<close> for an ADD of a registered descriptor, \<^verbatim>\<open>ENOENT\<close> for a MOD or DEL of an
  unregistered one.
\<close>

type_synonym interest = "fd \<rightharpoonup> event_mask \<times> nat"

definition ctl_step :: "ctl_call \<Rightarrow> interest \<Rightarrow> interest option" where
  "ctl_step c I =
     (case (ctl_op_of c, I (ctl_fd c)) of
        (CTL_ADD, None) \<Rightarrow> Some (I(ctl_fd c \<mapsto> (ctl_events c, ctl_ptr c)))
      | (CTL_MOD, Some _) \<Rightarrow> Some (I(ctl_fd c \<mapsto> (ctl_events c, ctl_ptr c)))
      | (CTL_DEL, Some _) \<Rightarrow> Some (I(ctl_fd c := None))
      | _ \<Rightarrow> None)"

fun ctl_run :: "ctl_call list \<Rightarrow> interest \<Rightarrow> interest option" where
  "ctl_run [] I = Some I"
| "ctl_run (c # cs) I = Option.bind (ctl_step c I) (ctl_run cs)"

lemma ctl_run_append: "ctl_run (xs @ ys) I = Option.bind (ctl_run xs I) (ctl_run ys)"
proof (induction xs arbitrary: I)
  case (Cons c xs)
  then show ?case by (cases "ctl_step c I") simp_all
qed simp

text \<open>
  What the owners of channels do: they open a channel on a descriptor nobody has open,
  switch its events, and finally remove it and drop it, after which it is not used again.
\<close>

datatype chan_op = Open nat fd | EnableR nat | DisableR nat | EnableW nat | DisableW nat
  | DisableA nat | RemoveC nat

type_synonym chan_sys = "(nat \<rightharpoonup> channel) \<times> poller"

definition on_channel :: "nat \<Rightarrow> (channel \<times> poller \<Rightarrow> channel \<times> poller) \<Rightarrow> chan_sys \<Rightarrow> chan_sys" where
  "on_channel a f = (\<lambda>(store, p).
     case store a of
       None \<Rightarrow> (store, p)
     | Some ch \<Rightarrow> (let (ch', p') = f (ch, p) in (store(a \<mapsto> ch'), p')))"

fun chan_step :: "chan_op \<Rightarrow> chan_sys \<Rightarrow> chan_sys" where
  "chan_step (Open a f) (store, p) =
     (if store a = None \<and> (\<forall>ch \<in> ran store. ch_fd ch \<noteq> f)
      then (store(a \<mapsto> new_channel a f), p) else (store, p))"
| "chan_step (EnableR a) s = on_channel a enableReading s"
| "chan_step (DisableR a) s = on_channel a disableReading s"
| "chan_step (EnableW a) s = on_channel a enableWriting s"
| "chan_step (DisableW a) s = on_channel a disableWriting s"
| "chan_step (DisableA a) s = on_channel a disableAll s"
| "chan_step (RemoveC a) s = (let (store, p) = on_channel a removeChannel s in (store(a := None), p))"

definition chan_run :: "chan_op list \<Rightarrow> chan_sys" where
  "chan_run ops = fold chan_step ops (Map.empty, new_poller)"

definition registered :: "(nat \<rightharpoonup> channel) \<Rightarrow> interest \<Rightarrow> bool" where
  "registered store I \<longleftrightarrow> (\<forall>f e a. I f = Some (e, a)
     \<longleftrightarrow> (\<exists>ch. store a = Some ch \<and> ch_state ch = KAdded \<and> ch_fd ch = f \<and> ch_events ch = e))"

definition mapped :: "(nat \<rightharpoonup> channel) \<Rightarrow> (fd \<rightharpoonup> nat) \<Rightarrow> bool" where
  "mapped store m \<longleftrightarrow> (\<forall>f a. m f = Some a
     \<longleftrightarrow> (\<exists>ch. store a = Some ch \<and> ch_state ch \<noteq> KNew \<and> ch_fd ch = f))"

definition store_ok :: "(nat \<rightharpoonup> channel) \<Rightarrow> bool" where
  "store_ok store \<longleftrightarrow> (\<forall>a ch. store a = Some ch \<longrightarrow> ch_addr ch = a)
     \<and> (\<forall>a b ch ch'. store a = Some ch \<longrightarrow> store b = Some ch' \<longrightarrow> ch_fd ch = ch_fd ch' \<longrightarrow> a = b)"

definition sys_ok :: "chan_sys \<Rightarrow> bool" where
  "sys_ok = (\<lambda>(store, p). store_ok store \<and> mapped store (channels p)
     \<and> (\<exists>I. ctl_run (ctl_log p) Map.empty = Some I \<and> registered store I))"

section \<open>The bookkeeping agrees with the kernel\<close>

lemma store_addr: "store_ok store \<Longrightarrow> store a = Some ch \<Longrightarrow> ch_addr ch = a"
  by (simp add: store_ok_def)

lemma store_inj:
  "store_ok store \<Longrightarrow> store a = Some ch \<Longrightarrow> store b = Some ch' \<Longrightarrow> ch_fd ch = ch_fd ch' \<Longrightarrow> a = b"
  unfolding store_ok_def by blast

lemma store_other:
  "store_ok store \<Longrightarrow> store a = Some ch \<Longrightarrow> store b = Some ch' \<Longrightarrow> b \<noteq> a \<Longrightarrow> ch_fd ch' \<noteq> ch_fd ch"
  by (metis store_inj)

lemma registered_iff:
  assumes "store_ok store" and reg: "registered store I" and ch: "store a = Some ch"
  shows "I (ch_fd ch) = (if ch_state ch = KAdded then Some (ch_events ch, a) else None)"
proof (cases "ch_state ch = KAdded")
  case True
  then have "I (ch_fd ch) = Some (ch_events ch, a)"
    using reg ch unfolding registered_def by blast
  with True show ?thesis by simp
next
  case False
  have "I (ch_fd ch) \<noteq> Some (e, b)" for e b
  proof
    assume "I (ch_fd ch) = Some (e, b)"
    then obtain ch' where "store b = Some ch'" "ch_state ch' = KAdded" "ch_fd ch' = ch_fd ch"
      using reg unfolding registered_def by blast
    then show False using store_inj [OF assms(1) ch, of b ch'] ch False by auto
  qed
  then have "I (ch_fd ch) = None" by (cases "I (ch_fd ch)") auto
  with False show ?thesis by simp
qed

text \<open>One channel of the store replaced, or dropped.\<close>

lemma store_ok_upd:
  "store_ok store \<Longrightarrow> store a = Some ch \<Longrightarrow> ch_addr ch' = ch_addr ch \<Longrightarrow> ch_fd ch' = ch_fd ch
    \<Longrightarrow> store_ok (store(a \<mapsto> ch'))"
  unfolding store_ok_def by (simp add: fun_upd_apply split: if_splits) metis

lemma store_ok_drop: "store_ok store \<Longrightarrow> store_ok (store(a := None))"
  unfolding store_ok_def by auto

lemma registered_upd:
  assumes "store_ok store" and "registered store I" and "store a = Some ch"
    and "ch_fd ch' = ch_fd ch"
  shows "registered (store(a \<mapsto> ch'))
    (I(ch_fd ch := if ch_state ch' = KAdded then Some (ch_events ch', a) else None))"
  unfolding registered_def
proof (intro allI)
  fix f e b
  show "((I(ch_fd ch := if ch_state ch' = KAdded then Some (ch_events ch', a) else None)) f = Some (e, b))
    = (\<exists>x. (store(a \<mapsto> ch')) b = Some x \<and> ch_state x = KAdded \<and> ch_fd x = f \<and> ch_events x = e)"
  proof (cases "b = a")
    case True
    have "I f \<noteq> Some (e, a)" if "f \<noteq> ch_fd ch"
      using that assms(2,3) unfolding registered_def by auto
    then show ?thesis using True assms(4) by auto
  next
    case False
    then show ?thesis
      using assms(2) store_other [OF assms(1,3)] unfolding registered_def by auto
  qed
qed

lemma registered_drop:
  assumes "store_ok store" and "registered store I" and "store a = Some ch"
  shows "registered (store(a := None)) (I(ch_fd ch := None))"
  unfolding registered_def
proof (intro allI)
  fix f e b
  have "I f \<noteq> Some (e, a)" if "f \<noteq> ch_fd ch"
    using that assms(2,3) unfolding registered_def by auto
  then show "((I(ch_fd ch := None)) f = Some (e, b))
    = (\<exists>x. (store(a := None)) b = Some x \<and> ch_state x = KAdded \<and> ch_fd x = f \<and> ch_events x = e)"
    using assms(2) store_other [OF assms(1,3)] unfolding registered_def by auto
qed

lemma mapped_upd:
  assumes "store_ok store" and "mapped store m" and "store a = Some ch"
    and "ch_fd ch' = ch_fd ch" and "ch_state ch' \<noteq> KNew"
  shows "mapped (store(a \<mapsto> ch')) (m(ch_fd ch \<mapsto> a))"
  unfolding mapped_def
proof (intro allI)
  fix f b
  have "m f \<noteq> Some a" if "f \<noteq> ch_fd ch"
    using that assms(2,3) unfolding mapped_def by auto
  then show "((m(ch_fd ch \<mapsto> a)) f = Some b)
    = (\<exists>x. (store(a \<mapsto> ch')) b = Some x \<and> ch_state x \<noteq> KNew \<and> ch_fd x = f)"
    using assms(2,4,5) store_other [OF assms(1,3)] unfolding mapped_def by auto
qed

lemma mapped_drop:
  assumes "store_ok store" and "mapped store m" and "store a = Some ch"
  shows "mapped (store(a := None)) (m(ch_fd ch := None))"
  unfolding mapped_def
proof (intro allI)
  fix f b
  have "m f \<noteq> Some a" if "f \<noteq> ch_fd ch"
    using that assms(2,3) unfolding mapped_def by auto
  then show "((m(ch_fd ch := None)) f = Some b)
    = (\<exists>x. (store(a := None)) b = Some x \<and> ch_state x \<noteq> KNew \<and> ch_fd x = f)"
    using assms(2) store_other [OF assms(1,3)] unfolding mapped_def by auto
qed

text \<open>
  What \<^verbatim>\<open>updateChannel\<close> does, in one sentence: it leaves the channel in the map and issues
  one call, which makes the kernel's entry that of the channel's new state.
\<close>

lemma updateChannel_effect:
  assumes "updateChannel (ch, p) = (ch', p')"
    and "ch_state ch \<noteq> KNew \<Longrightarrow> channels p (ch_fd ch) = Some (ch_addr ch)"
  obtains c where "ch' = ch\<lparr>ch_state := if ch_state ch = KAdded \<and> isNoneEvent ch then KDeleted else KAdded\<rparr>"
    and "channels p' = (channels p)(ch_fd ch \<mapsto> ch_addr ch)" and "ctl_log p' = ctl_log p @ [c]"
    and "\<And>I. (I (ch_fd ch) = None) = (ch_state ch \<noteq> KAdded) \<Longrightarrow>
      ctl_step c I = Some (I(ch_fd ch := if ch_state ch' = KAdded
                                        then Some (ch_events ch', ch_addr ch) else None))"
  using assms
  by (cases "ch_state ch")
     (auto simp: updateChannel_def poller_update_def ctl_step_def fun_upd_idem
        split: if_splits option.splits)

lemma sys_ok_updateChannel:
  assumes ok: "sys_ok (store, p)" and ch: "store a = Some ch"
    and up: "updateChannel (ch\<lparr>ch_events := e\<rparr>, p) = (ch', p')"
  shows "sys_ok (store(a \<mapsto> ch'), p')"
proof -
  have st: "store_ok store" and m: "mapped store (channels p)" using ok by (simp_all add: sys_ok_def)
  obtain I where I: "ctl_run (ctl_log p) Map.empty = Some I" "registered store I"
    using ok by (auto simp: sys_ok_def)
  note addr = store_addr [OF st ch]
  have "ch_state ch \<noteq> KNew \<Longrightarrow> channels p (ch_fd ch) = Some a"
    using m ch unfolding mapped_def by blast
  moreover have "(I (ch_fd ch) = None) = (ch_state ch \<noteq> KAdded)"
    using registered_iff [OF st I(2) ch] by simp
  ultimately obtain c where c: "ch' = ch\<lparr>ch_events := e,
        ch_state := if ch_state ch = KAdded \<and> e = kNoneEvent then KDeleted else KAdded\<rparr>"
      "channels p' = (channels p)(ch_fd ch \<mapsto> a)" "ctl_log p' = ctl_log p @ [c]"
      "ctl_step c I = Some (I(ch_fd ch := if ch_state ch' = KAdded then Some (ch_events ch', a) else None))"
    using updateChannel_effect [OF up, of thesis] addr by (simp add: isNoneEvent_def)
  then have new: "ch_fd ch' = ch_fd ch" "ch_state ch' \<noteq> KNew" "ch_addr ch' = ch_addr ch" by auto
  show ?thesis
    using store_ok_upd [OF st ch new(3,1)] mapped_upd [OF st m ch new(1,2)]
      registered_upd [OF st I(2) ch new(1)] I(1) c(2,3,4)
    by (simp add: sys_ok_def ctl_run_append)
qed

lemma sys_ok_on_channel:
  assumes "sys_ok s" and "\<And>ch p. \<exists>e. f (ch, p) = updateChannel (ch\<lparr>ch_events := e\<rparr>, p)"
  shows "sys_ok (on_channel a f s)"
proof (cases s)
  case (Pair store p)
  show ?thesis
  proof (cases "store a")
    case (Some ch)
    obtain e where e: "f (ch, p) = updateChannel (ch\<lparr>ch_events := e\<rparr>, p)"
      using assms(2) by blast
    obtain ch' p' where u: "updateChannel (ch\<lparr>ch_events := e\<rparr>, p) = (ch', p')"
      by (cases "updateChannel (ch\<lparr>ch_events := e\<rparr>, p)")
    show ?thesis
      using assms(1) sys_ok_updateChannel [of store p a ch e, OF _ Some u] Pair Some by (simp add: on_channel_def e u)
  qed (use assms(1) Pair in \<open>simp add: on_channel_def\<close>)
qed

lemma sys_ok_remove:
  assumes ok: "sys_ok (store, p)" and ch: "store a = Some ch"
  shows "sys_ok (store(a := None), snd (removeChannel (ch, p)))"
proof -
  have st: "store_ok store" and m: "mapped store (channels p)" using ok by (simp_all add: sys_ok_def)
  obtain I where I: "ctl_run (ctl_log p) Map.empty = Some I" "registered store I"
    using ok by (auto simp: sys_ok_def)
  have "ctl_run (ctl_log (snd (removeChannel (ch, p)))) Map.empty = Some (I(ch_fd ch := None))"
    using I(1) registered_iff [OF st I(2) ch]
    by (simp add: removeChannel_def poller_update_def ctl_run_append ctl_step_def fun_upd_idem Let_def)
  moreover have "channels (snd (removeChannel (ch, p))) = (channels p)(ch_fd ch := None)"
    by (simp add: removeChannel_def poller_update_def Let_def)
  ultimately show ?thesis
    using store_ok_drop [OF st] mapped_drop [OF st m ch] registered_drop [OF st I(2) ch]
    by (simp add: sys_ok_def)
qed

lemma sys_ok_open:
  assumes ok: "sys_ok (store, p)" and free: "store a = None" "\<forall>ch \<in> ran store. ch_fd ch \<noteq> f"
  shows "sys_ok (store(a \<mapsto> new_channel a f), p)"
proof -
  have no: "store b = Some ch \<Longrightarrow> ch_fd ch \<noteq> f" for b ch
    using free(2) by (auto simp: ran_def)
  have "store_ok (store(a \<mapsto> new_channel a f))"
    using ok free(1) no unfolding sys_ok_def store_ok_def by (auto simp: new_channel_def)
  moreover have "mapped store m \<Longrightarrow> mapped (store(a \<mapsto> new_channel a f)) m" for m
    using free(1) by (auto simp: mapped_def new_channel_def)
  moreover have "registered store I \<Longrightarrow> registered (store(a \<mapsto> new_channel a f)) I" for I
    using free(1) by (auto simp: registered_def new_channel_def)
  ultimately show ?thesis using ok by (auto simp: sys_ok_def)
qed

lemma sys_ok_step: "sys_ok s \<Longrightarrow> sys_ok (chan_step op s)"
proof (cases s)
  case (Pair store p)
  assume ok: "sys_ok s"
  have ev: "\<And>ch p. \<exists>e. enableReading (ch, p) = updateChannel (ch\<lparr>ch_events := e\<rparr>, p)"
    "\<And>ch p. \<exists>e. disableReading (ch, p) = updateChannel (ch\<lparr>ch_events := e\<rparr>, p)"
    "\<And>ch p. \<exists>e. enableWriting (ch, p) = updateChannel (ch\<lparr>ch_events := e\<rparr>, p)"
    "\<And>ch p. \<exists>e. disableWriting (ch, p) = updateChannel (ch\<lparr>ch_events := e\<rparr>, p)"
    "\<And>ch p. \<exists>e. disableAll (ch, p) = updateChannel (ch\<lparr>ch_events := e\<rparr>, p)"
    by (auto simp: channel_ops)
  show ?thesis
  proof (cases op)
    case (Open a f)
    then show ?thesis using ok Pair sys_ok_open by auto
  next
    case (RemoveC a)
    have "snd (on_channel a removeChannel s) = (case store a of None \<Rightarrow> p | Some ch \<Rightarrow> snd (removeChannel (ch, p)))"
      "(fst (on_channel a removeChannel s))(a := None) = store(a := None)"
      by (auto simp: on_channel_def Pair split: option.splits prod.splits)
    moreover have "store a = None \<Longrightarrow> store(a := None) = store" by auto
    ultimately show ?thesis
      using RemoveC ok Pair sys_ok_remove [of store p a]
      by (cases "store a") (simp_all add: Let_def split_beta)
  qed (simp_all add: sys_ok_on_channel [OF ok] ev)
qed

lemma sys_ok_run: "sys_ok (chan_run ops)"
proof -
  have "sys_ok (Map.empty, new_poller)"
    by (simp add: sys_ok_def new_poller_def registered_def mapped_def store_ok_def)
  moreover have "sys_ok s \<Longrightarrow> sys_ok (fold chan_step ops s)" for s
    by (induction ops arbitrary: s) (simp_all add: sys_ok_step)
  ultimately show ?thesis by (simp add: chan_run_def)
qed

section \<open>What the poller hands back\<close>

lemma fillActiveChannels_live:
  assumes "fst ` set evs \<subseteq> dom store"
  shows "\<exists>store'. fillActiveChannels evs (store, active) = Some (store', active @ map fst evs)
    \<and> dom store' = dom store"
  using assms
proof (induction evs arbitrary: store active)
  case (Cons ev evs)
  obtain a r where ev: "ev = (a, r)" by (cases ev)
  then obtain ch where ch: "store a = Some ch" using Cons.prems by auto
  have "fst ` set evs \<subseteq> dom (store(a \<mapsto> set_revents r ch))" using Cons.prems by auto
  from Cons.IH [OF this, of "active @ [a]"] obtain store' where
    s': "fillActiveChannels evs (store(a \<mapsto> set_revents r ch), active @ [a])
      = Some (store', (active @ [a]) @ map fst evs)" "dom store' = dom (store(a \<mapsto> set_revents r ch))"
    by blast
  moreover have "dom (store(a \<mapsto> set_revents r ch)) = dom store" using ch by auto
  ultimately show ?case using ch by (simp add: ev)
qed simp

section \<open>Properties of the poller and its channels\<close>

text \<open>C3. However channels are opened, switched and removed, no \<^verbatim>\<open>epoll_ctl\<close> call of the code
  fails, and the kernel's interest list is at every moment exactly the live channels in state
  \<^verbatim>\<open>kAdded\<close>, each with its descriptor, its events and its own address.\<close>

theorem poller_agrees_with_kernel:
  "\<exists>I. ctl_run (ctl_log (snd (chan_run ops))) Map.empty = Some I \<and> registered (fst (chan_run ops)) I"
  using sys_ok_run [of ops] by (simp add: sys_ok_def split_beta)

text \<open>The map of the poller holds exactly the live channels that were updated at least
  once: \<^verbatim>\<open>hasChannel\<close> answers by it.\<close>

theorem hasChannel_exact:
  assumes "fst (chan_run ops) a = Some ch"
  shows "hasChannel ch (snd (chan_run ops)) = (ch_state ch \<noteq> KNew)"
proof -
  have st: "store_ok (fst (chan_run ops))"
    and m: "mapped (fst (chan_run ops)) (channels (snd (chan_run ops)))"
    using sys_ok_run [of ops] by (simp_all add: sys_ok_def split_beta)
  have "ch_addr ch = a" by (rule store_addr [OF st assms])
  then have "hasChannel ch (snd (chan_run ops)) = (\<exists>x. fst (chan_run ops) a = Some x
      \<and> ch_state x \<noteq> KNew \<and> ch_fd x = ch_fd ch)"
    using m by (simp add: hasChannel_def mapped_def)
  then show ?thesis using assms by simp
qed

theorem hasChannel_exact_witness:
  "hasChannel (the (fst (chan_run [Open 1 7, EnableR 1, DisableA 1]) 1))
     (snd (chan_run [Open 1 7, EnableR 1, DisableA 1]))"
  using hasChannel_exact [of "[Open 1 7, EnableR 1, DisableA 1]" 1
      "the (fst (chan_run [Open 1 7, EnableR 1, DisableA 1]) 1)"]
  by (simp add: chan_run_def on_channel_def new_channel_def channel_ops updateChannel_def
      isNoneEvent_def event_masks Let_def)

text \<open>\<^verbatim>\<open>poll\<close> never follows a dangling pointer: when the kernel reports only registered
  entries every pointer it hands back is a live channel; they come back as the active list, in
  order, and the event array doubles exactly when it was filled.\<close>

theorem poll_follows_live_pointers:
  assumes "ctl_run (ctl_log (snd (chan_run ops))) Map.empty = Some I"
    and "fst ` set evs \<subseteq> snd ` ran I"
  shows "\<exists>store'. dom store' = dom (fst (chan_run ops))
    \<and> poll (WaitEvents evs) (fst (chan_run ops)) (snd (chan_run ops))
      = Some (store', map fst evs,
          (snd (chan_run ops))\<lparr>ep_size := (if evs \<noteq> [] \<and> length evs = ep_size (snd (chan_run ops))
                                          then 2 else 1) * ep_size (snd (chan_run ops))\<rparr>)"
proof -
  have "registered (fst (chan_run ops)) I"
    using sys_ok_run [of ops] assms(1) by (auto simp: sys_ok_def split_beta)
  then have "snd ` ran I \<subseteq> dom (fst (chan_run ops))"
    by (auto simp: ran_def registered_def)
  with assms(2) have "fst ` set evs \<subseteq> dom (fst (chan_run ops))" by blast
  from fillActiveChannels_live [OF this, of "[]"] show ?thesis
    by (auto simp: poll_def mult.commute)
qed

theorem poll_follows_live_pointers_witness:
  "\<exists>store' p'. poll (WaitEvents [(1, EPOLLIN)]) (fst (chan_run [Open 1 7, EnableR 1]))
     (snd (chan_run [Open 1 7, EnableR 1])) = Some (store', [1], p')"
proof -
  have "ctl_run (ctl_log (snd (chan_run [Open 1 7, EnableR 1]))) Map.empty = Some [7 \<mapsto> (kReadEvent, 1)]"
    by (simp add: chan_run_def on_channel_def new_channel_def channel_ops updateChannel_def
        new_poller_def poller_update_def ctl_step_def Let_def)
  from poll_follows_live_pointers [OF this, of "[(1, EPOLLIN)]"] show ?thesis by auto
qed

text \<open>Disabling everything twice registers the channel again: the second call adds the
  descriptor with an empty mask, for which the kernel still reports errors and hang-ups.\<close>

theorem disableAll_twice_registers_again:
  assumes "ch_state ch = KAdded"
  shows "\<exists>log c. ctl_log (snd (disableAll (disableAll (ch, p)))) = log @ [c]
    \<and> ctl_op_of c = CTL_ADD \<and> ctl_fd c = ch_fd ch \<and> ctl_events c = kNoneEvent
    \<and> ch_state (fst (disableAll (disableAll (ch, p)))) = KAdded
    \<and> ch_state (fst (disableAll (ch, p))) = KDeleted"
  using assms by (simp add: disableAll_def updateChannel_def poller_update_def isNoneEvent_def)

theorem disableAll_twice_registers_again_witness:
  "ch_state (fst (disableAll (disableAll (enableReading (new_channel 1 7, new_poller))))) = KAdded"
proof -
  let ?e = "enableReading (new_channel 1 7, new_poller)"
  have "ch_state (fst ?e) = KAdded"
    by (simp add: enableReading_def updateChannel_def new_channel_def Let_def)
  from disableAll_twice_registers_again [OF this, of "snd ?e"] show ?thesis by auto
qed

end
