(* ===== verification/EventLoop.thy ===== *)
theory EventLoop
  imports Poller TimingWheel
begin

text \<open>
  \<^verbatim>\<open>EventLoop\<close> (\<^verbatim>\<open>gdrpc/net/eventLoop.hpp\<close>, \<^verbatim>\<open>eventLoop.cpp\<close>): the queue of functors, the
  wake-up descriptor, the timing wheel and one round of the loop.

  A functor is a value of type \<open>'f\<close> and \<open>cb\<close> says what running it does to the outer state and
  to the loop, which it may use again (queue, schedule, quit). The counter of the
  \<^verbatim>\<open>eventfd\<close> is the field \<open>wake_count\<close>: a write adds one, a read sets it to 0, and the
  descriptor is readable while it is positive. The second half puts the operations of the other
  threads between the steps of the loop thread.
\<close>

section \<open>The loop and its queue\<close>

record 'f eloop =
  looping :: bool
  quit_flag :: bool
  calling :: bool
  pending :: "'f list"
  wake_count :: nat
  return_time :: int
  time_wheel :: "'f wheel"
  loop_poller :: poller
  wakeup_channel :: channel

type_synonym ('s, 'f) loop_state = "'s \<times> 'f eloop"
type_synonym ('s, 'f) functor_run = "'f \<Rightarrow> ('s, 'f) loop_state \<Rightarrow> ('s, 'f) loop_state"

definition TIMINGWHEEL_LEN :: int where "TIMINGWHEEL_LEN = 60 * 1000"

definition new_loop :: "nat \<Rightarrow> fd \<Rightarrow> int \<Rightarrow> 'f eloop" where
  "new_loop wakeup_addr wakeup_fd now =
     (let (ch, p) = enableReading ((new_channel wakeup_addr wakeup_fd)\<lparr>ch_cbs := [ReadCb]\<rparr>, new_poller)
      in \<lparr>looping = False, quit_flag = False, calling = False, pending = [], wake_count = 0,
          return_time = 0, time_wheel = new_wheel TIMINGWHEEL_LEN now, loop_poller = p,
          wakeup_channel = ch\<rparr>)"

definition wakeup :: "'f eloop \<Rightarrow> 'f eloop" where
  "wakeup l = l\<lparr>wake_count := wake_count l + 1\<rparr>"

definition handleRead_wakeup :: "'f eloop \<Rightarrow> 'f eloop" where
  "handleRead_wakeup l = l\<lparr>wake_count := 0\<rparr>"

text \<open>The part of \<^verbatim>\<open>queueInLoop\<close> under the mutex, and the test after it.\<close>

definition enqueue :: "'f \<Rightarrow> 'f eloop \<Rightarrow> 'f eloop" where
  "enqueue f l = l\<lparr>pending := pending l @ [f]\<rparr>"

definition needs_wakeup :: "bool \<Rightarrow> 'f eloop \<Rightarrow> bool" where
  "needs_wakeup in_loop_thread l \<longleftrightarrow> \<not> in_loop_thread \<or> calling l"

definition queueInLoop :: "bool \<Rightarrow> 'f \<Rightarrow> 'f eloop \<Rightarrow> 'f eloop" where
  "queueInLoop in_loop_thread f l =
     (let l' = enqueue f l in if needs_wakeup in_loop_thread l' then wakeup l' else l')"

definition runInLoop :: "('s, 'f) functor_run \<Rightarrow> bool \<Rightarrow> 'f \<Rightarrow> ('s, 'f) loop_state \<Rightarrow> ('s, 'f) loop_state" where
  "runInLoop cb in_loop_thread f = (\<lambda>(s, l).
     if in_loop_thread then cb f (s, l) else (s, queueInLoop in_loop_thread f l))"

definition quit_loop :: "bool \<Rightarrow> 'f eloop \<Rightarrow> 'f eloop" where
  "quit_loop in_loop_thread l =
     (let l' = l\<lparr>quit_flag := True\<rparr> in if in_loop_thread then l' else wakeup l')"

text \<open>A functor run by the wheel works on the loop with the wheel put back into it.\<close>

definition wheel_run :: "('s, 'f) functor_run \<Rightarrow> (('s, 'f) loop_state, 'f) closure_run" where
  "wheel_run cb f = (\<lambda>((s, l), w).
     let (s', l') = cb f (s, l\<lparr>time_wheel := w\<rparr>) in ((s', l'), time_wheel l'))"

definition runAfter :: "('s, 'f) functor_run \<Rightarrow> int \<Rightarrow> 'f \<Rightarrow> int \<Rightarrow> ('s, 'f) loop_state
    \<Rightarrow> nat option \<times> ('s, 'f) loop_state" where
  "runAfter cb afterMs f junk = (\<lambda>(s, l).
     let (h, (s', l'), w) = addTask (wheel_run cb) afterMs f junk ((s, l), time_wheel l)
     in (h, s', l'\<lparr>time_wheel := w\<rparr>))"

definition doScheduledFunctors :: "('s, 'f) functor_run \<Rightarrow> int \<Rightarrow> ('s, 'f) loop_state
    \<Rightarrow> (wheel_ub + ('s, 'f) loop_state) option" where
  "doScheduledFunctors cb ts = (\<lambda>(s, l).
     case takeAllTimeout (wheel_run cb) ts ((s, l), time_wheel l) of
       None \<Rightarrow> None
     | Some (Inl e) \<Rightarrow> Some (Inl e)
     | Some (Inr ((s', l'), w)) \<Rightarrow> Some (Inr (s', l'\<lparr>time_wheel := w\<rparr>)))"

text \<open>\<^verbatim>\<open>doPendingFunctors\<close> swaps the queue out and runs what it held.\<close>

definition doPendingFunctors :: "('s, 'f) functor_run \<Rightarrow> ('s, 'f) loop_state \<Rightarrow> ('s, 'f) loop_state" where
  "doPendingFunctors cb = (\<lambda>(s, l).
     let functors = pending l;
         (s', l') = fold cb functors (s, l\<lparr>calling := True, pending := []\<rparr>)
     in (s', l'\<lparr>calling := False\<rparr>))"

text \<open>
  The body of the \<^verbatim>\<open>while\<close>: \<open>active\<close> is what \<^verbatim>\<open>poll\<close> put into the list and \<open>ts\<close> the time it
  returned, \<open>handle\<close> is \<^verbatim>\<open>Channel::handleEvent\<close>. The loop runs one round per poll result
  until it sees the flag.
\<close>

definition loop_round :: "('s, 'f) functor_run \<Rightarrow> ('c \<Rightarrow> ('s, 'f) loop_state \<Rightarrow> ('s, 'f) loop_state)
    \<Rightarrow> int \<Rightarrow> 'c list \<Rightarrow> ('s, 'f) loop_state \<Rightarrow> (wheel_ub + ('s, 'f) loop_state) option" where
  "loop_round cb handle ts active = (\<lambda>(s, l).
     case doScheduledFunctors cb ts (s, l\<lparr>return_time := ts\<rparr>) of
       None \<Rightarrow> None
     | Some (Inl e) \<Rightarrow> Some (Inl e)
     | Some (Inr sl) \<Rightarrow> Some (Inr (doPendingFunctors cb (fold handle active sl))))"

fun loop_rounds :: "('s, 'f) functor_run \<Rightarrow> ('c \<Rightarrow> ('s, 'f) loop_state \<Rightarrow> ('s, 'f) loop_state)
    \<Rightarrow> (int \<times> 'c list) list \<Rightarrow> ('s, 'f) loop_state \<Rightarrow> (wheel_ub + ('s, 'f) loop_state) option" where
  "loop_rounds cb handle [] sl = Some (Inr sl)"
| "loop_rounds cb handle ((ts, active) # polls) sl =
     (if quit_flag (snd sl) then Some (Inr (fst sl, (snd sl)\<lparr>looping := False\<rparr>))
      else case loop_round cb handle ts active sl of
             Some (Inr sl') \<Rightarrow> loop_rounds cb handle polls sl'
           | r \<Rightarrow> r)"

definition loop_start :: "'f eloop \<Rightarrow> 'f eloop" where
  "loop_start l = l\<lparr>looping := True, quit_flag := False\<rparr>"

definition loop_run :: "('s, 'f) functor_run \<Rightarrow> ('c \<Rightarrow> ('s, 'f) loop_state \<Rightarrow> ('s, 'f) loop_state)
    \<Rightarrow> (int \<times> 'c list) list \<Rightarrow> ('s, 'f) loop_state \<Rightarrow> (wheel_ub + ('s, 'f) loop_state) option" where
  "loop_run cb handle polls sl = loop_rounds cb handle polls (fst sl, loop_start (snd sl))"

section \<open>Well-behaved functors\<close>

text \<open>
  The contract of the functors handed to a loop: while \<open>inv\<close> holds of the outer state they keep
  it, they only add and cancel tasks of the wheel, and they only append to the queue. A
  functor under this contract is a closure under the contract of the timing wheel.
\<close>

locale loop_client =
  fixes cb :: "('s, 'f) functor_run"
    and inv :: "'s \<Rightarrow> bool"
  assumes wheel_law: "inv s \<Longrightarrow> wheel_live (time_wheel l)
      \<Longrightarrow> extends (time_wheel l) (time_wheel (snd (cb f (s, l))))"
    and inv_law: "inv s \<Longrightarrow> wheel_live (time_wheel l) \<Longrightarrow> inv (fst (cb f (s, l)))"
    and queue_law: "inv s \<Longrightarrow> wheel_live (time_wheel l)
      \<Longrightarrow> \<exists>new. pending (snd (cb f (s, l))) = pending l @ new"

sublocale loop_client \<subseteq> on_wheel: wheel_client "wheel_run cb" "\<lambda>sl. inv (fst sl)"
proof
  fix sl :: "'s \<times> 'f eloop" and w :: "'f wheel" and f
  assume "inv (fst sl)" and "wheel_live w"
  then show "extends w (snd (wheel_run cb f (sl, w)))" and "inv (fst (fst (wheel_run cb f (sl, w))))"
    using wheel_law [of "fst sl" "(snd sl)\<lparr>time_wheel := w\<rparr>" f]
      inv_law [of "fst sl" "(snd sl)\<lparr>time_wheel := w\<rparr>" f]
    by (cases sl; simp add: wheel_run_def split_beta)+
qed

context loop_client begin

definition healthy :: "('s, 'f) loop_state \<Rightarrow> bool" where
  "healthy sl \<longleftrightarrow> inv (fst sl) \<and> wheel_live (time_wheel (snd sl))"

lemma cb_healthy: "healthy sl \<Longrightarrow> healthy (cb f sl)"
  using inv_law [of "fst sl" "snd sl" f] extends_live [OF wheel_law [of "fst sl" "snd sl" f]]
  by (simp add: healthy_def)

lemma fold_healthy: "healthy sl \<Longrightarrow> healthy (fold cb fs sl)"
  by (induction fs arbitrary: sl) (simp_all add: cb_healthy)

lemma fold_queues: "healthy sl \<Longrightarrow> \<exists>new. pending (snd (fold cb fs sl)) = pending (snd sl) @ new"
proof (induction fs arbitrary: sl)
  case (Cons f fs)
  obtain n1 where n1: "pending (snd (cb f sl)) = pending (snd sl) @ n1"
    using queue_law [of "fst sl" "snd sl" f] Cons.prems by (auto simp: healthy_def)
  obtain n2 where "pending (snd (fold cb fs (cb f sl))) = pending (snd (cb f sl)) @ n2"
    using Cons.IH [OF cb_healthy [OF Cons.prems]] by blast
  with n1 show ?case by simp
qed simp

lemma pending_healthy: "healthy sl \<Longrightarrow> healthy (doPendingFunctors cb sl)"
  using fold_healthy [of "(fst sl, (snd sl)\<lparr>calling := True, pending := []\<rparr>)" "pending (snd sl)"]
  by (simp add: doPendingFunctors_def healthy_def split_beta Let_def)

lemma scheduled_returns:
  assumes "healthy sl"
  shows "\<exists>sl'. doScheduledFunctors cb ts sl = Some (Inr sl') \<and> healthy sl'
    \<and> starttime (time_wheel (snd sl')) = ts"
proof -
  obtain s l where sl: "sl = (s, l)" by (cases sl)
  have live: "wheel_live (time_wheel l)" and ok: "inv (fst (s, l))"
    using assms by (simp_all add: healthy_def sl)
  obtain s' w where "takeAllTimeout (wheel_run cb) ts ((s, l), time_wheel l) = Some (Inr (s', w))"
      "wheel_live w" "inv (fst s')" "starttime w = ts"
    using on_wheel.takeAll_returns [OF live ok, of ts] by blast
  then show ?thesis
    by (cases s') (simp add: sl doScheduledFunctors_def healthy_def)
qed

text \<open>A round of the loop, and any number of them, returns.\<close>

lemma round_returns:
  assumes "healthy sl"
  shows "\<exists>sl'. loop_round cb cb ts active sl = Some (Inr sl') \<and> healthy sl'"
proof -
  obtain s l where sl: "sl = (s, l)" by (cases sl)
  have "healthy (s, l\<lparr>return_time := ts\<rparr>)" using assms by (simp add: healthy_def sl)
  from scheduled_returns [OF this, of ts] show ?thesis
    using fold_healthy pending_healthy by (fastforce simp: sl loop_round_def)
qed

lemma rounds_return:
  "healthy sl \<Longrightarrow> \<exists>sl'. loop_rounds cb cb polls sl = Some (Inr sl') \<and> healthy sl'"
proof (induction polls arbitrary: sl)
  case (Cons poll polls)
  obtain ts active where poll: "poll = (ts, active)" by (cases poll)
  obtain sl' where "loop_round cb cb ts active sl = Some (Inr sl')" "healthy sl'"
    using round_returns [OF Cons.prems] by blast
  with Cons.IH [of sl'] Cons.prems show ?case by (auto simp: poll healthy_def)
qed simp

end

section \<open>Functors that queue functors\<close>

text \<open>
  A functor that records that it ran and then queues others, in the loop thread: \<open>spawn f\<close> are
  the functors \<open>f\<close> queues.
\<close>

definition spawning :: "('f \<Rightarrow> 'f list) \<Rightarrow> ('f list, 'f) functor_run" where
  "spawning spawn f = (\<lambda>(log, l). (log @ [f], fold (queueInLoop True) (spawn f) l))"

lemma fold_queue_calling:
  "calling l \<Longrightarrow> fold (queueInLoop True) fs l
    = l\<lparr>pending := pending l @ fs, wake_count := wake_count l + length fs\<rparr>"
proof (induction fs arbitrary: l)
  case (Cons f fs)
  have "calling (queueInLoop True f l)"
    using Cons.prems by (simp add: queueInLoop_def enqueue_def needs_wakeup_def wakeup_def Let_def)
  from Cons.IH [OF this] show ?case
    using Cons.prems by (simp add: queueInLoop_def enqueue_def needs_wakeup_def wakeup_def Let_def)
qed simp

lemma fold_spawning:
  "calling l \<Longrightarrow> fold (spawning spawn) fs (log, l)
    = (log @ fs, l\<lparr>pending := pending l @ concat (map spawn fs),
                   wake_count := wake_count l + length (concat (map spawn fs))\<rparr>)"
  by (induction fs arbitrary: log l) (simp_all add: spawning_def fold_queue_calling add.assoc)

lemma fold_queue_wheel [simp]:
  "time_wheel (fold (queueInLoop True) fs l) = time_wheel l"
  by (induction fs arbitrary: l)
     (simp_all add: queueInLoop_def enqueue_def needs_wakeup_def wakeup_def Let_def)

lemma fold_queue_pending [simp]:
  "pending (fold (queueInLoop True) fs l) = pending l @ fs"
  by (induction fs arbitrary: l)
     (simp_all add: queueInLoop_def enqueue_def needs_wakeup_def wakeup_def Let_def)

interpretation spawner: loop_client "spawning spawn" "\<lambda>_. True" for spawn
  by unfold_locales (simp_all add: spawning_def extends_refl)

section \<open>The loop thread between the other threads\<close>

text \<open>
  The places where the loop thread can be: before \<^verbatim>\<open>loop()\<close>, at the test of the flag, in
  \<^verbatim>\<open>poll\<close>, running timers and events, before the swap of \<^verbatim>\<open>doPendingFunctors\<close>, in its
  \<^verbatim>\<open>for\<close> with the functors still to run, and after the loop.
\<close>

datatype 'f phase = Idle | AtTest | AtPoll | Events | AtSwap | Running "'f list" | Stopped

text \<open>
  \<open>wakers\<close> counts the other threads between their change of the loop and their write to the
  wake-up descriptor. \<open>queued\<close>, \<open>executed\<close>, \<open>swaps\<close> and \<open>quits\<close> only record what happened.
\<close>

record 'f threads =
  cur_loop :: "'f eloop"
  cur_phase :: "'f phase"
  wakers :: nat
  queued :: "'f list"
  executed :: "'f list"
  swaps :: nat
  quits :: nat

definition initial_threads :: "'f eloop \<Rightarrow> 'f threads" where
  "initial_threads l = \<lparr>cur_loop = l, cur_phase = Idle, wakers = 0, queued = [], executed = [],
     swaps = 0, quits = 0\<rparr>"

text \<open>
  The loop thread may queue and quit wherever it runs callbacks or is outside the loop; the
  others may at any time, and their write of the descriptor is a step of its own.
\<close>

definition runs_user_code :: "'f phase \<Rightarrow> bool" where
  "runs_user_code p = (case p of Idle \<Rightarrow> True | Events \<Rightarrow> True | Running _ \<Rightarrow> True | Stopped \<Rightarrow> True | _ \<Rightarrow> False)"

inductive loop_step :: "'f threads \<Rightarrow> 'f threads \<Rightarrow> bool" where
  enter: "cur_phase t = Idle
    \<Longrightarrow> loop_step t (t\<lparr>cur_loop := loop_start (cur_loop t), cur_phase := AtTest\<rparr>)"
| leave: "cur_phase t = AtTest \<Longrightarrow> quit_flag (cur_loop t)
    \<Longrightarrow> loop_step t (t\<lparr>cur_loop := (cur_loop t)\<lparr>looping := False\<rparr>, cur_phase := Stopped\<rparr>)"
| again: "cur_phase t = AtTest \<Longrightarrow> \<not> quit_flag (cur_loop t)
    \<Longrightarrow> loop_step t (t\<lparr>cur_phase := AtPoll\<rparr>)"
| polled: "cur_phase t = AtPoll
    \<Longrightarrow> loop_step t (t\<lparr>cur_loop := (cur_loop t)\<lparr>return_time := ts\<rparr>, cur_phase := Events\<rparr>)"
| woken: "cur_phase t = Events \<Longrightarrow> 0 < wake_count (cur_loop t)
    \<Longrightarrow> loop_step t (t\<lparr>cur_loop := handleRead_wakeup (cur_loop t)\<rparr>)"
| handled: "cur_phase t = Events
    \<Longrightarrow> loop_step t (t\<lparr>cur_loop := (cur_loop t)\<lparr>calling := True\<rparr>, cur_phase := AtSwap\<rparr>)"
| swapped: "cur_phase t = AtSwap
    \<Longrightarrow> loop_step t (t\<lparr>cur_loop := (cur_loop t)\<lparr>pending := []\<rparr>,
          cur_phase := Running (pending (cur_loop t)), swaps := swaps t + 1\<rparr>)"
| executes: "cur_phase t = Running (f # fs)
    \<Longrightarrow> loop_step t (t\<lparr>cur_phase := Running fs, executed := executed t @ [f]\<rparr>)"
| finished: "cur_phase t = Running []
    \<Longrightarrow> loop_step t (t\<lparr>cur_loop := (cur_loop t)\<lparr>calling := False\<rparr>, cur_phase := AtTest\<rparr>)"
| own_queue: "runs_user_code (cur_phase t)
    \<Longrightarrow> loop_step t (t\<lparr>cur_loop := queueInLoop True f (cur_loop t), queued := queued t @ [f]\<rparr>)"
| own_quit: "runs_user_code (cur_phase t)
    \<Longrightarrow> loop_step t (t\<lparr>cur_loop := quit_loop True (cur_loop t), quits := quits t + 1\<rparr>)"
| other_enqueue:
    "loop_step t (t\<lparr>cur_loop := enqueue f (cur_loop t), queued := queued t @ [f], wakers := wakers t + 1\<rparr>)"
| other_quit:
    "loop_step t (t\<lparr>cur_loop := (cur_loop t)\<lparr>quit_flag := True\<rparr>, quits := quits t + 1, wakers := wakers t + 1\<rparr>)"
| other_wake: "wakers t = Suc n
    \<Longrightarrow> loop_step t (t\<lparr>cur_loop := wakeup (cur_loop t), wakers := n\<rparr>)"

inductive reachable_threads :: "'f threads \<Rightarrow> bool" where
  start: "pending l = [] \<Longrightarrow> \<not> calling l \<Longrightarrow> \<not> quit_flag l \<Longrightarrow> reachable_threads (initial_threads l)"
| step: "reachable_threads t \<Longrightarrow> loop_step t t' \<Longrightarrow> reachable_threads t'"

inductive_cases loop_stepE: "loop_step t t'"

fun running :: "'f phase \<Rightarrow> 'f list" where
  "running (Running fs) = fs"
| "running p = []"

text \<open>Nothing queued is lost, run twice or overtaken.\<close>

definition fifo_inv :: "'f threads \<Rightarrow> bool" where
  "fifo_inv t \<longleftrightarrow> executed t @ running (cur_phase t) @ pending (cur_loop t) = queued t"

text \<open>What is left in the queue after a swap has a wake-up of its own.\<close>

definition woken_inv :: "'f threads \<Rightarrow> bool" where
  "woken_inv t \<longleftrightarrow>
     (calling (cur_loop t) \<longleftrightarrow> cur_phase t = AtSwap \<or> (\<exists>fs. cur_phase t = Running fs))
     \<and> (cur_phase t \<notin> {Events, AtSwap, Stopped} \<and> 0 < swaps t \<and> pending (cur_loop t) \<noteq> []
          \<longrightarrow> 0 < wake_count (cur_loop t) + wakers t)
     \<and> (cur_phase t = Idle \<longrightarrow> swaps t = 0)
     \<and> (cur_phase t = AtPoll \<and> quit_flag (cur_loop t) \<longrightarrow> 0 < wake_count (cur_loop t) + wakers t)"

lemmas thread_ops = queueInLoop_def enqueue_def needs_wakeup_def wakeup_def handleRead_wakeup_def
  quit_loop_def loop_start_def runs_user_code_def

lemma fifo_step: "loop_step t t' \<Longrightarrow> fifo_inv t \<Longrightarrow> fifo_inv t'"
  by (erule loop_stepE) (auto simp: fifo_inv_def thread_ops Let_def)

lemma woken_step: "loop_step t t' \<Longrightarrow> woken_inv t \<Longrightarrow> woken_inv t'"
  by (erule loop_stepE) (auto simp: woken_inv_def thread_ops Let_def split: phase.splits)

lemma reachable_invs: "reachable_threads t \<Longrightarrow> fifo_inv t \<and> woken_inv t"
proof (induction rule: reachable_threads.induct)
  case (start l)
  then show ?case by (simp add: fifo_inv_def woken_inv_def initial_threads_def)
next
  case (step t t')
  then show ?case using fifo_step woken_step by blast
qed

text \<open>The first steps of a fresh loop.\<close>

lemma new_loop_sel [simp]:
  "pending (new_loop a d now) = []" "\<not> calling (new_loop a d now)" "\<not> quit_flag (new_loop a d now)"
  by (simp_all add: new_loop_def split_beta)

lemma initial_threads_sel [simp]:
  "cur_loop (initial_threads l) = l" "cur_phase (initial_threads l) = Idle"
  "wakers (initial_threads l) = 0" "queued (initial_threads l) = []"
  "executed (initial_threads l) = []" "swaps (initial_threads l) = 0" "quits (initial_threads l) = 0"
  by (simp_all add: initial_threads_def)

lemma runs_user_code_simps [simp]:
  "runs_user_code Idle" "runs_user_code Events" "runs_user_code (Running fs)"
  by (simp_all add: runs_user_code_def)

lemma loop_start_sel [simp]: "\<not> quit_flag (loop_start l)" "looping (loop_start l)"
  by (simp_all add: loop_start_def)

lemma reach_new_loop: "reachable_threads (initial_threads (new_loop a d now))"
  by (rule reachable_threads.start) simp_all

lemmas reach_enter = reachable_threads.step [OF _ enter]
lemmas reach_again = reachable_threads.step [OF _ again]
lemmas reach_own_quit = reachable_threads.step [OF _ own_quit]
lemmas reach_own_queue = reachable_threads.step [OF _ own_queue]
lemmas reach_other_quit = reachable_threads.step [OF _ other_quit]

section \<open>Properties of the event loop\<close>

text \<open>C2. Whatever the threads do, the functors the loop has run, the ones it is running and the
  ones still queued are together all that were ever queued, in the order they were queued: none
  is lost, run twice or overtaken.\<close>

theorem queued_functors_run_in_order:
  assumes "reachable_threads t"
  shows "executed t @ running (cur_phase t) @ pending (cur_loop t) = queued t"
  using reachable_invs [OF assms] by (simp add: fifo_inv_def)

theorem queued_functors_run_in_order_witness:
  "\<exists>t. reachable_threads t \<and> queued t = [7 :: nat]
    \<and> executed t @ running (cur_phase t) @ pending (cur_loop t) = [7]"
proof -
  note q = reach_own_queue [OF reach_new_loop [of 0 3 0], of "7 :: nat", simplified]
  show ?thesis
    by (rule exI, rule conjI [OF q]) (use queued_functors_run_in_order [OF q] in simp)
qed

text \<open>C5. No wake-up is lost: once the loop has swapped the queue for the first time it never sits
  in \<^verbatim>\<open>poll\<close> with a functor queued or the quit flag set unless the wake-up descriptor is
  readable or the thread that queued is about to write it.\<close>

theorem no_lost_wakeup:
  assumes "reachable_threads t" and "cur_phase t = AtPoll"
    and "pending (cur_loop t) \<noteq> [] \<and> 0 < swaps t \<or> quit_flag (cur_loop t)"
  shows "0 < wake_count (cur_loop t) \<or> 0 < wakers t"
  using reachable_invs [OF assms(1)] assms(2,3) by (auto simp: woken_inv_def)

theorem no_lost_wakeup_witness:
  "\<exists>t :: nat threads. reachable_threads t \<and> cur_phase t = AtPoll \<and> quit_flag (cur_loop t)
    \<and> (0 < wake_count (cur_loop t) \<or> 0 < wakers t)"
proof -
  note e = reach_enter [OF reach_new_loop [of 0 3 0, where 'a = nat], simplified]
  note p = reach_other_quit [OF reach_again [OF e, simplified], simplified]
  show ?thesis
    by (rule exI, rule conjI [OF p]) (use no_lost_wakeup [OF p] in simp)
qed

text \<open>C32. One call of \<^verbatim>\<open>doPendingFunctors\<close> runs exactly the functors queued before it, in order;
  what they queue themselves stays for the next round, whose \<^verbatim>\<open>poll\<close> is already woken by one
  write for each.\<close>

theorem doPendingFunctors_runs_one_round:
  "doPendingFunctors (spawning spawn) (log, l)
    = (log @ pending l,
       l\<lparr>calling := False, pending := concat (map spawn (pending l)),
         wake_count := wake_count l + length (concat (map spawn (pending l)))\<rparr>)"
  by (simp add: doPendingFunctors_def fold_spawning Let_def)

text \<open>\<^verbatim>\<open>loop()\<close> clears the quit flag: a \<^verbatim>\<open>quit()\<close> that comes before it is lost, and the loop
  goes to \<^verbatim>\<open>poll\<close> as if it had not been called.\<close>

theorem early_quit_is_lost:
  "\<exists>t. reachable_threads t \<and> 0 < quits t \<and> wakers t = 0 \<and> cur_phase t = AtPoll
    \<and> looping (cur_loop t) \<and> \<not> quit_flag (cur_loop t)"
proof -
  note q = reach_own_quit [OF reach_new_loop [of 0 3 0], simplified]
  note e = reach_enter [OF q, simplified]
  note p = reach_again [OF e, simplified]
  show ?thesis
    by (rule exI, rule conjI [OF p]) (simp add: loop_start_def)
qed


section \<open>One loop per thread, and the end of a loop\<close>

text \<open>\<^verbatim>\<open>t_loopInThisThread\<close>: the constructor of a second loop only logs that there is one; the
  destructor of any loop clears the pointer.\<close>

definition register_loop :: "nat \<Rightarrow> nat option \<Rightarrow> bool \<times> nat option" where
  "register_loop a t = (case t of None \<Rightarrow> (False, Some a) | Some b \<Rightarrow> (True, t))"

definition destroy_loop :: "'f eloop \<Rightarrow> nat option \<Rightarrow> 'f eloop \<times> nat option" where
  "destroy_loop l t =
     (let (ch, p) = removeChannel (disableAll (wakeup_channel l, loop_poller l))
      in (l\<lparr>wakeup_channel := ch, loop_poller := p\<rparr>, None))"

text \<open>The destructor unregisters the wake-up descriptor with one call, \<^verbatim>\<open>remove\<close> finding it already
  deleted; functors still queued are never run.\<close>

lemma destroy_loop_unregisters:
  assumes "ch_state (wakeup_channel l) = KAdded" and "destroy_loop l t = (l', t')"
  shows "channels (loop_poller l') = (channels (loop_poller l))(ch_fd (wakeup_channel l) := None)
    \<and> ctl_log (loop_poller l') = ctl_log (loop_poller l) @
        [\<lparr>ctl_op_of = CTL_DEL, ctl_fd = ch_fd (wakeup_channel l), ctl_events = kNoneEvent,
          ctl_ptr = ch_addr (wakeup_channel l)\<rparr>]
    \<and> pending l' = pending l \<and> t' = None"
  using assms
  by (auto simp: destroy_loop_def disableAll_def updateChannel_def removeChannel_def isNoneEvent_def
      poller_update_def split_beta Let_def)

lemma second_loop_forgets_the_first:
  "register_loop b (snd (register_loop a None)) = (True, Some a)
    \<and> snd (destroy_loop l (snd (register_loop b (snd (register_loop a None))))) = None"
  by (simp add: register_loop_def destroy_loop_def split_beta Let_def)

end
