(* ===== verification/LoopPool.thy ===== *)
theory LoopPool
  imports EventLoop
begin

text \<open>
  \<^verbatim>\<open>EventLoopThreadPool\<close> (\<^verbatim>\<open>gdrpc/net/eventLoop_threadPool.hpp\<close>, \<^verbatim>\<open>.cpp\<close>) and
  \<^verbatim>\<open>EventLoopThread\<close> (\<^verbatim>\<open>gdrpc/net/eventLoop_thread.hpp\<close>, \<^verbatim>\<open>.cpp\<close>): the sub-loops of a
  server, how they are handed out in turn, and how a thread and the owner of its loop
  synchronise. A loop is its address.
\<close>

section \<open>The pool\<close>

record loop_pool =
  baseLoop :: nat
  pool_name :: string
  pool_started :: bool
  numThreads :: int
  next_index :: nat
  sub_loops :: "nat list"

definition new_pool :: "nat \<Rightarrow> string \<Rightarrow> loop_pool" where
  "new_pool base name = \<lparr>baseLoop = base, pool_name = name, pool_started = False, numThreads = 0,
     next_index = 0, sub_loops = []\<rparr>"

definition setThreadNum_pool :: "int \<Rightarrow> loop_pool \<Rightarrow> loop_pool" where
  "setThreadNum_pool n p = p\<lparr>numThreads := n\<rparr>"

text \<open>
  \<open>start_loop i\<close> is the loop the \<open>i\<close>-th thread returns. The second component of the result
  are the loops the callback of \<^verbatim>\<open>start\<close> itself was run on: the threads run it on their own.
\<close>

definition start_pool :: "(nat \<Rightarrow> nat) \<Rightarrow> bool \<Rightarrow> loop_pool \<Rightarrow> loop_pool \<times> nat list" where
  "start_pool start_loop has_cb p =
     (p\<lparr>pool_started := True, sub_loops := sub_loops p @ map start_loop [0..<nat (numThreads p)]\<rparr>,
      if numThreads p = 0 \<and> has_cb then [baseLoop p] else [])"

definition getNextLoop :: "loop_pool \<Rightarrow> nat \<times> loop_pool" where
  "getNextLoop p =
     (if sub_loops p = [] then (baseLoop p, p)
      else let n = next_index p + 1
           in (sub_loops p ! next_index p,
               p\<lparr>next_index := (if length (sub_loops p) \<le> n then 0 else n)\<rparr>))"

definition getAllLoops :: "loop_pool \<Rightarrow> nat list" where
  "getAllLoops p = (if sub_loops p = [] then [baseLoop p] else sub_loops p)"

fun next_loops :: "nat \<Rightarrow> loop_pool \<Rightarrow> nat list \<times> loop_pool" where
  "next_loops 0 p = ([], p)"
| "next_loops (Suc k) p =
     (let (l, p') = getNextLoop p; (ls, p'') = next_loops k p' in (l # ls, p''))"

definition pool_ok :: "loop_pool \<Rightarrow> bool" where
  "pool_ok p \<longleftrightarrow> sub_loops p = [] \<or> next_index p < length (sub_loops p)"

lemma getNextLoop_mod:
  assumes "sub_loops p \<noteq> []" and "next_index p < length (sub_loops p)"
  shows "getNextLoop p = (sub_loops p ! next_index p,
    p\<lparr>next_index := Suc (next_index p) mod length (sub_loops p)\<rparr>)"
  using assms
  by (cases "Suc (next_index p) = length (sub_loops p)") (simp_all add: getNextLoop_def Let_def)

lemma next_loops_mod:
  assumes "sub_loops p \<noteq> []" and "next_index p < length (sub_loops p)"
  shows "next_loops k p = (map (\<lambda>i. sub_loops p ! ((next_index p + i) mod length (sub_loops p))) [0..<k],
    p\<lparr>next_index := (next_index p + k) mod length (sub_loops p)\<rparr>)"
  using assms
proof (induction k arbitrary: p)
  case (Suc k)
  let ?n = "length (sub_loops p)" and ?p = "p\<lparr>next_index := Suc (next_index p) mod length (sub_loops p)\<rparr>"
  have "next_loops k ?p = (map (\<lambda>i. sub_loops p ! ((Suc (next_index p) mod ?n + i) mod ?n)) [0..<k],
      ?p\<lparr>next_index := (Suc (next_index p) mod ?n + k) mod ?n\<rparr>)"
    using Suc.IH [of ?p] Suc.prems by simp
  then show ?case
    using Suc.prems
    by (simp add: getNextLoop_mod map_upt_Suc mod_add_left_eq del: upt_Suc)
qed simp

section \<open>One loop per thread\<close>

text \<open>
  The owner of an \<^verbatim>\<open>EventLoopThread\<close> calls \<^verbatim>\<open>startLoop\<close>, waits for the pointer and
  later destroys the object; the thread publishes its loop, runs it and takes the pointer
  back. \<^verbatim>\<open>loop_\<close> is read and written under the mutex in every step but the destructor's.
\<close>

datatype thread_pc = NotCreated | Initialising | BeforeLoop | InLoop | AfterLoop | Ended

datatype owner_pc = Constructed | Waiting | Owns nat | Joining | Destroyed | Terminated

record loop_thread =
  lt_loop :: "nat option"
  lt_quit :: bool
  lt_exiting :: bool
  lt_thread :: thread_pc
  lt_owner :: owner_pc

definition new_loop_thread :: loop_thread where
  "new_loop_thread = \<lparr>lt_loop = None, lt_quit = False, lt_exiting = False, lt_thread = NotCreated,
     lt_owner = Constructed\<rparr>"

text \<open>
  A \<^verbatim>\<open>std::thread\<close> that is destroyed while joinable ends the process: \<open>Terminated\<close>.
\<close>

inductive lt_step :: "nat \<Rightarrow> loop_thread \<Rightarrow> loop_thread \<Rightarrow> bool" for loop_addr where
  startLoop: "lt_owner t = Constructed
    \<Longrightarrow> lt_step loop_addr t (t\<lparr>lt_owner := Waiting, lt_thread := Initialising\<rparr>)"
| publish: "lt_thread t = Initialising
    \<Longrightarrow> lt_step loop_addr t (t\<lparr>lt_thread := BeforeLoop, lt_loop := Some loop_addr\<rparr>)"
| got_loop: "lt_owner t = Waiting \<Longrightarrow> lt_loop t = Some l
    \<Longrightarrow> lt_step loop_addr t (t\<lparr>lt_owner := Owns l\<rparr>)"
| enter_loop: "lt_thread t = BeforeLoop
    \<Longrightarrow> lt_step loop_addr t (t\<lparr>lt_thread := InLoop, lt_quit := False\<rparr>)"
| callback_quits: "lt_thread t = InLoop \<Longrightarrow> lt_step loop_addr t (t\<lparr>lt_quit := True\<rparr>)"
| leave_loop: "lt_thread t = InLoop \<Longrightarrow> lt_quit t
    \<Longrightarrow> lt_step loop_addr t (t\<lparr>lt_thread := AfterLoop\<rparr>)"
| unpublish: "lt_thread t = AfterLoop
    \<Longrightarrow> lt_step loop_addr t (t\<lparr>lt_thread := Ended, lt_loop := None\<rparr>)"
| destroy_running: "lt_owner t = Owns l \<Longrightarrow> lt_loop t \<noteq> None
    \<Longrightarrow> lt_step loop_addr t (t\<lparr>lt_owner := Joining, lt_exiting := True, lt_quit := True\<rparr>)"
| destroy_ended: "lt_owner t = Owns l \<Longrightarrow> lt_loop t = None
    \<Longrightarrow> lt_step loop_addr t (t\<lparr>lt_owner := Terminated, lt_exiting := True\<rparr>)"
| destroy_unused: "lt_owner t = Constructed
    \<Longrightarrow> lt_step loop_addr t (t\<lparr>lt_owner := Destroyed, lt_exiting := True\<rparr>)"
| joined: "lt_owner t = Joining \<Longrightarrow> lt_thread t = Ended
    \<Longrightarrow> lt_step loop_addr t (t\<lparr>lt_owner := Destroyed\<rparr>)"

inductive_cases lt_stepE: "lt_step loop_addr t t'"

inductive lt_reachable :: "nat \<Rightarrow> loop_thread \<Rightarrow> bool" for loop_addr where
  lt_start: "lt_reachable loop_addr new_loop_thread"
| lt_next: "lt_reachable loop_addr t \<Longrightarrow> lt_step loop_addr t t' \<Longrightarrow> lt_reachable loop_addr t'"

fun owner_ok :: "nat \<Rightarrow> owner_pc \<Rightarrow> thread_pc \<Rightarrow> bool" where
  "owner_ok a Constructed pc = (pc = NotCreated)"
| "owner_ok a Waiting pc = (pc \<noteq> NotCreated)"
| "owner_ok a (Owns l) pc = (l = a \<and> pc \<noteq> NotCreated \<and> pc \<noteq> Initialising)"
| "owner_ok a Joining pc = (pc \<noteq> NotCreated \<and> pc \<noteq> Initialising)"
| "owner_ok a Terminated pc = (pc = Ended)"
| "owner_ok a Destroyed pc = (pc = NotCreated \<or> pc = Ended)"

definition publishes :: "thread_pc \<Rightarrow> bool" where
  "publishes pc = (case pc of BeforeLoop \<Rightarrow> True | InLoop \<Rightarrow> True | AfterLoop \<Rightarrow> True | _ \<Rightarrow> False)"

definition lt_inv :: "nat \<Rightarrow> loop_thread \<Rightarrow> bool" where
  "lt_inv a t \<longleftrightarrow> lt_loop t = (if publishes (lt_thread t) then Some a else None)
     \<and> owner_ok a (lt_owner t) (lt_thread t)"

lemma lt_inv_step: "lt_step a t t' \<Longrightarrow> lt_inv a t \<Longrightarrow> lt_inv a t'"
  by (erule lt_stepE; cases "lt_owner t"; cases "lt_thread t"; simp add: lt_inv_def publishes_def)

lemma lt_inv_reachable: "lt_reachable a t \<Longrightarrow> lt_inv a t"
  by (induction rule: lt_reachable.induct)
     (simp add: lt_inv_def new_loop_thread_def publishes_def, erule lt_inv_step)

lemmas lt_run = lt_reachable.lt_next [rotated]

lemma lt_witness: "lt_reachable a t \<Longrightarrow> P t \<Longrightarrow> \<exists>t. lt_reachable a t \<and> P t"
  by blast

section \<open>Properties of the pool\<close>

text \<open>New connections go round the sub-loops: call number \<open>i\<close> returns the sub-loop \<open>i\<close> places
  after the first, so in every run of calls each sub-loop is chosen equally often, up to one.
  Without sub-loops every call returns the base loop.\<close>

theorem getNextLoop_round_robin:
  assumes "getAllLoops (fst (start_pool start_loop has_cb (setThreadNum_pool n (new_pool base name)))) = ls"
  shows "fst (next_loops k (fst (start_pool start_loop has_cb (setThreadNum_pool n (new_pool base name)))))
    = map (\<lambda>i. ls ! (i mod length ls)) [0..<k]"
proof -
  let ?p = "fst (start_pool start_loop has_cb (setThreadNum_pool n (new_pool base name)))"
  show ?thesis
  proof (cases "sub_loops ?p = []")
    case True
    have "sub_loops p = [] \<Longrightarrow> fst (next_loops k p) = replicate k (baseLoop p)" for p
      by (induction k) (simp_all add: getNextLoop_def split_beta Let_def)
    then have "fst (next_loops k ?p) = replicate k (baseLoop ?p)" using True by simp
    moreover have "ls = [baseLoop ?p]" using assms True by (simp add: getAllLoops_def)
    ultimately show ?thesis by (simp add: map_replicate_const)
  next
    case False
    have "next_index ?p = 0" by (simp add: start_pool_def setThreadNum_pool_def new_pool_def)
    moreover have "ls = sub_loops ?p" using assms False by (simp add: getAllLoops_def)
    ultimately show ?thesis using next_loops_mod [OF False, of k] False by simp
  qed
qed

theorem getNextLoop_round_robin_witness:
  "fst (next_loops 7 (fst (start_pool (\<lambda>i. 10 + i) False (setThreadNum_pool 3 (new_pool 1 ''s'')))))
    = [10, 11, 12, 10, 11, 12, 10]"
  using getNextLoop_round_robin [of "\<lambda>i. 10 + i" False 3 1 "''s''" "[10, 11, 12]" 7]
  by (simp add: getAllLoops_def start_pool_def setThreadNum_pool_def new_pool_def upt_rec)

text \<open>\<^verbatim>\<open>startLoop\<close> only ever returns the loop its thread built, after the thread's callback
  has run on it; the pointer the owner keeps is dangling exactly when the thread has ended.\<close>

theorem startLoop_returns_its_loop:
  assumes "lt_reachable a t" and "lt_owner t = Owns l"
  shows "l = a \<and> lt_thread t \<noteq> Initialising \<and> (lt_loop t = Some l \<longleftrightarrow> lt_thread t \<noteq> Ended)"
  using lt_inv_reachable [OF assms(1)] assms(2)
  by (cases "lt_thread t") (simp_all add: lt_inv_def publishes_def)

theorem startLoop_returns_its_loop_witness:
  "\<exists>t. lt_reachable 5 t \<and> lt_owner t = Owns 5 \<and> lt_loop t = Some 5 \<and> lt_thread t = InLoop"
proof -
  note s1 = lt_run [OF startLoop lt_start, simplified new_loop_thread_def, simplified]
  note s2 = lt_run [OF publish s1, simplified]
  note s3 = lt_run [OF got_loop s2, of 5, simplified]
  note s4 = lt_run [OF enter_loop s3, simplified]
  have "\<exists>t. lt_reachable 5 t \<and> lt_owner t = Owns 5 \<and> lt_thread t = InLoop"
    using s4 by (rule lt_witness) simp_all
  then show ?thesis
    using startLoop_returns_its_loop [of 5 _ 5] by fastforce
qed

text \<open>Destroying an \<^verbatim>\<open>EventLoopThread\<close> can go wrong in two ways: when the thread has not
  yet entered \<^verbatim>\<open>loop()\<close> its quit is lost and the destructor joins a loop nobody asks to stop;
  when a callback has made the loop quit, the joinable thread is destroyed and the process
  ends.\<close>

theorem destructor_of_loop_thread_races:
  "(\<exists>t. lt_reachable a t \<and> lt_owner t = Joining \<and> lt_thread t = InLoop \<and> \<not> lt_quit t)
    \<and> (\<exists>t. lt_reachable a t \<and> lt_owner t = Terminated)"
proof
  note s1 = lt_run [OF startLoop lt_start, simplified new_loop_thread_def, simplified]
  note s2 = lt_run [OF publish s1, simplified]
  note s3 = lt_run [OF got_loop s2, of a, simplified]
  note d4 = lt_run [OF destroy_running s3, of a, simplified]
  note d5 = lt_run [OF enter_loop d4, simplified]
  show "\<exists>t. lt_reachable a t \<and> lt_owner t = Joining \<and> lt_thread t = InLoop \<and> \<not> lt_quit t"
    using d5 by (rule lt_witness) simp_all
  note e4 = lt_run [OF enter_loop s3, simplified]
  note e5 = lt_run [OF leave_loop lt_run [OF callback_quits e4, simplified], simplified]
  note e6 = lt_run [OF destroy_ended lt_run [OF unpublish e5, simplified], of a, simplified]
  show "\<exists>t. lt_reachable a t \<and> lt_owner t = Terminated"
    using e6 by (rule lt_witness) simp_all
qed

end
