(* ===== verification/Connector.thy ===== *)
theory Connector
  imports EventLoop
begin

text \<open>
  \<^verbatim>\<open>Connector\<close> (\<^verbatim>\<open>gdrpc/net/connector.hpp\<close>, \<^verbatim>\<open>connector.cpp\<close>): the non-blocking
  \<^verbatim>\<open>connect\<close> of a client with its retries. The connector is the outer state of an event loop;
  the functors it hands to the queue and to the wheel of that loop are \<open>StartInLoop\<close>,
  \<open>StopInLoop\<close> and \<open>ResetChannel\<close>, and the events of its channel are \<open>Writable\<close>, with the
  \<^verbatim>\<open>SO_ERROR\<close> of the descriptor, and \<open>Failed\<close>. What the system calls return is read from a
  script in the state: each \<^verbatim>\<open>connect\<close> takes the next descriptor and error number. Closed
  descriptors are recorded in \<open>ct_closed\<close>, channels handed to the client in \<open>ct_handed\<close>.
\<close>

section \<open>State\<close>

datatype connector_state = CDisconnected | CConnecting | CConnected

datatype connector_functor = StartInLoop | StopInLoop | ResetChannel | Writable int | Failed

definition kMaxRetryDelayMs :: int where "kMaxRetryDelayMs = 30 * 1000"
definition kInitRetryDelayMs :: int where "kInitRetryDelayMs = 500"

record connector =
  ct_connect :: bool
  ct_state :: connector_state
  ct_channel :: "channel option"
  retryDelayMs :: int
  ct_script :: "nat \<Rightarrow> fd \<times> int"
  ct_attempts :: nat
  ct_closed :: "fd list"
  ct_handed :: "channel list"

type_synonym connector_loop = "connector \<times> connector_functor eloop"

definition new_connector :: "(nat \<Rightarrow> fd \<times> int) \<Rightarrow> connector" where
  "new_connector script = \<lparr>ct_connect = False, ct_state = CDisconnected, ct_channel = None,
     retryDelayMs = kInitRetryDelayMs, ct_script = script, ct_attempts = 0, ct_closed = [],
     ct_handed = []\<rparr>"

section \<open>Error numbers of \<^verbatim>\<open>connect\<close>\<close>

datatype connect_outcome = InProgress | TryAgain | GiveUp

text \<open>The cases of the \<^verbatim>\<open>switch\<close>, by the numbers of Linux.\<close>

definition connect_case :: "int \<Rightarrow> connect_outcome" where
  "connect_case e =
     (if e \<in> {0, 115, 4, 106} then InProgress
      else if e \<in> {11, 98, 99, 111, 101} then TryAgain
      else GiveUp)"

section \<open>Operations\<close>

definition ct_close :: "fd \<Rightarrow> connector \<Rightarrow> connector" where
  "ct_close d c = c\<lparr>ct_closed := ct_closed c @ [d]\<rparr>"

text \<open>
  Everything here runs in the loop thread. The closures the wheel keeps get the value \<open>junk\<close> as
  their uninitialised \<^verbatim>\<open>times_\<close>. The delay is positive, so the wheel never runs a closure at once.
\<close>

definition queue_here :: "connector_functor \<Rightarrow> connector_loop \<Rightarrow> connector_loop" where
  "queue_here f = (\<lambda>(c, l). (c, queueInLoop True f l))"

definition after_here :: "int \<Rightarrow> int \<Rightarrow> connector_functor \<Rightarrow> connector_loop \<Rightarrow> connector_loop" where
  "after_here junk ms f cl = snd (runAfter (\<lambda>_ sl. sl) ms f junk cl)"

definition retry :: "int \<Rightarrow> fd \<Rightarrow> connector_loop \<Rightarrow> connector_loop" where
  "retry junk d = (\<lambda>(c, l).
     let c1 = (ct_close d c)\<lparr>ct_state := CDisconnected\<rparr> in
     if ct_connect c1
     then let (c2, l2) = after_here junk (retryDelayMs c1) StartInLoop (queue_here StartInLoop (c1, l))
          in (c2\<lparr>retryDelayMs := min (retryDelayMs c2 * 2) kMaxRetryDelayMs\<rparr>, l2)
     else (c1, l))"

text \<open>A channel already there is destroyed by the assignment, and closes its descriptor.\<close>

definition drop_channel :: "connector \<Rightarrow> connector" where
  "drop_channel c = (case ct_channel c of None \<Rightarrow> c
     | Some ch \<Rightarrow> (ct_close (ch_fd ch) c)\<lparr>ct_channel := None\<rparr>)"

definition connecting :: "fd \<Rightarrow> connector_loop \<Rightarrow> connector_loop" where
  "connecting d = (\<lambda>(c, l).
     let (ch, p) = enableWriting ((new_channel (ct_attempts c) d)\<lparr>ch_cbs := [WriteCb, ErrorCb]\<rparr>, loop_poller l)
     in ((drop_channel c)\<lparr>ct_state := CConnecting, ct_channel := Some ch\<rparr>, l\<lparr>loop_poller := p\<rparr>))"

definition connect :: "int \<Rightarrow> connector_loop \<Rightarrow> connector_loop" where
  "connect junk = (\<lambda>(c, l).
     let (d, savedErrno) = ct_script c (ct_attempts c);
         c1 = c\<lparr>ct_attempts := ct_attempts c + 1\<rparr>
     in case connect_case savedErrno of
          InProgress \<Rightarrow> connecting d (c1, l)
        | TryAgain \<Rightarrow> retry junk d (c1, l)
        | GiveUp \<Rightarrow> (ct_close d c1, l))"

definition startInLoop :: "int \<Rightarrow> connector_loop \<Rightarrow> connector_loop" where
  "startInLoop junk = (\<lambda>(c, l). if ct_connect c then connect junk (c, l) else (c, l))"

definition start :: "int \<Rightarrow> bool \<Rightarrow> connector_loop \<Rightarrow> connector_loop" where
  "start junk in_loop = (\<lambda>(c, l).
     let c1 = c\<lparr>ct_connect := True\<rparr>
     in if in_loop then startInLoop junk (c1, l) else (c1, queueInLoop False StartInLoop l))"

definition restart :: "int \<Rightarrow> connector_loop \<Rightarrow> connector_loop" where
  "restart junk = (\<lambda>(c, l).
     startInLoop junk (c\<lparr>ct_state := CDisconnected, retryDelayMs := kInitRetryDelayMs, ct_connect := True\<rparr>, l))"

definition stop :: "bool \<Rightarrow> connector_loop \<Rightarrow> connector_loop" where
  "stop in_loop = (\<lambda>(c, l). (c\<lparr>ct_connect := False\<rparr>, queueInLoop in_loop StopInLoop l))"

text \<open>
  \<open>None\<close> is a null \<^verbatim>\<open>channel_\<close> dereferenced.
\<close>

definition removeAndResetChannel :: "connector_loop \<Rightarrow> (fd \<times> connector_loop) option" where
  "removeAndResetChannel = (\<lambda>(c, l).
     case ct_channel c of
       None \<Rightarrow> None
     | Some ch \<Rightarrow>
         (let (ch1, p1) = removeChannel (disableAll (ch, loop_poller l))
          in Some (ch_fd ch1, queue_here ResetChannel (c\<lparr>ct_channel := Some ch1\<rparr>, l\<lparr>loop_poller := p1\<rparr>))))"

text \<open>\<^verbatim>\<open>channel_.reset()\<close> destroys the channel, whose destructor closes the descriptor.\<close>

definition resetChannel :: "connector_loop \<Rightarrow> connector_loop" where
  "resetChannel = (\<lambda>(c, l). (drop_channel c, l))"

definition stopInLoop :: "int \<Rightarrow> connector_loop \<Rightarrow> connector_loop option" where
  "stopInLoop junk = (\<lambda>(c, l).
     if ct_state c = CConnecting
     then (case removeAndResetChannel (c\<lparr>ct_state := CDisconnected\<rparr>, l) of
             None \<Rightarrow> None
           | Some (d, cl) \<Rightarrow> Some (retry junk d cl))
     else Some (c, l))"

definition handleWrite_connector :: "int \<Rightarrow> int \<Rightarrow> connector_loop \<Rightarrow> connector_loop option" where
  "handleWrite_connector junk so_error = (\<lambda>(c, l).
     if ct_state c = CConnecting
     then (case ct_channel c of
             None \<Rightarrow> None
           | Some ch \<Rightarrow>
               if so_error \<noteq> 0
               then (case removeAndResetChannel (c, l) of
                       None \<Rightarrow> None
                     | Some (d, cl) \<Rightarrow> Some (retry junk (ch_fd ch) cl))
               else if ct_connect c
               then (let (ch1, p1) = disableAll (ch, loop_poller l)
                     in Some (c\<lparr>ct_state := CConnected, ct_channel := None, ct_handed := ct_handed c @ [ch1]\<rparr>,
                              l\<lparr>loop_poller := p1\<rparr>))
               else (case removeAndResetChannel (c, l) of
                       None \<Rightarrow> None
                     | Some (d, c', l') \<Rightarrow> Some (ct_close (ch_fd ch) c', l')))
     else Some (c, l))"

definition handleError_connector :: "int \<Rightarrow> connector_loop \<Rightarrow> connector_loop option" where
  "handleError_connector junk = (\<lambda>(c, l).
     if ct_state c = CConnecting
     then (case removeAndResetChannel (c, l) of
             None \<Rightarrow> None
           | Some (d, cl) \<Rightarrow> Some (retry junk d cl))
     else Some (c, l))"

section \<open>The connector as the client of its loop\<close>

text \<open>The outer state of the loop: a connector, or \<open>None\<close> after a null dereference.\<close>

fun connector_run :: "int \<Rightarrow> (connector option, connector_functor) functor_run" where
  "connector_run junk f (None, l) = (None, l)"
| "connector_run junk f (Some c, l) =
     (case (case f of
              StartInLoop \<Rightarrow> Some (startInLoop junk (c, l))
            | StopInLoop \<Rightarrow> stopInLoop junk (c, l)
            | ResetChannel \<Rightarrow> Some (resetChannel (c, l))
            | Writable so_error \<Rightarrow> handleWrite_connector junk so_error (c, l)
            | Failed \<Rightarrow> handleError_connector junk (c, l)) of
        None \<Rightarrow> (None, l)
      | Some (c', l') \<Rightarrow> (Some c', l'))"

definition delay_ok :: "connector \<Rightarrow> bool" where
  "delay_ok c \<longleftrightarrow> 0 < retryDelayMs c \<and> retryDelayMs c \<le> kMaxRetryDelayMs"

text \<open>What an operation of the connector does to its loop.\<close>

definition tame :: "connector_loop \<Rightarrow> connector_loop \<Rightarrow> bool" where
  "tame cl cl' \<longleftrightarrow> (delay_ok (fst cl) \<and> wheel_live (time_wheel (snd cl)) \<longrightarrow>
     delay_ok (fst cl') \<and> extends (time_wheel (snd cl)) (time_wheel (snd cl'))
     \<and> (\<exists>new. pending (snd cl') = pending (snd cl) @ new))"

lemma tame_refl [simp]: "tame cl cl"
  by (auto simp: tame_def extends_refl)

lemma tame_trans: "tame a b \<Longrightarrow> tame b c \<Longrightarrow> tame a c"
  unfolding tame_def using extends_trans extends_live by fastforce

lemma tame_same: "retryDelayMs c' = retryDelayMs c \<Longrightarrow> time_wheel l' = time_wheel l
    \<Longrightarrow> pending l' = pending l \<Longrightarrow> tame (c, l) (c', l')"
  by (simp add: tame_def delay_ok_def extends_refl)

lemma queueInLoop_sel [simp]:
  "time_wheel (queueInLoop b f l) = time_wheel l" "pending (queueInLoop b f l) = pending l @ [f]"
  "loop_poller (queueInLoop b f l) = loop_poller l"
  by (simp_all add: queueInLoop_def enqueue_def needs_wakeup_def wakeup_def Let_def)

lemma tame_queue: "tame (c, l) (queue_here f (c, l))"
  by (simp add: tame_def queue_here_def extends_refl)

lemma after_here_eq:
  "0 \<le> ms \<Longrightarrow> after_here junk ms f (c, l)
    = (c, l\<lparr>time_wheel := snd (snd (addTask (wheel_run (\<lambda>_ sl. sl)) ms f junk ((c, l), time_wheel l)))\<rparr>)"
  by (simp add: after_here_def runAfter_def addTask_def Let_def)

lemma tame_after: "0 < retryDelayMs c \<Longrightarrow> retryDelayMs c \<le> kMaxRetryDelayMs
    \<Longrightarrow> tame (c, l) (after_here junk (retryDelayMs c) f (c, l))"
  using addTask_extends [of "time_wheel l" "retryDelayMs c"]
  by (auto simp: tame_def after_here_eq kMaxRetryDelayMs_def wheel_live_def)

lemma tame_retry: "tame (c, l) (retry junk d (c, l))"
proof (cases "delay_ok c \<and> wheel_live (time_wheel l)")
  case True
  let ?c1 = "(ct_close d c)\<lparr>ct_state := CDisconnected\<rparr>"
  let ?l1 = "queueInLoop True StartInLoop l"
  have d: "retryDelayMs ?c1 = retryDelayMs c" "0 < retryDelayMs c" "retryDelayMs c \<le> kMaxRetryDelayMs"
    using True by (simp_all add: ct_close_def delay_ok_def)
  have "tame (c, l) (?c1, ?l1)"
    using tame_trans [OF tame_same tame_queue [of ?c1 l StartInLoop]] by (simp add: ct_close_def queue_here_def)
  moreover have "tame (?c1, ?l1) (after_here junk (retryDelayMs ?c1) StartInLoop (?c1, ?l1))"
    using d by (intro tame_after) simp_all
  moreover have "delay_ok (x\<lparr>retryDelayMs := min (retryDelayMs c * 2) kMaxRetryDelayMs\<rparr>)" for x
    using d by (simp add: delay_ok_def kMaxRetryDelayMs_def)
  ultimately show ?thesis
    using True d tame_same [of ?c1 c l l]
    by (auto simp: retry_def Let_def queue_here_def after_here_eq tame_def dest: extends_trans)
qed (auto simp: tame_def)

lemma drop_channel_sel [simp]:
  "retryDelayMs (drop_channel c) = retryDelayMs c" "ct_connect (drop_channel c) = ct_connect c"
  "ct_state (drop_channel c) = ct_state c" "ct_attempts (drop_channel c) = ct_attempts c"
  "ct_handed (drop_channel c) = ct_handed c" "ct_script (drop_channel c) = ct_script c"
  by (simp_all add: drop_channel_def ct_close_def split: option.splits)

lemma ct_close_sel [simp]:
  "retryDelayMs (ct_close d c) = retryDelayMs c" "ct_connect (ct_close d c) = ct_connect c"
  "ct_state (ct_close d c) = ct_state c" "ct_attempts (ct_close d c) = ct_attempts c"
  "ct_handed (ct_close d c) = ct_handed c" "ct_channel (ct_close d c) = ct_channel c"
  "ct_script (ct_close d c) = ct_script c" "ct_closed (ct_close d c) = ct_closed c @ [d]"
  by (simp_all add: ct_close_def)

lemma tame_connect: "tame (c, l) (connect junk (c, l))"
proof -
  obtain d e where s: "ct_script c (ct_attempts c) = (d, e)" by (cases "ct_script c (ct_attempts c)")
  let ?c1 = "c\<lparr>ct_attempts := ct_attempts c + 1\<rparr>"
  have "tame (c, l) (?c1, l)" by (simp add: tame_same)
  moreover have "tame (?c1, l) (connecting d (?c1, l))"
    by (simp add: connecting_def split_beta Let_def tame_same)
  moreover have "tame (?c1, l) (retry junk d (?c1, l))" by (rule tame_retry)
  moreover have "tame (?c1, l) (ct_close d ?c1, l)" by (simp add: tame_same)
  ultimately show ?thesis
    by (auto simp: connect_def s Let_def split: connect_outcome.splits intro: tame_trans)
qed

lemma tame_removeAndReset:
  "removeAndResetChannel (c, l) = Some (d, cl) \<Longrightarrow> tame (c, l) cl"
  by (auto simp: removeAndResetChannel_def queue_here_def split_beta Let_def tame_def extends_refl
      delay_ok_def split: option.splits)

lemma removeAndReset_sel:
  assumes "removeAndResetChannel (c, l) = Some (d, c', l')"
  shows "retryDelayMs c' = retryDelayMs c" "ct_connect c' = ct_connect c" "ct_attempts c' = ct_attempts c"
    "ct_handed c' = ct_handed c" "pending l' = pending l @ [ResetChannel]" "time_wheel l' = time_wheel l"
    "ct_closed c' = ct_closed c" "ct_state c' = ct_state c"
    "\<exists>ch. ct_channel c = Some ch \<and> ch_fd ch = d \<and> (\<exists>ch'. ct_channel c' = Some ch' \<and> ch_fd ch' = d)"
proof -
  obtain ch where ch: "ct_channel c = Some ch"
    using assms by (auto simp: removeAndResetChannel_def split: option.splits)
  have fd: "ch_fd (fst (removeChannel (disableAll (ch, p)))) = ch_fd ch" for p
    by (simp add: removeChannel_def disableAll_def updateChannel_def split_beta Let_def)
  show "retryDelayMs c' = retryDelayMs c" "ct_connect c' = ct_connect c" "ct_attempts c' = ct_attempts c"
    "ct_handed c' = ct_handed c" "pending l' = pending l @ [ResetChannel]" "time_wheel l' = time_wheel l"
    "ct_closed c' = ct_closed c" "ct_state c' = ct_state c"
    "\<exists>ch. ct_channel c = Some ch \<and> ch_fd ch = d \<and> (\<exists>ch'. ct_channel c' = Some ch' \<and> ch_fd ch' = d)"
    using assms ch fd
    by (auto simp: removeAndResetChannel_def queue_here_def split_beta Let_def)
qed

lemma tame_remove_retry:
  assumes "removeAndResetChannel (c, l) = Some (d, cl)"
  shows "tame (c, l) (retry junk d' cl)"
  using tame_trans [OF tame_removeAndReset [OF assms]] tame_retry [of "fst cl" "snd cl"] by simp

lemma tame_stop:
  assumes "stopInLoop junk (c, l) = Some cl"
  shows "tame (c, l) cl"
proof (cases "ct_state c = CConnecting")
  case True
  let ?c = "c\<lparr>ct_state := CDisconnected\<rparr>"
  obtain d cl' where "removeAndResetChannel (?c, l) = Some (d, cl')" "cl = retry junk d cl'"
    using assms True by (auto simp: stopInLoop_def split: option.splits)
  moreover have "tame (c, l) (?c, l)" by (simp add: tame_same)
  ultimately show ?thesis using tame_trans tame_remove_retry by metis
next
  case False
  with assms show ?thesis by (simp add: stopInLoop_def tame_same)
qed

lemma tame_error:
  assumes "handleError_connector junk (c, l) = Some cl"
  shows "tame (c, l) cl"
proof (cases "ct_state c = CConnecting")
  case True
  then show ?thesis
    using assms tame_remove_retry by (auto simp: handleError_connector_def split: option.splits)
next
  case False
  with assms show ?thesis by (simp add: handleError_connector_def tame_same)
qed

lemma tame_write:
  assumes "handleWrite_connector junk e (c, l) = Some cl"
  shows "tame (c, l) cl"
proof -
  consider (idle) "cl = (c, l)"
    | (failed) d c1 l1 d' where "removeAndResetChannel (c, l) = Some (d, c1, l1)" "cl = retry junk d' (c1, l1)"
    | (handed) c1 l1 where "cl = (c1, l1)" "retryDelayMs c1 = retryDelayMs c" "time_wheel l1 = time_wheel l"
        "pending l1 = pending l"
    | (closed) d c1 l1 d' where "removeAndResetChannel (c, l) = Some (d, c1, l1)" "cl = (ct_close d' c1, l1)"
    using assms
    by (auto simp: handleWrite_connector_def split_beta Let_def split: if_splits option.splits)
  then show ?thesis
  proof cases
    case failed
    then show ?thesis using tame_remove_retry by blast
  next
    case closed
    then show ?thesis using tame_trans [OF tame_removeAndReset tame_same] by fastforce
  qed (simp_all add: tame_same)
qed

definition connector_inv :: "connector option \<Rightarrow> bool" where
  "connector_inv s = (case s of None \<Rightarrow> True | Some c \<Rightarrow> delay_ok c)"

lemma connector_run_tame:
  "\<exists>cl. tame (c, l) cl \<and> connector_run junk f (Some c, l) = (Some (fst cl), snd cl)
    \<or> connector_run junk f (Some c, l) = (None, l)"
proof -
  have "tame (c, l) (startInLoop junk (c, l))"
    using tame_connect by (simp add: startInLoop_def tame_same)
  moreover have "tame (c, l) (resetChannel (c, l))" by (simp add: resetChannel_def tame_same)
  ultimately show ?thesis
    using tame_stop [of junk c l] tame_error [of junk c l] tame_write [of junk _ c l]
    by (cases f) (auto split: option.splits prod.splits)
qed

interpretation ct: loop_client "connector_run junk" connector_inv for junk
proof
  fix s :: "connector option" and l :: "connector_functor eloop" and f
  assume inv: "connector_inv s" and live: "wheel_live (time_wheel l)"
  show "extends (time_wheel l) (time_wheel (snd (connector_run junk f (s, l))))"
    and "connector_inv (fst (connector_run junk f (s, l)))"
    and "\<exists>new. pending (snd (connector_run junk f (s, l))) = pending l @ new"
    using inv live connector_run_tame [of "the s" l junk f]
    by (cases s; auto simp: extends_refl connector_inv_def tame_def)+
qed

section \<open>Retrying\<close>

lemma retry_effect:
  assumes "ct_connect c" and "0 \<le> retryDelayMs c"
  shows "retryDelayMs (fst (retry junk d (c, l))) = min (retryDelayMs c * 2) kMaxRetryDelayMs"
    and "ct_connect (fst (retry junk d (c, l)))"
    and "ct_attempts (fst (retry junk d (c, l))) = ct_attempts c"
    and "ct_script (fst (retry junk d (c, l))) = ct_script c"
    and "ct_closed (fst (retry junk d (c, l))) = ct_closed c @ [d]"
    and "pending (snd (retry junk d (c, l))) = pending l @ [StartInLoop]"
    and "calling (snd (retry junk d (c, l))) = calling l"
    and "time_wheel (snd (retry junk d (c, l)))
      = snd (snd (addTask (\<lambda>_ sw. sw) (retryDelayMs c) StartInLoop junk ((), time_wheel l)))"
  using assms
  by (simp_all add: retry_def Let_def queue_here_def after_here_eq addTask_def queueInLoop_def
      enqueue_def wakeup_def)

lemma after_here_fst: "fst (after_here junk ms f (c, l)) = c"
  by (auto simp: after_here_def runAfter_def addTask_def wheel_run_def split_beta Let_def)

lemma stopped_retry: "\<not> ct_connect c \<Longrightarrow> retry junk d (c, l) = ((ct_close d c)\<lparr>ct_state := CDisconnected\<rparr>, l)"
  by (simp add: retry_def Let_def)

lemma retry_channel:
  assumes "retry junk d (c, l) = (c2, l2)"
  shows "ct_channel c2 = ct_channel c \<and> ct_closed c2 = ct_closed c @ [d]"
proof (cases "ct_connect c")
  case True
  let ?c1 = "(ct_close d c)\<lparr>ct_state := CDisconnected\<rparr>"
  obtain l3 where a: "after_here junk (retryDelayMs ?c1) StartInLoop (queue_here StartInLoop (?c1, l)) = (?c1, l3)"
    using after_here_fst [of junk "retryDelayMs ?c1" StartInLoop ?c1]
    by (cases "after_here junk (retryDelayMs ?c1) StartInLoop (queue_here StartInLoop (?c1, l))")
       (simp add: queue_here_def, metis fst_conv)
  have "(c2, l2) = (?c1\<lparr>retryDelayMs := min (retryDelayMs ?c1 * 2) kMaxRetryDelayMs\<rparr>, l3)"
    using assms True unfolding retry_def Let_def prod.case a by simp
  then show ?thesis by simp
next
  case False
  then show ?thesis using assms by (auto simp: stopped_retry)
qed

text \<open>How many tasks a wheel holds.\<close>

definition wheel_size :: "'f wheel \<Rightarrow> nat" where
  "wheel_size w = sum_list (map length (slots w))"

lemma wheel_size_addTask:
  assumes "wheel_wf w" and "0 \<le> ms"
  shows "wheel_size (snd (snd (addTask cb ms f junk (s, w)))) = wheel_size w + 1"
proof -
  let ?k = "nat (slot_for (w\<lparr>next_id := next_id w + 1\<rparr>) ms)"
  have "slot_for (w\<lparr>next_id := next_id w + 1\<rparr>) ms = slot_for w ms" by (simp add: slot_for_def)
  then have k: "?k < length (slots w)"
    using slot_for_range [OF assms] assms(1) by (auto simp: wheel_wf_def)
  have "sum_list ((map length (slots w))[?k := Suc (length (slots w ! ?k))])
      = sum_list (map length (slots w)) + Suc (length (slots w ! ?k)) - length (slots w ! ?k)"
    using k by (simp add: sum_list_update)
  then show ?thesis
    using assms(2) by (simp add: addTask_def Let_def wheel_size_def push_slot_def map_update slot_for_def)
qed

definition failing :: "connector \<Rightarrow> bool" where
  "failing c \<longleftrightarrow> (\<forall>i. connect_case (snd (ct_script c i)) = TryAgain)"

text \<open>A connector between two failed attempts, in a loop with a healthy wheel.\<close>

definition retrying :: "connector \<Rightarrow> connector_functor eloop \<Rightarrow> bool" where
  "retrying c l \<longleftrightarrow> ct_connect c \<and> failing c \<and> delay_ok c \<and> pending l = [StartInLoop]
     \<and> wheel_live (time_wheel l)"

lemma retrying_round:
  assumes "retrying c l"
  shows "\<exists>c' l'. doPendingFunctors (connector_run junk) (Some c, l) = (Some c', l') \<and> retrying c' l'
    \<and> ct_attempts c' = ct_attempts c + 1 \<and> wheel_size (time_wheel l') = wheel_size (time_wheel l) + 1"
proof -
  obtain d e where s: "ct_script c (ct_attempts c) = (d, e)" by (cases "ct_script c (ct_attempts c)")
  have case_e: "connect_case e = TryAgain" using assms s by (metis failing_def retrying_def snd_conv)
  let ?c1 = "c\<lparr>ct_attempts := ct_attempts c + 1\<rparr>" and ?l1 = "l\<lparr>calling := True, pending := []\<rparr>"
  have prem: "ct_connect ?c1" "0 \<le> retryDelayMs ?c1"
    using assms by (simp_all add: retrying_def delay_ok_def)
  note eff = retry_effect [OF prem, of junk d ?l1]
  obtain c2 l2 where r: "retry junk d (?c1, ?l1) = (c2, l2)" by (cases "retry junk d (?c1, ?l1)")
  have run: "doPendingFunctors (connector_run junk) (Some c, l) = (Some c2, l2\<lparr>calling := False\<rparr>)"
    using assms r by (simp add: doPendingFunctors_def retrying_def startInLoop_def connect_def s case_e Let_def)
  have tame: "tame (?c1, ?l1) (c2, l2)" using tame_retry [of ?c1 ?l1 junk d] r by simp
  have live: "delay_ok ?c1" "wheel_live (time_wheel ?l1)" using assms by (simp_all add: retrying_def delay_ok_def)
  have "delay_ok c2 \<and> wheel_live (time_wheel l2)"
    using tame live extends_live by (auto simp: tame_def)
  then have "retrying c2 (l2\<lparr>calling := False\<rparr>)"
    using eff r assms by (simp add: retrying_def failing_def)
  moreover have "wheel_size (time_wheel l2) = wheel_size (time_wheel l) + 1"
    using eff(8) r assms by (simp add: wheel_size_addTask retrying_def delay_ok_def wheel_live_def)
  ultimately show ?thesis using run eff(3) r by auto
qed

lemma retrying_rounds:
  "retrying c l \<Longrightarrow> \<exists>c' l'. (doPendingFunctors (connector_run junk) ^^ n) (Some c, l) = (Some c', l') \<and> retrying c' l'
    \<and> ct_attempts c' = ct_attempts c + n \<and> wheel_size (time_wheel l') = wheel_size (time_wheel l) + n"
proof (induction n)
  case (Suc n)
  then obtain c1 l1 where "(doPendingFunctors (connector_run junk) ^^ n) (Some c, l) = (Some c1, l1)"
      "retrying c1 l1" "ct_attempts c1 = ct_attempts c + n"
      "wheel_size (time_wheel l1) = wheel_size (time_wheel l) + n"
    by blast
  with retrying_round [of c1 l1 junk] show ?case by auto
qed simp

text \<open>A stopped connector, under whatever its loop runs.\<close>

definition stopped_like :: "connector \<Rightarrow> connector \<Rightarrow> bool" where
  "stopped_like c c' \<longleftrightarrow> \<not> ct_connect c' \<and> ct_attempts c' = ct_attempts c \<and> ct_handed c' = ct_handed c"

lemma stopped_run:
  assumes "\<not> ct_connect c" and "connector_run junk f (Some c, l) = (Some c', l')"
  shows "stopped_like c c'"
proof -
  have stays: "stopped_like c c" using assms(1) by (simp add: stopped_like_def)
  have rm: "stopped_like c c1 \<and> stopped_like c (ct_close d' c1)
      \<and> (retry junk d' (c1, l1) = (c2, l2) \<longrightarrow> stopped_like c c2)"
    if "removeAndResetChannel (c0, l) = Some (d, c1, l1)" and "ct_connect c0 = ct_connect c"
      and "ct_attempts c0 = ct_attempts c" and "ct_handed c0 = ct_handed c" for c0 d d' c1 l1 c2 l2
    using removeAndReset_sel(2-4) [OF that(1)] that assms(1)
    by (auto simp: stopped_like_def stopped_retry)
  show ?thesis
  proof (cases f)
    case (Writable e)
    then show ?thesis
      using assms stays
      by (auto simp: handleWrite_connector_def split: option.splits if_splits prod.splits
          dest: rm [OF _ refl refl refl])
  next
    case Failed
    then show ?thesis
      using assms stays
      by (auto simp: handleError_connector_def split: option.splits if_splits prod.splits
          dest: rm [OF _ refl refl refl])
  next
    case StopInLoop
    then show ?thesis
      using assms stays rm [of "c\<lparr>ct_state := CDisconnected\<rparr>"]
      by (auto simp: stopInLoop_def split: option.splits if_splits prod.splits)
  qed (use assms stays in \<open>auto simp: startInLoop_def resetChannel_def stopped_like_def\<close>)
qed

lemma crashed_stays: "fold (connector_run junk) fs (None, l) = (None, l)"
  by (induction fs) simp_all

section \<open>Properties of the connector\<close>



text \<open>C40. The delay doubles with every retry and stops at 30 seconds.\<close>

theorem retry_backoff:
  assumes "ct_connect c" and "retryDelayMs c = kInitRetryDelayMs"
  shows "retryDelayMs (fst ((retry junk d ^^ n) (c, l))) = min (kInitRetryDelayMs * 2 ^ n) kMaxRetryDelayMs"
proof -
  have "ct_connect (fst ((retry junk d ^^ n) (c, l)))
      \<and> retryDelayMs (fst ((retry junk d ^^ n) (c, l))) = min (kInitRetryDelayMs * 2 ^ n) kMaxRetryDelayMs"
  proof (induction n)
    case 0
    then show ?case using assms by (simp add: kInitRetryDelayMs_def kMaxRetryDelayMs_def)
  next
    case (Suc n)
    let ?cl = "(retry junk d ^^ n) (c, l)"
    have nonneg: "0 \<le> retryDelayMs (fst ?cl)"
      using Suc by (simp add: kInitRetryDelayMs_def kMaxRetryDelayMs_def)
    show ?case
      using retry_effect(1,2) [of "fst ?cl" junk d "snd ?cl"] Suc nonneg
      by (auto simp: kInitRetryDelayMs_def kMaxRetryDelayMs_def min_def)
  qed
  then show ?thesis by blast
qed

theorem retry_backoff_witness:
  "retryDelayMs (fst ((retry 0 7 ^^ 7) ((new_connector (\<lambda>i. (7, 111)))\<lparr>ct_connect := True\<rparr>, new_loop 0 3 0))) = 30000"
  using retry_backoff [where c = "(new_connector (\<lambda>i. (7, 111)))\<lparr>ct_connect := True\<rparr>" and junk = 0 and d = 7
      and n = 7 and l = "new_loop 0 3 0"]
  by (simp add: new_connector_def kInitRetryDelayMs_def kMaxRetryDelayMs_def)

text \<open>But the delay is not waited for: a retry also queues the next attempt at once, so while
  \<^verbatim>\<open>connect\<close> keeps failing every round of the loop makes one more attempt and leaves one more
  timer in the wheel.\<close>

theorem retries_do_not_wait:
  assumes "retrying c l"
  shows "\<exists>c' l'. (doPendingFunctors (connector_run junk) ^^ n) (Some c, l) = (Some c', l')
    \<and> ct_attempts c' = ct_attempts c + n \<and> wheel_size (time_wheel l') = wheel_size (time_wheel l) + n
    \<and> pending l' = [StartInLoop]"
  using retrying_rounds [OF assms, where junk = junk and n = n] by (auto simp: retrying_def)

theorem retries_do_not_wait_witness:
  "\<exists>c' l'. (doPendingFunctors (connector_run 0) ^^ 9)
      (Some ((new_connector (\<lambda>i. (int i, 111)))\<lparr>ct_connect := True\<rparr>), queueInLoop False StartInLoop (new_loop 0 3 0))
      = (Some c', l') \<and> ct_attempts c' = 9"
proof -
  have "retrying ((new_connector (\<lambda>i. (int i, 111)))\<lparr>ct_connect := True\<rparr>)
      (queueInLoop False StartInLoop (new_loop 0 3 0))"
    by (simp add: retrying_def failing_def connect_case_def delay_ok_def new_connector_def
        kInitRetryDelayMs_def kMaxRetryDelayMs_def)
       (simp add: new_loop_def split_beta wf_new_wheel TIMINGWHEEL_LEN_def)
  from retries_do_not_wait [OF this, where junk = 0 and n = 9] show ?thesis by (auto simp: new_connector_def)
qed

text \<open>After \<^verbatim>\<open>stop()\<close> nothing the loop still runs for the connector, queued functors, timers
  or events, makes another attempt or hands a channel to the client.\<close>

theorem stopped_connector_is_quiet:
  assumes "fold (connector_run junk) fs (Some (fst (stop in_loop (c, l))), l') = (Some c', l'')"
  shows "\<not> ct_connect c' \<and> ct_attempts c' = ct_attempts c \<and> ct_handed c' = ct_handed c"
proof -
  have "\<not> ct_connect c0 \<Longrightarrow> fold (connector_run junk) fs (Some c0, l0) = (Some c1, l1) \<Longrightarrow> stopped_like c0 c1"
    for fs c0 l0 c1 l1
  proof (induction fs arbitrary: c0 l0)
    case (Cons f fs)
    obtain c2 l2 where r: "connector_run junk f (Some c0, l0) = (Some c2, l2)"
      using Cons.prems(2) crashed_stays [of junk fs]
      by (cases "connector_run junk f (Some c0, l0)"; cases "fst (connector_run junk f (Some c0, l0))") auto
    have "stopped_like c0 c2" by (rule stopped_run [OF Cons.prems(1) r])
    moreover from this have "stopped_like c2 c1"
      using Cons.IH [of c2 l2] Cons.prems(2) r by (simp add: stopped_like_def)
    ultimately show ?case by (simp add: stopped_like_def)
  qed (simp add: stopped_like_def)
  from this [OF _ assms] show ?thesis by (simp add: stop_def stopped_like_def)
qed

theorem stopped_connector_is_quiet_witness:
  "ct_attempts (the (fst (fold (connector_run 0) [StopInLoop, StartInLoop]
      (Some (fst (stop True (new_connector (\<lambda>i. (7, 0)), new_loop 0 3 0))), new_loop 0 3 0)))) = 0"
proof -
  have "fold (connector_run 0) [StopInLoop, StartInLoop]
      (Some (fst (stop True (new_connector (\<lambda>i. (7, 0)), new_loop 0 3 0))), new_loop 0 3 0)
    = (Some ((new_connector (\<lambda>i. (7, 0)))\<lparr>ct_connect := False\<rparr>), new_loop 0 3 0)"
    by (simp add: stop_def stopInLoop_def startInLoop_def new_connector_def)
  from stopped_connector_is_quiet [OF this] this show ?thesis by (simp add: new_connector_def)
qed

text \<open>A writable event that arrives between the two halves of \<^verbatim>\<open>stop()\<close> leaves the state at
  connecting with no channel: the \<^verbatim>\<open>stopInLoop\<close> queued after it dereferences a null pointer.\<close>

theorem stop_race_dereferences_null:
  assumes "ct_state c = CConnecting" and "ct_channel c = Some ch" and "\<not> ct_connect c"
  shows "fst (fold (connector_run junk) [Writable 0, ResetChannel, StopInLoop] (Some c, l)) = None"
proof -
  obtain d c1 l1 where r: "removeAndResetChannel (c, l) = Some (d, c1, l1)"
    using assms(2) by (simp add: removeAndResetChannel_def queue_here_def split_beta Let_def)
  have "ct_state c1 = CConnecting" using removeAndReset_sel(8) [OF r] assms(1) by simp
  moreover have "ct_channel (drop_channel x) = None" for x
    by (simp add: drop_channel_def split: option.splits)
  ultimately show ?thesis
    using assms r
    by (simp add: handleWrite_connector_def resetChannel_def stopInLoop_def removeAndResetChannel_def)
qed

theorem stop_race_dereferences_null_witness:
  "fst (fold (connector_run 0) [StartInLoop] (Some ((new_connector (\<lambda>i. (7, 115)))\<lparr>ct_connect := True\<rparr>), new_loop 0 3 0)) \<noteq> None
    \<and> fst (fold (connector_run 0) [Writable 0, ResetChannel, StopInLoop]
        (Some ((new_connector (\<lambda>i. (7, 115)))\<lparr>ct_state := CConnecting, ct_channel := Some (new_channel 0 7)\<rparr>), new_loop 0 3 0)) = None"
  using stop_race_dereferences_null [of "(new_connector (\<lambda>i. (7, 115)))\<lparr>ct_state := CConnecting,
      ct_channel := Some (new_channel 0 7)\<rparr>" "new_channel 0 7" 0 "new_loop 0 3 0"]
  by (simp add: startInLoop_def connect_def connect_case_def connecting_def new_connector_def split_beta Let_def)

text \<open>A connection attempt that fails after \<^verbatim>\<open>EINPROGRESS\<close> closes its descriptor twice: once in
  \<^verbatim>\<open>retry\<close> and once when the queued \<^verbatim>\<open>resetChannel\<close> destroys the channel.\<close>

theorem failed_attempt_closes_twice:
  assumes "ct_state c = CConnecting" and "ct_channel c = Some ch"
  shows "\<exists>c' l'. fold (connector_run junk) [Failed, ResetChannel] (Some c, l) = (Some c', l')
    \<and> ct_closed c' = ct_closed c @ [ch_fd ch, ch_fd ch]"
proof -
  obtain d c1 l1 where r: "removeAndResetChannel (c, l) = Some (d, c1, l1)"
    using assms(2) by (simp add: removeAndResetChannel_def queue_here_def split_beta Let_def)
  obtain ch1 where ch1: "d = ch_fd ch" "ct_closed c1 = ct_closed c" "ct_channel c1 = Some ch1" "ch_fd ch1 = ch_fd ch"
    using removeAndReset_sel(7,9) [OF r] assms(2) by auto
  obtain c2 l2 where r2: "retry junk d (c1, l1) = (c2, l2)" by (cases "retry junk d (c1, l1)")
  have "ct_closed c2 = ct_closed c @ [d]" "ct_channel c2 = Some ch1"
    using retry_channel [OF r2] ch1 by simp_all
  then show ?thesis
    using assms r r2 ch1 by (simp add: handleError_connector_def resetChannel_def drop_channel_def)
qed

theorem failed_attempt_closes_twice_witness:
  "\<exists>c' l'. fold (connector_run 0) [Failed, ResetChannel]
     (Some ((new_connector (\<lambda>i. (7, 115)))\<lparr>ct_state := CConnecting, ct_channel := Some (new_channel 0 7)\<rparr>), new_loop 0 3 0)
     = (Some c', l') \<and> ct_closed c' = [7, 7]"
  using failed_attempt_closes_twice [of "(new_connector (\<lambda>i. (7, 115)))\<lparr>ct_state := CConnecting,
      ct_channel := Some (new_channel 0 7)\<rparr>" "new_channel 0 7" 0 "new_loop 0 3 0"]
  by (simp add: new_connector_def) (simp add: new_channel_def)

end
