(* ===== verification/InetAddress.thy ===== *)
theory InetAddress
  imports Prelude
begin

text \<open>
  \<^verbatim>\<open>InetAddress\<close> (\<^verbatim>\<open>gdrpc/net/inet_address.hpp\<close>, \<^verbatim>\<open>inet_address.cpp\<close>): an IPv4 socket
  address, with port and address as the bytes that lie in the \<^verbatim>\<open>sockaddr_in\<close>.

  Of the C library the class uses \<^verbatim>\<open>htons\<close>, \<^verbatim>\<open>inet_ntop\<close> and \<^verbatim>\<open>inet_addr\<close>. The last reads a
  dotted quad of decimal numbers as \<open>parse_quad\<close> does; what it makes of any other text is the
  parameter \<open>other\<close>.
\<close>

unbundle bit_operations_syntax

record inet_address =
  sin_port :: "byte \<times> byte"
  sin_addr :: "byte \<times> byte \<times> byte \<times> byte"

definition htons :: "16 word \<Rightarrow> byte \<times> byte" where
  "htons p = (ucast (drop_bit 8 p), ucast p)"

definition ntohs :: "byte \<times> byte \<Rightarrow> 16 word" where
  "ntohs = (\<lambda>(hi, lo). push_bit 8 (ucast hi) OR ucast lo)"

definition show_byte :: "byte \<Rightarrow> string" where
  "show_byte b = show_nat (unat b)"

definition inet_ntop :: "byte \<times> byte \<times> byte \<times> byte \<Rightarrow> string" where
  "inet_ntop = (\<lambda>(a, b, c, d). show_byte a @ CHR ''.'' # show_byte b @ CHR ''.'' # show_byte c
     @ CHR ''.'' # show_byte d)"

text \<open>A number of a canonical dotted quad: decimal, without leading zeros, below 256.\<close>

definition parse_byte :: "string \<Rightarrow> byte option" where
  "parse_byte s =
     (if read_digits s < 256 \<and> show_nat (read_digits s) = s then Some (of_nat (read_digits s)) else None)"

definition parse_quad :: "string \<Rightarrow> (byte \<times> byte \<times> byte \<times> byte) option" where
  "parse_quad s =
     (case map parse_byte (split_at (CHR ''.'') s) of
        [Some a, Some b, Some c, Some d] \<Rightarrow> Some (a, b, c, d)
      | _ \<Rightarrow> None)"

definition inet_addr :: "(string \<Rightarrow> byte \<times> byte \<times> byte \<times> byte) \<Rightarrow> string
    \<Rightarrow> byte \<times> byte \<times> byte \<times> byte" where
  "inet_addr other ip = (case parse_quad ip of Some q \<Rightarrow> q | None \<Rightarrow> other ip)"

definition new_inet :: "(string \<Rightarrow> byte \<times> byte \<times> byte \<times> byte) \<Rightarrow> 16 word \<Rightarrow> string \<Rightarrow> inet_address" where
  "new_inet other port ip = \<lparr>sin_port = htons port, sin_addr = inet_addr other ip\<rparr>"

definition toIp :: "inet_address \<Rightarrow> string" where
  "toIp a = inet_ntop (sin_addr a)"

definition toPort :: "inet_address \<Rightarrow> 16 word" where
  "toPort a = ntohs (sin_port a)"

definition toIpPort :: "inet_address \<Rightarrow> string" where
  "toIpPort a = inet_ntop (sin_addr a) @ CHR '':'' # show_nat (unat (toPort a))"

lemma unat_byte_less: "unat (b :: byte) < 256"
  using unsigned_less [of b, where 'a = nat] by simp

lemma ntohs_htons [simp]: "ntohs (htons p) = p"
  unfolding ntohs_def htons_def
  by (rule bit_word_eqI) (auto simp: bit_simps)

lemma parse_show_byte [simp]: "parse_byte (show_byte b) = Some b"
  using unat_byte_less [of b] by (simp add: parse_byte_def show_byte_def)

lemma dot_not_digit: "CHR ''.'' \<notin> set (show_byte b)"
  using show_nat_digits [of "CHR ''.''" "unat b"] by (auto simp: show_byte_def is_digit_def)

lemma parse_quad_inet_ntop [simp]: "parse_quad (inet_ntop q) = Some q"
proof -
  obtain a b c d where "q = (a, b, c, d)" by (cases q)
  then show ?thesis
    by (simp add: parse_quad_def inet_ntop_def split_at_append dot_not_digit
        split_at_no_sep [OF dot_not_digit])
qed

lemma length_show_byte: "length (show_byte b) \<le> 3"
  using length_show_nat [of "unat b" 2] unat_byte_less [of b] by (simp add: show_byte_def eval_nat_numeral)

lemma length_toIpPort: "length (toIpPort a) \<le> 21"
proof -
  have "unat (toPort a) < 10 ^ Suc 4" using unsigned_less [of "toPort a", where 'a = nat] by simp
  then have "length (show_nat (unat (toPort a))) \<le> 5" using length_show_nat [of _ 4] by fastforce
  moreover obtain b1 b2 b3 b4 where "sin_addr a = (b1, b2, b3, b4)" by (cases "sin_addr a")
  ultimately show ?thesis
    using length_show_byte [of b1] length_show_byte [of b2] length_show_byte [of b3] length_show_byte [of b4]
    by (simp add: toIpPort_def inet_ntop_def)
qed

section \<open>Properties of addresses\<close>

text \<open>An address built from a port and a dotted quad gives both back, in text and as numbers, and
  two addresses with the same text are the same address.\<close>

theorem inet_address_roundtrip:
  "toIp (new_inet other port (inet_ntop q)) = inet_ntop q
    \<and> toPort (new_inet other port (inet_ntop q)) = port
    \<and> toIpPort (new_inet other port (inet_ntop q)) = inet_ntop q @ '':'' @ show_nat (unat port)
    \<and> (inet_ntop q = inet_ntop q' \<longleftrightarrow> q = q')"
proof -
  have "inet_ntop q = inet_ntop q' \<longleftrightarrow> q = q'" by (metis option.inject parse_quad_inet_ntop)
  then show ?thesis by (simp add: toIp_def toPort_def toIpPort_def new_inet_def inet_addr_def)
qed

end
