(* ===== verification/Callbacks.thy ===== *)
theory Callbacks
  imports InetAddress
begin

text \<open>
  The callbacks of the user that \<^verbatim>\<open>TcpServer\<close> and \<^verbatim>\<open>TcpClient\<close> keep and hand to each connection they
  make (\<^verbatim>\<open>gdrpc/net/callback.hpp\<close>), and the contract the two share: a connection gets those in force
  when it is made and keeps them. A \<^verbatim>\<open>std::function\<close> is the number of its target, or empty.
\<close>

record callbacks =
  connectionCallback_of :: "nat option"
  messageCallback_of :: "nat option"
  writeCompleteCallback_of :: "nat option"

definition no_callbacks :: callbacks where
  "no_callbacks = \<lparr>connectionCallback_of = None, messageCallback_of = None, writeCompleteCallback_of = None\<rparr>"

datatype callback_slot = ConnectionSlot | MessageSlot | WriteCompleteSlot

definition set_callback :: "callback_slot \<Rightarrow> nat \<Rightarrow> callbacks \<Rightarrow> callbacks" where
  "set_callback slot f cb =
     (case slot of
        ConnectionSlot \<Rightarrow> cb\<lparr>connectionCallback_of := Some f\<rparr>
      | MessageSlot \<Rightarrow> cb\<lparr>messageCallback_of := Some f\<rparr>
      | WriteCompleteSlot \<Rightarrow> cb\<lparr>writeCompleteCallback_of := Some f\<rparr>)"

section \<open>The contract\<close>

text \<open>
  \<open>effect\<close> is what an operation does to the callbacks in force, \<open>given\<close> those of each connection made,
  and \<open>makes\<close> says which connection an operation makes.
\<close>

locale callback_owner =
  fixes step :: "'op \<Rightarrow> 's \<Rightarrow> 's option"
    and run :: "'op list \<Rightarrow> 's \<Rightarrow> 's option"
    and effect :: "'op \<Rightarrow> callbacks \<Rightarrow> callbacks"
    and current :: "'s \<Rightarrow> callbacks"
    and given :: "'s \<Rightarrow> nat \<Rightarrow> callbacks option"
    and makes :: "'op \<Rightarrow> 's \<Rightarrow> nat option"
  assumes run_nil: "run [] s = Some s"
    and run_cons: "run (op # ops) s = Option.bind (step op s) (run ops)"
    and step_current: "step op s = Some s' \<Longrightarrow> current s' = effect op (current s)"
    and step_given: "step op s = Some s' \<Longrightarrow> given s' i = Some cb
      \<Longrightarrow> given s i = Some cb \<or> makes op s = Some i \<and> cb = current s"
begin

lemma run_current: "run ops s = Some s' \<Longrightarrow> current s' = fold effect ops (current s)"
proof (induction ops arbitrary: s)
  case (Cons op ops)
  then obtain s1 where "step op s = Some s1" "run ops s1 = Some s'" by (auto simp: run_cons bind_eq_Some_conv)
  then show ?case using Cons.IH step_current by simp
qed (simp add: run_nil)

lemma run_snoc: "run (ops @ [op]) s = Option.bind (run ops s) (step op)"
proof (induction ops arbitrary: s)
  case Nil
  have "Option.bind (step op s) (run []) = step op s" by (cases "step op s") (simp_all add: run_nil)
  then show ?case by (simp add: run_nil run_cons)
next
  case (Cons op' ops)
  then show ?case by (cases "step op' s") (simp_all add: run_cons)
qed

lemma given_when_made:
  assumes "run ops s = Some s'" and "given s' i = Some cb" and "given s i = None"
  shows "\<exists>pre op post s1. ops = pre @ op # post \<and> run pre s = Some s1 \<and> makes op s1 = Some i
    \<and> cb = fold effect pre (current s)"
  using assms(1,2)
proof (induction ops arbitrary: s' rule: rev_induct)
  case Nil
  then show ?case using assms(3) by (simp add: run_nil)
next
  case (snoc op ops)
  then obtain s1 where s1: "run ops s = Some s1" "step op s1 = Some s'" by (auto simp: run_snoc bind_eq_Some_conv)
  consider "given s1 i = Some cb" | "makes op s1 = Some i" "cb = current s1" using step_given [OF s1(2) snoc.prems(2)] by blast
  then show ?case
  proof cases
    case 1
    obtain pre op' post s2 where "ops = pre @ op' # post" "run pre s = Some s2" "makes op' s2 = Some i"
        "cb = fold effect pre (current s)" using snoc.IH [OF s1(1) 1] by blast
    then show ?thesis by (metis append_Cons append_assoc)
  next
    case 2
    then show ?thesis using s1(1) run_current [OF s1(1)] by blast
  qed
qed

end

end
