(* ===== verification/TcpServer.thy ===== *)
theory TcpServer
  imports LoopPool Callbacks
begin

text \<open>
  \<^verbatim>\<open>TcpServer\<close> (\<^verbatim>\<open>gdrpc/net/tcpServer.hpp\<close>, \<^verbatim>\<open>tcpServer.cpp\<close>) and \<^verbatim>\<open>Acceptor\<close>
  (\<^verbatim>\<open>gdrpc/net/acceptor.hpp\<close>, \<^verbatim>\<open>acceptor.cpp\<close>): the map of connections by name, the choice of
  a loop for each, and the functors that travel between the base loop and the loops of the
  connections.

  A connection object is a number, counted up; of the object the record keeps the name, the
  loop and the calls made on it. The queue of every loop holds the functors not yet run. The
  close callback of a connection runs in the thread of its own loop.
\<close>

section \<open>State\<close>

datatype conn_call = CallEstablished | CallDestroyed

record server_conn =
  sc_name :: string
  sc_loop :: nat
  sc_fd :: fd
  sc_callbacks :: callbacks
  sc_calls :: "conn_call list"

datatype server_functor = RunListen | RunEstablished nat | RunDestroyed nat | RunRemoveRef nat

record server =
  sv_addr :: inet_address
  sv_name :: string
  sv_pool :: loop_pool
  started_count :: int
  nextConnId :: nat
  connections :: "string \<rightharpoonup> nat"
  sv_listening :: bool
  sv_objects :: "nat \<rightharpoonup> server_conn"
  sv_queues :: "nat \<Rightarrow> server_functor list"
  sv_closed :: "fd list"
  sv_callbacks :: callbacks
  sv_threadInit :: bool

definition new_server :: "nat \<Rightarrow> inet_address \<Rightarrow> string \<Rightarrow> server" where
  "new_server base_loop addr name =
     \<lparr>sv_addr = addr, sv_name = name, sv_pool = new_pool base_loop name, started_count = 0,
      nextConnId = 1, connections = Map.empty, sv_listening = False, sv_objects = Map.empty,
      sv_queues = (\<lambda>_. []), sv_closed = [],
      sv_callbacks = no_callbacks, sv_threadInit = False\<rparr>"

definition setThreadNum :: "int \<Rightarrow> server \<Rightarrow> server" where
  "setThreadNum n s = s\<lparr>sv_pool := setThreadNum_pool n (sv_pool s)\<rparr>"

text \<open>The callbacks of the user; a new one takes the place of the old.\<close>

definition setConnectionCallback :: "nat \<Rightarrow> server \<Rightarrow> server" where
  "setConnectionCallback f s = s\<lparr>sv_callbacks := set_callback ConnectionSlot f (sv_callbacks s)\<rparr>"

definition setMessageCallback :: "nat \<Rightarrow> server \<Rightarrow> server" where
  "setMessageCallback f s = s\<lparr>sv_callbacks := set_callback MessageSlot f (sv_callbacks s)\<rparr>"

definition setWriteCompleteCallback :: "nat \<Rightarrow> server \<Rightarrow> server" where
  "setWriteCompleteCallback f s = s\<lparr>sv_callbacks := set_callback WriteCompleteSlot f (sv_callbacks s)\<rparr>"

definition setThreadInitCallback :: "server \<Rightarrow> server" where
  "setThreadInitCallback s = s\<lparr>sv_threadInit := True\<rparr>"

definition set_user_callback :: "callback_slot \<Rightarrow> nat \<Rightarrow> server \<Rightarrow> server" where
  "set_user_callback slot f =
     (case slot of
        ConnectionSlot \<Rightarrow> setConnectionCallback f
      | MessageSlot \<Rightarrow> setMessageCallback f
      | WriteCompleteSlot \<Rightarrow> setWriteCompleteCallback f)"

lemma set_user_callback: "set_user_callback slot f s = s\<lparr>sv_callbacks := set_callback slot f (sv_callbacks s)\<rparr>"
  by (cases slot) (simp_all add: set_user_callback_def setConnectionCallback_def setMessageCallback_def
      setWriteCompleteCallback_def)

section \<open>Operations\<close>

definition queue_on :: "nat \<Rightarrow> server_functor \<Rightarrow> server \<Rightarrow> server" where
  "queue_on l f s = s\<lparr>sv_queues := (sv_queues s)(l := sv_queues s l @ [f])\<rparr>"

definition call_conn :: "conn_call \<Rightarrow> nat \<Rightarrow> server \<Rightarrow> server" where
  "call_conn k i s =
     s\<lparr>sv_objects := (sv_objects s)(i := map_option (\<lambda>c. c\<lparr>sc_calls := sc_calls c @ [k]\<rparr>) (sv_objects s i))\<rparr>"

definition acceptor_listen :: "server \<Rightarrow> server" where
  "acceptor_listen s = s\<lparr>sv_listening := True\<rparr>"

definition start_server :: "(nat \<Rightarrow> nat) \<Rightarrow> bool \<Rightarrow> server \<Rightarrow> server" where
  "start_server start_loop in_base s =
     (let s1 = s\<lparr>started_count := started_count s + 1\<rparr> in
      if started_count s = 0
      then let s2 = s1\<lparr>sv_pool := fst (start_pool start_loop (sv_threadInit s1) (sv_pool s1))\<rparr>
           in if in_base then acceptor_listen s2 else queue_on (baseLoop (sv_pool s2)) RunListen s2
      else s1)"

text \<open>\<^verbatim>\<open>snprintf\<close> into \<^verbatim>\<open>char buf[64]\<close> keeps 63 characters.\<close>

definition conn_name :: "server \<Rightarrow> nat \<Rightarrow> string" where
  "conn_name s i = sv_name s @ take 63 (''-'' @ toIpPort (sv_addr s) @ ''#'' @ show_nat i)"

text \<open>
  \<^verbatim>\<open>newConnection\<close> runs in the base loop: \<^verbatim>\<open>runInLoop\<close> on the base loop itself runs at once.
\<close>

definition newConnection :: "fd \<Rightarrow> server \<Rightarrow> server" where
  "newConnection sockfd s =
     (let (ioLoop, pool) = getNextLoop (sv_pool s);
          i = nextConnId s;
          name = conn_name s i;
          s1 = s\<lparr>sv_pool := pool, nextConnId := i + 1,
                 sv_objects := (sv_objects s)(i \<mapsto> \<lparr>sc_name = name, sc_loop = ioLoop, sc_fd = sockfd,
                   sc_callbacks = sv_callbacks s, sc_calls = []\<rparr>),
                 connections := (connections s)(name \<mapsto> i)\<rparr>
      in if ioLoop = baseLoop pool then call_conn CallEstablished i s1
         else queue_on ioLoop (RunEstablished i) s1)"

definition removeConnectionInLoop :: "nat \<Rightarrow> server \<Rightarrow> server" where
  "removeConnectionInLoop i s =
     (case sv_objects s i of
        None \<Rightarrow> s
      | Some c \<Rightarrow> queue_on (sc_loop c) (RunDestroyed i) (s\<lparr>connections := (connections s)(sc_name c := None)\<rparr>))"

text \<open>
  The close callback: \<^verbatim>\<open>[&]\<close> captures the reference to the connection pointer, a local
  variable of \<^verbatim>\<open>handleClose\<close>. In the base loop the functor runs at once; in any other loop it
  is queued, and when it runs \<open>frame_alive\<close> says whether \<^verbatim>\<open>handleClose\<close> has not yet returned.
\<close>

definition closeCallback :: "nat \<Rightarrow> server \<Rightarrow> server" where
  "closeCallback i s =
     (case sv_objects s i of
        None \<Rightarrow> s
      | Some c \<Rightarrow>
          if sc_loop c = baseLoop (sv_pool s) then removeConnectionInLoop i s
          else queue_on (baseLoop (sv_pool s)) (RunRemoveRef i) s)"

definition run_server_functor :: "bool \<Rightarrow> server_functor \<Rightarrow> server \<Rightarrow> server option" where
  "run_server_functor frame_alive f s =
     (case f of
        RunListen \<Rightarrow> Some (acceptor_listen s)
      | RunEstablished i \<Rightarrow> Some (call_conn CallEstablished i s)
      | RunDestroyed i \<Rightarrow> Some (call_conn CallDestroyed i s)
      | RunRemoveRef i \<Rightarrow> if frame_alive then Some (removeConnectionInLoop i s) else None)"

definition run_queued :: "nat \<Rightarrow> bool \<Rightarrow> server \<Rightarrow> server option" where
  "run_queued l frame_alive s =
     (case sv_queues s l of
        [] \<Rightarrow> Some s
      | f # fs \<Rightarrow> run_server_functor frame_alive f (s\<lparr>sv_queues := (sv_queues s)(l := fs)\<rparr>))"

text \<open>\<^verbatim>\<open>Acceptor::handleRead\<close>; the server always sets the callback, so the socket is never closed here.\<close>

definition acceptor_handleRead :: "int \<Rightarrow> server \<Rightarrow> server" where
  "acceptor_handleRead connfd s = (if connfd \<ge> 0 then newConnection connfd s else s)"

text \<open>The destructor hands every connection still in the map to its loop.\<close>

definition destroy_server :: "server \<Rightarrow> server" where
  "destroy_server s =
     fold (\<lambda>i s. case sv_objects s i of
             None \<Rightarrow> s
           | Some c \<Rightarrow> if sc_loop c = baseLoop (sv_pool s) then call_conn CallDestroyed i s
                       else queue_on (sc_loop c) (RunDestroyed i) s)
       (filter (\<lambda>i. case sv_objects s i of None \<Rightarrow> False | Some c \<Rightarrow> connections s (sc_name c) = Some i)
          [1..<nextConnId s]) s"

section \<open>What happens to a server\<close>

text \<open>
  A close of the connection \<open>i\<close> calls \<open>closeCallback\<close>, unguarded, whatever happened before: a second
  close queues a second removal, as in the code.
\<close>

datatype server_op = Accept int | ConnCloses nat | RunHead nat bool | SetCallback callback_slot nat

definition server_apply :: "server_op \<Rightarrow> server \<Rightarrow> server option" where
  "server_apply op s =
     (case op of
        Accept d \<Rightarrow> Some (acceptor_handleRead d s)
      | ConnCloses i \<Rightarrow> Some (closeCallback i s)
      | RunHead l alive \<Rightarrow> run_queued l alive s
      | SetCallback slot f \<Rightarrow> Some (set_user_callback slot f s))"

fun server_run :: "server_op list \<Rightarrow> server \<Rightarrow> server option" where
  "server_run [] s = Some s"
| "server_run (op # ops) s = Option.bind (server_apply op s) (server_run ops)"

text \<open>
  What the connections promise the server (\<open>up_then_down_once\<close> of \<^verbatim>\<open>TcpConn\<close>): the close callback of a
  connection comes once, after it was established. \<open>closes_once\<close> says so of a run.
\<close>

definition may_close :: "nat \<Rightarrow> server \<Rightarrow> bool" where
  "may_close i s = (case sv_objects s i of
     None \<Rightarrow> False
   | Some c \<Rightarrow> sc_calls c = [CallEstablished] \<and> connections s (sc_name c) = Some i
        \<and> RunRemoveRef i \<notin> set (sv_queues s (baseLoop (sv_pool s))))"

fun closes_once :: "server_op list \<Rightarrow> server \<Rightarrow> bool" where
  "closes_once [] s = True"
| "closes_once (op # ops) s = ((case op of ConnCloses i \<Rightarrow> may_close i s | _ \<Rightarrow> True)
     \<and> (case server_apply op s of None \<Rightarrow> True | Some s' \<Rightarrow> closes_once ops s'))"

text \<open>
  The timeline of a connection: the calls made on it, then those queued for it in its loop. An
  object is in the map, under its own name, until it is removed; its timeline says so.
\<close>

fun call_of :: "nat \<Rightarrow> server_functor \<Rightarrow> conn_call list" where
  "call_of i (RunEstablished j) = (if i = j then [CallEstablished] else [])"
| "call_of i (RunDestroyed j) = (if i = j then [CallDestroyed] else [])"
| "call_of i f = []"

definition timeline :: "server \<Rightarrow> nat \<Rightarrow> server_conn \<Rightarrow> conn_call list" where
  "timeline s i c = sc_calls c @ concat (map (call_of i) (sv_queues s (sc_loop c)))"

definition in_map :: "server \<Rightarrow> nat \<Rightarrow> server_conn \<Rightarrow> bool" where
  "in_map s i c \<longleftrightarrow> connections s (sc_name c) = Some i"

definition removals :: "server \<Rightarrow> nat \<Rightarrow> nat" where
  "removals s i = count_list (sv_queues s (baseLoop (sv_pool s))) (RunRemoveRef i)"

definition object_ok :: "server \<Rightarrow> nat \<Rightarrow> server_conn \<Rightarrow> bool" where
  "object_ok s i c \<longleftrightarrow> sc_name c = conn_name s i
     \<and> timeline s i c = (if in_map s i c then [CallEstablished] else [CallEstablished, CallDestroyed])
     \<and> removals s i \<le> (if in_map s i c then 1 else 0)"

fun functor_ok :: "server \<Rightarrow> nat \<Rightarrow> server_functor \<Rightarrow> bool" where
  "functor_ok s l RunListen = True"
| "functor_ok s l (RunEstablished i) = (\<exists>c. sv_objects s i = Some c \<and> sc_loop c = l)"
| "functor_ok s l (RunDestroyed i) = (\<exists>c. sv_objects s i = Some c \<and> sc_loop c = l)"
| "functor_ok s l (RunRemoveRef i) = (sv_objects s i \<noteq> None \<and> l = baseLoop (sv_pool s))"

definition server_ok :: "server \<Rightarrow> bool" where
  "server_ok s \<longleftrightarrow> 1 \<le> nextConnId s
     \<and> (\<forall>i. sv_objects s i \<noteq> None \<longleftrightarrow> 1 \<le> i \<and> i < nextConnId s)
     \<and> (\<forall>i c. sv_objects s i = Some c \<longrightarrow> object_ok s i c)
     \<and> (\<forall>n i. connections s n = Some i \<longrightarrow> (\<exists>c. sv_objects s i = Some c \<and> sc_name c = n))
     \<and> (\<forall>l. \<forall>f \<in> set (sv_queues s l). functor_ok s l f)"

lemma conn_name_inj:
  assumes "i < 2 ^ 31" and "j < 2 ^ 31" and "conn_name s i = conn_name s j"
  shows "i = j"
proof -
  have "length (show_nat n) \<le> 10" if "n < 2 ^ 31" for n
    using that length_show_nat [of n 9] by simp
  then have short: "take 63 (''-'' @ toIpPort (sv_addr s) @ ''#'' @ show_nat n)
      = ''-'' @ toIpPort (sv_addr s) @ ''#'' @ show_nat n" if "n < 2 ^ 31" for n
    using that length_toIpPort [of "sv_addr s"] by (intro take_all) fastforce
  show ?thesis
    using assms(3) by (simp add: conn_name_def short [OF assms(1)] short [OF assms(2)] show_nat_inj
        del: take_append append.simps)
qed

lemma conn_name_frame [simp]:
  "conn_name (s\<lparr>sv_queues := q\<rparr>) = conn_name s" "conn_name (s\<lparr>sv_objects := ob\<rparr>) = conn_name s"
  "conn_name (s\<lparr>connections := m\<rparr>) = conn_name s" "conn_name (s\<lparr>sv_listening := x\<rparr>) = conn_name s"
  "conn_name (s\<lparr>sv_pool := p\<rparr>) = conn_name s" "conn_name (s\<lparr>sv_callbacks := cb\<rparr>) = conn_name s" "conn_name (s\<lparr>nextConnId := n\<rparr>) = conn_name s"
  by (simp_all add: conn_name_def fun_eq_iff)

lemma getNextLoop_base [simp]: "baseLoop (snd (getNextLoop p)) = baseLoop p"
  by (simp add: getNextLoop_def Let_def)

lemma server_okD:
  assumes "server_ok s" and "sv_objects s i = Some c"
  shows "object_ok s i c" and "i < nextConnId s"
  using assms unfolding server_ok_def by blast+

lemma calls_of_none: "(\<And>f. f \<in> set q \<Longrightarrow> call_of i f = []) \<Longrightarrow> concat (map (call_of i) q) = []"
  by simp

text \<open>No functor of a queue speaks of an object that does not exist, or of one of another loop.\<close>

lemma no_calls:
  assumes "server_ok s" and "\<And>c. sv_objects s i = Some c \<Longrightarrow> sc_loop c \<noteq> l"
  shows "concat (map (call_of i) (sv_queues s l)) = []"
proof (rule calls_of_none)
  fix f assume f: "f \<in> set (sv_queues s l)"
  then have "functor_ok s l f" using assms(1) unfolding server_ok_def by blast
  with assms(2) show "call_of i f = []" by (cases f) auto
qed

lemma no_removal: "server_ok s \<Longrightarrow> sv_objects s i = None \<Longrightarrow> removals s i = 0"
proof -
  assume a: "server_ok s" "sv_objects s i = None"
  have "RunRemoveRef i \<notin> set (sv_queues s (baseLoop (sv_pool s)))"
    using a unfolding server_ok_def by fastforce
  then show ?thesis by (simp add: removals_def count_list_0_iff)
qed

text \<open>A new object, established at once or queued.\<close>

lemma server_ok_newConnection:
  assumes ok: "server_ok s" and bound: "nextConnId s < 2 ^ 31"
  shows "server_ok (newConnection d s)"
proof -
  obtain ioLoop pool where g: "getNextLoop (sv_pool s) = (ioLoop, pool)" by (cases "getNextLoop (sv_pool s)")
  have base: "baseLoop pool = baseLoop (sv_pool s)" using getNextLoop_base [of "sv_pool s"] by (simp add: g)
  let ?i = "nextConnId s"
  let ?s = "newConnection d s"
  have ex: "\<And>i. (sv_objects s i \<noteq> None) = (1 \<le> i \<and> i < ?i)"
    and m: "\<And>n i. connections s n = Some i \<Longrightarrow> \<exists>c. sv_objects s i = Some c \<and> sc_name c = n"
    and q: "\<And>l f. f \<in> set (sv_queues s l) \<Longrightarrow> functor_ok s l f"
    using ok unfolding server_ok_def by blast+
  have fresh: "sv_objects s ?i = None" using ex [of ?i] by auto
  have next1: "1 \<le> ?i" using ok by (simp add: server_ok_def)
  have obj: "sv_objects ?s = (sv_objects s)(?i \<mapsto> \<lparr>sc_name = conn_name s ?i, sc_loop = ioLoop, sc_fd = d,
      sc_callbacks = sv_callbacks s, sc_calls = (if ioLoop = baseLoop pool then [CallEstablished] else [])\<rparr>)"
    and con: "connections ?s = (connections s)(conn_name s ?i \<mapsto> ?i)" and nx: "nextConnId ?s = ?i + 1"
    and qs: "sv_queues ?s = (if ioLoop = baseLoop pool then sv_queues s
        else (sv_queues s)(ioLoop := sv_queues s ioLoop @ [RunEstablished ?i]))"
    and pl: "sv_pool ?s = pool" and cn: "conn_name ?s = conn_name s"
    by (simp_all add: newConnection_def g Let_def call_conn_def queue_on_def conn_name_def fun_eq_iff)
  have new: "object_ok ?s ?i \<lparr>sc_name = conn_name s ?i, sc_loop = ioLoop, sc_fd = d,
      sc_callbacks = sv_callbacks s, sc_calls = (if ioLoop = baseLoop pool then [CallEstablished] else [])\<rparr>"
    using no_calls [OF ok, of ?i ioLoop] no_removal [OF ok fresh] fresh base
    by (auto simp: object_ok_def timeline_def in_map_def removals_def con qs pl cn)
  have old: "object_ok ?s j c" if j: "sv_objects s j = Some c" for j c
  proof -
    have o: "object_ok s j c" and "j < ?i" using server_okD [OF ok j] by auto
    then have "conn_name s j \<noteq> conn_name s ?i" using conn_name_inj [of j ?i s] bound by auto
    then have "in_map ?s j c = in_map s j c" using o by (simp add: in_map_def con object_ok_def)
    moreover have "timeline ?s j c = timeline s j c" using \<open>j < ?i\<close> by (simp add: timeline_def qs)
    moreover have "removals ?s j = removals s j" using base by (simp add: removals_def qs pl)
    ultimately show ?thesis using o by (simp add: object_ok_def cn)
  qed
  have keep: "sv_objects s j = Some c \<Longrightarrow> sv_objects ?s j = Some c" for j c using fresh obj by auto
  have "functor_ok ?s l f" if "functor_ok s l f" for l f
    using that keep by (cases f) (auto simp: pl base)
  moreover have "functor_ok ?s ioLoop (RunEstablished ?i)" by (simp add: obj)
  ultimately have "\<forall>l. \<forall>f \<in> set (sv_queues ?s l). functor_ok ?s l f" using q by (auto simp: qs)
  moreover have "sv_objects ?s j \<noteq> None \<longleftrightarrow> 1 \<le> j \<and> j < nextConnId ?s" for j
    using ex [of j] next1 by (auto simp: obj nx less_Suc_eq)
  moreover have "\<exists>c. sv_objects ?s j = Some c \<and> sc_name c = n" if "connections ?s n = Some j" for n j
    using that m keep by (fastforce simp: con obj split: if_splits)
  moreover have "object_ok ?s j c" if "sv_objects ?s j = Some c" for j c
    using that new old by (cases "j = ?i") (auto simp: obj)
  ultimately show ?thesis using nx by (simp add: server_ok_def)
qed

text \<open>A functor taken from the front of a queue and run.\<close>

lemma server_ok_remove:
  assumes ok: "server_ok s" and i: "sv_objects s i = Some c" and inm: "in_map s i c" and rr: "removals s i = 0"
  shows "server_ok (removeConnectionInLoop i s)"
proof -
  let ?s = "removeConnectionInLoop i s"
  have s': "sv_objects ?s = sv_objects s" "connections ?s = (connections s)(sc_name c := None)"
    "sv_queues ?s = (sv_queues s)(sc_loop c := sv_queues s (sc_loop c) @ [RunDestroyed i])"
    "sv_pool ?s = sv_pool s" "conn_name ?s = conn_name s" "nextConnId ?s = nextConnId s"
    using i by (simp_all add: removeConnectionInLoop_def queue_on_def)
  have oi: "object_ok s i c" by (rule server_okD(1) [OF ok i])
  have "object_ok ?s j d" if j: "sv_objects s j = Some d" for j d
  proof (cases "j = i")
    case True
    then show ?thesis
      using oi i j inm rr by (auto simp: object_ok_def timeline_def in_map_def removals_def s' count_list_append)
  next
    case False
    have oj: "object_ok s j d" by (rule server_okD(1) [OF ok j])
    have "in_map s j d \<Longrightarrow> sc_name d \<noteq> sc_name c" using inm False by (auto simp: in_map_def)
    then have "in_map ?s j d = in_map s j d" by (auto simp: in_map_def s')
    moreover have "timeline ?s j d = timeline s j d" using False by (simp add: timeline_def s')
    moreover have "removals ?s j = removals s j" by (simp add: removals_def s')
    ultimately show ?thesis using oj by (simp add: object_ok_def s')
  qed
  moreover have "functor_ok ?s l f" if "functor_ok s l f" for l f
    using that by (cases f) (simp_all add: s')
  moreover have "functor_ok ?s (sc_loop c) (RunDestroyed i)" using i by (simp add: s')
  ultimately show ?thesis
    using ok unfolding server_ok_def s' by (fastforce split: if_splits)
qed

lemma functor_ok_frame:
  assumes "\<And>j c. sv_objects s j = Some c \<Longrightarrow> \<exists>c'. sv_objects s' j = Some c' \<and> sc_loop c' = sc_loop c"
    and "sv_pool s' = sv_pool s" and "functor_ok s l f"
  shows "functor_ok s' l f"
  using assms(3,2) assms(1) by (cases f) fastforce+

text \<open>The popped functor is a call: it moves from the head of the queue to the calls made.\<close>

lemma server_ok_call:
  assumes ok: "server_ok s" and q: "sv_queues s l = f # fs" and c: "sv_objects s i = Some c" "sc_loop c = l"
    and f: "call_of i f = [k]" "\<And>j. j \<noteq> i \<Longrightarrow> call_of j f = []" "\<And>j. f \<noteq> RunRemoveRef j"
  shows "server_ok (call_conn k i (s\<lparr>sv_queues := (sv_queues s)(l := fs)\<rparr>))" (is "server_ok ?s")
proof -
  have s': "sv_objects ?s = (sv_objects s)(i \<mapsto> c\<lparr>sc_calls := sc_calls c @ [k]\<rparr>)" "connections ?s = connections s"
    "sv_queues ?s = (sv_queues s)(l := fs)" "sv_pool ?s = sv_pool s" "conn_name ?s = conn_name s"
    "nextConnId ?s = nextConnId s"
    using c by (simp_all add: call_conn_def)
  have rem: "removals ?s j = removals s j" for j
    using q f(3) [of j] by (simp add: removals_def s')
  have "object_ok ?s j d" if j: "sv_objects ?s j = Some d" for j d
  proof (cases "j = i")
    case True
    then have d: "d = c\<lparr>sc_calls := sc_calls c @ [k]\<rparr>" using j by (simp add: s')
    then have "timeline ?s i d = timeline s i c" using c q f(1) by (simp add: timeline_def s')
    then show ?thesis
      using True d server_okD(1) [OF ok c(1)] rem [of i] by (auto simp: object_ok_def in_map_def s')
  next
    case False
    then have "sv_objects s j = Some d" using j by (simp add: s')
    moreover have "timeline ?s j d = timeline s j d" using q f(2) [OF False] by (simp add: timeline_def s')
    ultimately show ?thesis
      using server_okD(1) [OF ok, of j d] rem [of j] by (auto simp: object_ok_def in_map_def s')
  qed
  moreover have "functor_ok ?s m g" if "functor_ok s m g" for m g
    by (rule functor_ok_frame [OF _ _ that]) (auto simp: s' c)
  moreover have "set (sv_queues ?s m) \<subseteq> set (sv_queues s m)" for m using q by (auto simp: s')
  moreover have "sv_objects ?s j \<noteq> None \<longleftrightarrow> sv_objects s j \<noteq> None" for j using c by (simp add: s')
  moreover have "\<exists>x. sv_objects ?s j = Some x \<and> sc_name x = n" if "connections s n = Some j" for n j
  proof -
    obtain x where "sv_objects s j = Some x" "sc_name x = n" using ok \<open>connections s n = Some j\<close> unfolding server_ok_def by blast
    then show ?thesis using c by (cases "j = i") (simp_all add: s')
  qed
  ultimately show ?thesis
    using ok unfolding server_ok_def s'(2,6) by (simp only:) blast
qed

text \<open>Any other popped functor leaves the timelines alone.\<close>

lemma server_ok_drop:
  assumes ok: "server_ok s" and q: "sv_queues s l = f # fs" and f: "\<And>j. call_of j f = []"
  shows "server_ok (s\<lparr>sv_queues := (sv_queues s)(l := fs)\<rparr>)" (is "server_ok ?s")
proof -
  have rem: "removals ?s j \<le> removals s j" for j using q by (simp add: removals_def)
  have "object_ok ?s j d" if j: "sv_objects s j = Some d" for j d
  proof -
    have "timeline ?s j d = timeline s j d" using q f [of j] by (simp add: timeline_def)
    then show ?thesis
      using server_okD(1) [OF ok j] rem [of j] by (auto simp: object_ok_def in_map_def)
  qed
  moreover have "functor_ok ?s m g" if g: "g \<in> set (sv_queues ?s m)" for m g
  proof -
    have "g \<in> set (sv_queues s m)" using g q by (auto split: if_splits)
    then have "functor_ok s m g" using ok unfolding server_ok_def by blast
    then show ?thesis by (rule functor_ok_frame [rotated 2]) auto
  qed
  moreover have "sv_objects ?s = sv_objects s" "connections ?s = connections s" "nextConnId ?s = nextConnId s"
    by simp_all
  ultimately show ?thesis
    using ok unfolding server_ok_def by (simp only:) blast
qed

lemma server_ok_listen: "server_ok (s\<lparr>sv_listening := x\<rparr>) = server_ok s"
proof -
  have "functor_ok (s\<lparr>sv_listening := x\<rparr>) l f = functor_ok s l f" for l f
    by (cases f) simp_all
  then show ?thesis
    by (simp add: server_ok_def object_ok_def timeline_def in_map_def removals_def)
qed

lemma server_ok_callbacks: "server_ok (s\<lparr>sv_callbacks := cb\<rparr>) = server_ok s"
proof -
  have "functor_ok (s\<lparr>sv_callbacks := cb\<rparr>) l f = functor_ok s l f" for l f
    by (cases f) simp_all
  then show ?thesis
    by (simp add: server_ok_def object_ok_def timeline_def in_map_def removals_def)
qed

lemma server_ok_pop:
  assumes ok: "server_ok s" and r: "run_queued l alive s = Some s'"
  shows "server_ok s' \<and> nextConnId s' = nextConnId s"
proof (cases "sv_queues s l")
  case Nil
  then show ?thesis using ok r by (simp add: run_queued_def)
next
  case (Cons f fs)
  have fok: "functor_ok s l f" using ok Cons unfolding server_ok_def by (metis list.set_intros(1))
  show ?thesis
  proof (cases f)
    case RunListen
    then show ?thesis
      using r Cons server_ok_drop [OF ok Cons]
      by (auto simp: run_queued_def run_server_functor_def acceptor_listen_def server_ok_listen)
  next
    case (RunEstablished i)
    then obtain c where "sv_objects s i = Some c" "sc_loop c = l" using fok by auto
    then show ?thesis
      using r Cons server_ok_call [OF ok Cons, of i c CallEstablished] RunEstablished
      by (auto simp: run_queued_def run_server_functor_def) (simp add: call_conn_def)
  next
    case (RunDestroyed i)
    then obtain c where "sv_objects s i = Some c" "sc_loop c = l" using fok by auto
    then show ?thesis
      using r Cons server_ok_call [OF ok Cons, of i c CallDestroyed] RunDestroyed
      by (auto simp: run_queued_def run_server_functor_def) (simp add: call_conn_def)
  next
    case (RunRemoveRef i)
    let ?p = "s\<lparr>sv_queues := (sv_queues s)(l := fs)\<rparr>"
    obtain c where c: "sv_objects s i = Some c" and l: "l = baseLoop (sv_pool s)" using fok RunRemoveRef by auto
    have p: "server_ok ?p" using server_ok_drop [OF ok Cons] RunRemoveRef by simp
    have "removals s i = Suc (removals ?p i)" using Cons RunRemoveRef l by (simp add: removals_def)
    then have "in_map s i c" "removals ?p i = 0"
      using server_okD(1) [OF ok c] by (auto simp: object_ok_def split: if_splits)
    then have "server_ok (removeConnectionInLoop i ?p)"
      using c by (intro server_ok_remove [OF p]) (simp_all add: in_map_def)
    then show ?thesis
      using r Cons RunRemoveRef c
      by (auto simp: run_queued_def run_server_functor_def split: if_splits)
         (simp add: removeConnectionInLoop_def queue_on_def)
  qed
qed

lemma server_ok_close:
  assumes ok: "server_ok s" and m: "may_close i s"
  shows "server_ok (closeCallback i s) \<and> nextConnId (closeCallback i s) = nextConnId s"
proof -
  obtain c where c: "sv_objects s i = Some c" "in_map s i c" "removals s i = 0"
    using m by (auto simp: may_close_def in_map_def removals_def count_list_0_iff split: option.splits)
  show ?thesis
  proof (cases "sc_loop c = baseLoop (sv_pool s)")
    case True
    then show ?thesis
      using c server_ok_remove [OF ok c] by (simp add: closeCallback_def) (simp add: removeConnectionInLoop_def queue_on_def)
  next
    case False
    let ?s = "queue_on (baseLoop (sv_pool s)) (RunRemoveRef i) s"
    have s': "sv_objects ?s = sv_objects s" "connections ?s = connections s" "sv_pool ?s = sv_pool s"
      "conn_name ?s = conn_name s" "nextConnId ?s = nextConnId s"
      "sv_queues ?s = (sv_queues s)(baseLoop (sv_pool s) := sv_queues s (baseLoop (sv_pool s)) @ [RunRemoveRef i])"
      by (simp_all add: queue_on_def)
    have "object_ok ?s j d" if j: "sv_objects s j = Some d" for j d
    proof -
      have "timeline ?s j d = timeline s j d" by (simp add: timeline_def s')
      moreover have "removals ?s j = removals s j + (if j = i then 1 else 0)"
        by (simp add: removals_def s' count_list_append)
      ultimately show ?thesis
        using server_okD(1) [OF ok j] c j by (auto simp: object_ok_def in_map_def s')
    qed
    moreover have "functor_ok ?s l f" if "functor_ok s l f" for l f
      using that by (cases f) (simp_all add: s')
    moreover have "functor_ok ?s (baseLoop (sv_pool s)) (RunRemoveRef i)" using c by (simp add: s')
    ultimately have "server_ok ?s"
      using ok unfolding server_ok_def s' by auto
    then show ?thesis using c False by (simp add: closeCallback_def s')
  qed
qed

lemma server_ok_apply:
  assumes ok: "server_ok s" and bound: "nextConnId s < 2 ^ 31" and r: "server_apply op s = Some s'"
    and once: "closes_once (op # ops) s"
  shows "server_ok s' \<and> nextConnId s' \<le> nextConnId s + 1 \<and> closes_once ops s'"
proof (cases op)
  case (Accept d)
  moreover have "nextConnId (newConnection d s) = nextConnId s + 1"
    by (simp add: newConnection_def call_conn_def queue_on_def split_beta Let_def)
  ultimately show ?thesis
    using r ok server_ok_newConnection [OF ok bound]
    using once by (auto simp: server_apply_def acceptor_handleRead_def split: if_splits)
next
  case (ConnCloses i)
  then have "may_close i s" using once by simp
  then show ?thesis using ConnCloses r once server_ok_close [OF ok] by (auto simp: server_apply_def)
next
  case (RunHead l alive)
  then have "closes_once ops s'" using r once by simp
  then show ?thesis using RunHead r server_ok_pop [OF ok] by (fastforce simp: server_apply_def)
next
  case (SetCallback slot f)
  then show ?thesis using r ok once by (auto simp: server_apply_def set_user_callback server_ok_callbacks)
qed

lemma server_ok_run:
  "server_ok s \<Longrightarrow> nextConnId s + length ops \<le> 2 ^ 31 \<Longrightarrow> server_run ops s = Some s'
    \<Longrightarrow> closes_once ops s \<Longrightarrow> server_ok s' \<and> nextConnId s' \<le> nextConnId s + length ops"
proof (induction ops arbitrary: s)
  case (Cons op ops)
  obtain s1 where s1: "server_apply op s = Some s1" "server_run ops s1 = Some s'"
    using Cons.prems(3) by (cases "server_apply op s") auto
  have "nextConnId s < 2 ^ 31" using Cons.prems(2) by simp
  from server_ok_apply [OF Cons.prems(1) this s1(1) Cons.prems(4)] show ?case
    using Cons.IH [OF _ _ s1(2)] Cons.prems(2) by fastforce
qed simp

lemma server_ok_new:
  assumes "s = start_server start_loop True (setThreadNum n (new_server base addr name))"
  shows "server_ok s" and "nextConnId s = 1" and "baseLoop (sv_pool s) = base"
  unfolding assms
  by (simp_all add: server_ok_def start_server_def setThreadNum_def new_server_def acceptor_listen_def
      start_pool_def setThreadNum_pool_def new_pool_def)

text \<open>Without sub-loops nothing is ever queued for removal by reference.\<close>

definition single_loop :: "server \<Rightarrow> bool" where
  "single_loop s \<longleftrightarrow> sub_loops (sv_pool s) = []
     \<and> (\<forall>i c. sv_objects s i = Some c \<longrightarrow> sc_loop c = baseLoop (sv_pool s))
     \<and> (\<forall>l i. RunRemoveRef i \<notin> set (sv_queues s l))"

lemma single_loop_remove: "single_loop s \<Longrightarrow> single_loop (removeConnectionInLoop i s)"
  by (auto simp: single_loop_def removeConnectionInLoop_def queue_on_def split: option.splits)

lemma single_loop_call: "single_loop s \<Longrightarrow> single_loop (call_conn k i s)"
  by (auto simp: single_loop_def call_conn_def)

lemma single_loop_apply:
  assumes "single_loop s"
  shows "\<exists>s'. server_apply op s = Some s' \<and> single_loop s'"
proof (cases op)
  case (Accept d)
  have "getNextLoop (sv_pool s) = (baseLoop (sv_pool s), sv_pool s)"
    using assms by (simp add: getNextLoop_def single_loop_def)
  then have "single_loop (newConnection d s)"
    using assms by (simp add: newConnection_def Let_def) (rule single_loop_call, auto simp: single_loop_def)
  then show ?thesis using Accept assms by (simp add: server_apply_def acceptor_handleRead_def)
next
  case (ConnCloses i)
  then show ?thesis
    using assms single_loop_remove [OF assms, of i]
    by (auto simp: server_apply_def closeCallback_def split: option.splits) (auto simp: single_loop_def)
next
  case (RunHead l alive)
  show ?thesis
  proof (cases "sv_queues s l")
    case (Cons f fs)
    have "single_loop (s\<lparr>sv_queues := (sv_queues s)(l := fs)\<rparr>)"
      using assms Cons by (auto simp: single_loop_def) (metis list.set_intros(2))
    moreover have "f \<noteq> RunRemoveRef i" for i using assms Cons unfolding single_loop_def by (metis list.set_intros(1))
    ultimately show ?thesis
      using Cons single_loop_call RunHead
      by (cases f) (auto simp: server_apply_def run_queued_def run_server_functor_def acceptor_listen_def single_loop_def)
  qed (simp add: RunHead server_apply_def run_queued_def assms)
next
  case (SetCallback slot f)
  then show ?thesis using assms by (simp add: server_apply_def set_user_callback single_loop_def)
qed

lemma single_loop_run: "single_loop s \<Longrightarrow> \<exists>s'. server_run ops s = Some s' \<and> single_loop s'"
proof (induction ops arbitrary: s)
  case (Cons op ops)
  obtain s1 where "server_apply op s = Some s1" "single_loop s1" using single_loop_apply [OF Cons.prems] by blast
  then show ?case using Cons.IH by simp
qed simp

section \<open>Properties of the server\<close>

text \<open>C18. Take any run of the server, on any number of loops, that stays defined (no functor runs with
  the dangling reference of the close callback: with sub-loops this needs \<^verbatim>\<open>handleClose\<close> not to
  have returned yet) and in which the close callback of a connection comes at most once, after it
  was established (\<open>closes_once\<close>). Then every accepted connection has a name of its own and is
  established exactly once, in its own loop; it stays in the map under its name until it is
  removed, and then, and only then, it is destroyed exactly once, after everything queued for it
  before (calls still queued in its loop count). (Fewer than \<open>2 ^ 31\<close> steps, the range of the
  counter.)\<close>

theorem connections_established_and_destroyed_once:
  assumes "server_run ops (start_server start_loop True (setThreadNum n (new_server base addr name))) = Some s"
    and "closes_once ops (start_server start_loop True (setThreadNum n (new_server base addr name)))"
    and "length ops < 2 ^ 31" and "sv_objects s i = Some c"
  shows "timeline s i c = (if connections s (sc_name c) = Some i then [CallEstablished]
      else [CallEstablished, CallDestroyed])
    \<and> sc_name c = conn_name s i
    \<and> (\<forall>j d. sv_objects s j = Some d \<and> sc_name d = sc_name c \<longrightarrow> j = i)"
proof -
  note new = server_ok_new [OF refl]
  have run: "server_ok s \<and> nextConnId s \<le> 2 ^ 31"
    using server_ok_run [OF new(1) _ assms(1,2)] assms(3) new(2) by fastforce
  have "object_ok s i c" and i: "i < nextConnId s" using server_okD run assms(4) by blast+
  moreover have "j = i" if "sv_objects s j = Some d" "sc_name d = sc_name c" for j d
  proof -
    have "conn_name s j = conn_name s i" "j < nextConnId s"
      using server_okD [of s j d] run that \<open>object_ok s i c\<close> by (auto simp: object_ok_def)
    then show ?thesis using conn_name_inj [of j i s] run i by simp
  qed
  ultimately show ?thesis by (auto simp: object_ok_def in_map_def)
qed

theorem connections_established_and_destroyed_once_witness:
  "\<exists>s c. server_run [Accept 9, RunHead 11 True, ConnCloses 1, RunHead 1 True]
       (start_server (\<lambda>i. 11) True (setThreadNum 1 (new_server 1 (new_inet (\<lambda>_. (0, 0, 0, 0)) 8000 ''127.0.0.1'') ''s''))) = Some s
     \<and> sv_objects s 1 = Some c \<and> timeline s 1 c = [CallEstablished, CallDestroyed]"
proof -
  let ?s0 = "start_server (\<lambda>i. 11) True (setThreadNum 1 (new_server 1 (new_inet (\<lambda>_. (0, 0, 0, 0)) 8000 ''127.0.0.1'') ''s''))"
  let ?ops = "[Accept 9, RunHead 11 True, ConnCloses 1, RunHead 1 True]"
  have "\<exists>s c. server_run ?ops ?s0 = Some s \<and> sv_objects s 1 = Some c \<and> connections s (sc_name c) = None"
    by (simp add: server_apply_def acceptor_handleRead_def newConnection_def start_server_def setThreadNum_def
        new_server_def start_pool_def setThreadNum_pool_def new_pool_def getNextLoop_def acceptor_listen_def
        queue_on_def call_conn_def may_close_def closeCallback_def run_queued_def run_server_functor_def
        removeConnectionInLoop_def Let_def upt_rec)
  then obtain s c where s: "server_run ?ops ?s0 = Some s" "sv_objects s 1 = Some c" "connections s (sc_name c) = None"
    by blast
  moreover have "closes_once ?ops ?s0"
    by (simp add: server_apply_def acceptor_handleRead_def newConnection_def start_server_def setThreadNum_def
        new_server_def start_pool_def setThreadNum_pool_def new_pool_def getNextLoop_def acceptor_listen_def
        queue_on_def call_conn_def may_close_def closeCallback_def run_queued_def run_server_functor_def
        removeConnectionInLoop_def Let_def upt_rec)
  ultimately show ?thesis using connections_established_and_destroyed_once [OF s(1) _ _ s(2)] by auto
qed

text \<open>With one loop the server never runs a functor whose captured reference is gone.\<close>

theorem single_loop_server_is_safe:
  "server_run ops (start_server start_loop True (new_server base addr name)) \<noteq> None"
proof -
  have "single_loop (start_server start_loop True (new_server base addr name))"
    by (simp add: single_loop_def start_server_def new_server_def acceptor_listen_def start_pool_def new_pool_def)
  from single_loop_run [OF this] show ?thesis by auto
qed

text \<open>With sub-loops the close callback queues a functor that holds a reference to a local
  variable of \<^verbatim>\<open>handleClose\<close>: when the base loop runs it after that has returned, the reference
  dangles.\<close>

theorem close_in_sub_loop_dangles:
  assumes "sv_objects s i = Some c" and "sc_loop c \<noteq> baseLoop (sv_pool s)"
    and "sv_queues s (baseLoop (sv_pool s)) = []"
  shows "run_queued (baseLoop (sv_pool s)) False (closeCallback i s) = None"
  using assms by (simp add: closeCallback_def queue_on_def run_queued_def run_server_functor_def)

theorem close_in_sub_loop_dangles_witness:
  "run_queued 1 False (closeCallback 1 (newConnection 9 (start_server (\<lambda>i. 11) True
     (setThreadNum 1 (new_server 1 (new_inet (\<lambda>_. (0, 0, 0, 0)) 8000 ''127.0.0.1'') ''s''))))) = None"
  using close_in_sub_loop_dangles [of "newConnection 9 (start_server (\<lambda>i. 11) True
     (setThreadNum 1 (new_server 1 (new_inet (\<lambda>_. (0, 0, 0, 0)) 8000 ''127.0.0.1'') ''s'')))" 1]
  by (simp add: newConnection_def start_server_def setThreadNum_def
        new_server_def start_pool_def setThreadNum_pool_def new_pool_def getNextLoop_def acceptor_listen_def
        queue_on_def call_conn_def Let_def upt_rec)


section \<open>The callbacks of a connection\<close>

fun callback_effect :: "server_op \<Rightarrow> callbacks \<Rightarrow> callbacks" where
  "callback_effect (SetCallback slot f) cb = set_callback slot f cb"
| "callback_effect _ cb = cb"

definition server_given :: "server \<Rightarrow> nat \<Rightarrow> callbacks option" where
  "server_given s i = map_option sc_callbacks (sv_objects s i)"

fun server_makes :: "server_op \<Rightarrow> server \<Rightarrow> nat option" where
  "server_makes (Accept d) s = (if d \<ge> 0 then Some (nextConnId s) else None)"
| "server_makes _ s = None"

lemma given_call: "server_given (call_conn k i s) = server_given s" "sv_callbacks (call_conn k i s) = sv_callbacks s"
  by (simp_all add: server_given_def call_conn_def fun_eq_iff option.map_comp o_def)

lemma given_queue: "server_given (queue_on l f s) = server_given s" "sv_callbacks (queue_on l f s) = sv_callbacks s"
  by (simp_all add: server_given_def queue_on_def fun_eq_iff)

lemma given_remove:
  "server_given (removeConnectionInLoop i s) = server_given s" "sv_callbacks (removeConnectionInLoop i s) = sv_callbacks s"
proof -
  have "server_given (s\<lparr>connections := m\<rparr>) = server_given s" for m by (simp add: server_given_def fun_eq_iff)
  then show "server_given (removeConnectionInLoop i s) = server_given s"
    "sv_callbacks (removeConnectionInLoop i s) = sv_callbacks s"
    by (simp_all add: removeConnectionInLoop_def given_queue split: option.split)
qed

lemma given_close: "server_given (closeCallback i s) = server_given s" "sv_callbacks (closeCallback i s) = sv_callbacks s"
  by (simp_all add: closeCallback_def given_queue given_remove split: option.split)

lemma given_pop:
  assumes "run_queued l alive s = Some s'"
  shows "server_given s' = server_given s \<and> sv_callbacks s' = sv_callbacks s"
proof (cases "sv_queues s l")
  case (Cons f fs)
  have "server_given (s\<lparr>sv_queues := q\<rparr>) = server_given s" "server_given (s\<lparr>sv_listening := x\<rparr>) = server_given s" for q x
    by (simp_all add: server_given_def fun_eq_iff)
  then show ?thesis using assms Cons
    by (cases f) (auto simp: run_queued_def run_server_functor_def acceptor_listen_def given_call given_remove
        server_given_def split: if_splits)
qed (use assms in \<open>simp add: run_queued_def\<close>)

lemma given_new:
  "server_given (newConnection d s) = (server_given s)(nextConnId s \<mapsto> sv_callbacks s)"
  "sv_callbacks (newConnection d s) = sv_callbacks s"
  by (auto simp: newConnection_def given_call given_queue split_beta Let_def) (auto simp: server_given_def fun_eq_iff)

interpretation server_callbacks: callback_owner server_apply server_run callback_effect sv_callbacks server_given server_makes
proof unfold_locales
  fix op :: server_op and s s' :: server and i cb
  assume step: "server_apply op s = Some s'"
  have *: "sv_callbacks s' = callback_effect op (sv_callbacks s)
      \<and> server_given s' = (case server_makes op s of None \<Rightarrow> server_given s | Some i \<Rightarrow> (server_given s)(i \<mapsto> sv_callbacks s))"
  proof (cases op)
    case (Accept d)
    then show ?thesis using step by (auto simp: server_apply_def acceptor_handleRead_def given_new)
  next
    case (ConnCloses i)
    then show ?thesis using step by (auto simp: server_apply_def given_close)
  next
    case (RunHead l alive)
    then show ?thesis using step given_pop [of l alive s s'] by (simp add: server_apply_def)
  next
    case (SetCallback slot f)
    then show ?thesis using step by (auto simp: server_apply_def set_user_callback server_given_def fun_eq_iff)
  qed
  show "sv_callbacks s' = callback_effect op (sv_callbacks s)" using * by blast
  show "server_given s' i = Some cb \<Longrightarrow> server_given s i = Some cb \<or> server_makes op s = Some i \<and> cb = sv_callbacks s"
    using * by (auto split: option.splits if_splits)
qed simp_all



end
