(* ===== verification/Buffer.thy ===== *)
theory Buffer
  imports Prelude
begin

text \<open>
  \<^verbatim>\<open>TcpConnection::Buffer\<close> of \<^verbatim>\<open>gdrpc/net/tcpConnection.hpp\<close> and \<^verbatim>\<open>tcpConnection.cpp\<close>: a
  vector with a reader and a writer index. The contract a connection relies on, a queue
  of bytes, is the locale \<open>byte_queue\<close>; the vector with its two indices is shown to
  satisfy it.
\<close>

section \<open>The contract: a queue of bytes\<close>

locale byte_queue =
  fixes contents :: "'b \<Rightarrow> bytes"
    and push :: "bytes \<Rightarrow> 'b \<Rightarrow> 'b"
    and pull :: "nat \<Rightarrow> 'b \<Rightarrow> bool \<times> 'b"
    and wf :: "'b \<Rightarrow> bool"
  assumes wf_push: "wf b \<Longrightarrow> wf (push d b)"
    and contents_push: "wf b \<Longrightarrow> contents (push d b) = contents b @ d"
    and wf_pull: "wf b \<Longrightarrow> wf (snd (pull n b))"
    and contents_pull:
      "wf b \<Longrightarrow> n \<le> length (contents b) \<Longrightarrow> contents (snd (pull n b)) = drop n (contents b)"
    and pull_succeeds: "wf b \<Longrightarrow> fst (pull n b) = (n \<le> length (contents b))"
    and pull_too_much: "wf b \<Longrightarrow> length (contents b) < n \<Longrightarrow> snd (pull n b) = b"

text \<open>
  What a client does with such a queue: it pushes blocks and takes blocks from the front.
  \<open>Pull n\<close> stands for reading \<open>n\<close> bytes through \<open>contents\<close> and then pulling them.
\<close>

datatype queue_op = Push bytes | Pull nat

fun queue_run :: "('b \<Rightarrow> bytes) \<Rightarrow> (bytes \<Rightarrow> 'b \<Rightarrow> 'b) \<Rightarrow> (nat \<Rightarrow> 'b \<Rightarrow> bool \<times> 'b)
    \<Rightarrow> queue_op list \<Rightarrow> 'b \<Rightarrow> bytes \<times> 'b" where
  "queue_run contents push pull [] b = ([], b)"
| "queue_run contents push pull (Push d # ops) b = queue_run contents push pull ops (push d b)"
| "queue_run contents push pull (Pull n # ops) b =
     (let chunk = (if fst (pull n b) then take n (contents b) else []);
          (out, b') = queue_run contents push pull ops (snd (pull n b))
      in (chunk @ out, b'))"

fun pushed :: "queue_op list \<Rightarrow> bytes" where
  "pushed [] = []"
| "pushed (Push d # ops) = d @ pushed ops"
| "pushed (Pull n # ops) = pushed ops"

context byte_queue begin

lemmas queue_laws = wf_push contents_push wf_pull contents_pull pull_succeeds pull_too_much

lemma run_wf: "wf b \<Longrightarrow> wf (snd (queue_run contents push pull ops b))"
proof (induction ops arbitrary: b rule: pushed.induct)
  case 1
  then show ?case by simp
next
  case (2 d ops)
  then show ?case by (simp add: wf_push)
next
  case (3 n ops)
  then have "wf (snd (queue_run contents push pull ops (snd (pull n b))))"
    by (simp add: wf_pull)
  then show ?case by (simp add: Let_def split_beta)
qed

text \<open>Nothing is lost, nothing is duplicated and the order is kept.\<close>

lemma run_fifo:
  assumes "wf b"
  shows "fst (queue_run contents push pull ops b) @ contents (snd (queue_run contents push pull ops b))
    = contents b @ pushed ops"
  using assms
proof (induction ops arbitrary: b rule: pushed.induct)
  case 1
  then show ?case by simp
next
  case (2 d ops)
  then show ?case by (simp add: wf_push contents_push)
next
  case (3 n ops)
  let ?b = "snd (pull n b)"
  have IH: "fst (queue_run contents push pull ops ?b) @ contents (snd (queue_run contents push pull ops ?b))
    = contents ?b @ pushed ops"
    using 3 by (simp add: wf_pull)
  show ?case
  proof (cases "n \<le> length (contents b)")
    case True
    then have "take n (contents b) @ contents ?b = contents b"
      using "3.prems" by (simp add: contents_pull)
    with True IH "3.prems" show ?thesis
      by (simp add: pull_succeeds Let_def split_beta)
  next
    case False
    with "3.prems" have "?b = b" and "\<not> fst (pull n b)"
      by (simp_all add: pull_too_much pull_succeeds)
    with IH show ?thesis by (simp add: Let_def split_beta)
  qed
qed

end

section \<open>The buffer of the code\<close>

record buffer =
  buf :: bytes
  readerIndex :: nat
  writerIndex :: nat

definition kInitialSize :: nat where
  "kInitialSize = 1024"

definition new_buffer :: "nat \<Rightarrow> buffer" where
  "new_buffer initialSize =
     \<lparr>buf = replicate initialSize 0, readerIndex = 0, writerIndex = 0\<rparr>"

definition readableBytes :: "buffer \<Rightarrow> nat" where
  "readableBytes b = writerIndex b - readerIndex b"

definition writableBytes :: "buffer \<Rightarrow> nat" where
  "writableBytes b = length (buf b) - writerIndex b"

definition prependableBytes :: "buffer \<Rightarrow> nat" where
  "prependableBytes b = readerIndex b"

text \<open>The bytes from \<^verbatim>\<open>peek()\<close> to \<^verbatim>\<open>beginWrite()\<close>.\<close>

definition readable :: "buffer \<Rightarrow> bytes" where
  "readable b = take (readableBytes b) (drop (readerIndex b) (buf b))"

definition retrieveAll :: "buffer \<Rightarrow> buffer" where
  "retrieveAll b = b\<lparr>readerIndex := 0, writerIndex := 0\<rparr>"

definition retrieve :: "nat \<Rightarrow> buffer \<Rightarrow> bool \<times> buffer" where
  "retrieve len b =
     (if len < readableBytes b then (True, b\<lparr>readerIndex := readerIndex b + len\<rparr>)
      else if len = readableBytes b then (True, retrieveAll b)
      else (False, b))"

text \<open>
  \<^verbatim>\<open>retrieveAsString\<close> copies \<open>len\<close> bytes from \<^verbatim>\<open>peek()\<close> before it asks \<^verbatim>\<open>retrieve\<close> whether
  that many are there: past the end of the vector the read is out of bounds (\<open>None\<close>).
\<close>

definition retrieveAsString :: "nat \<Rightarrow> buffer \<Rightarrow> (bytes \<times> buffer) option" where
  "retrieveAsString len b =
     (if readerIndex b + len \<le> length (buf b)
      then Some (take len (drop (readerIndex b) (buf b)), snd (retrieve len b))
      else None)"

definition retrieveAllAsString :: "buffer \<Rightarrow> (bytes \<times> buffer) option" where
  "retrieveAllAsString b = retrieveAsString (readableBytes b) b"

definition makeSpace :: "nat \<Rightarrow> buffer \<Rightarrow> buffer" where
  "makeSpace len b =
     (if writableBytes b + prependableBytes b < len
      then b\<lparr>buf := resize (writerIndex b + len) (buf b)\<rparr>
      else let r = readableBytes b
           in b\<lparr>buf := write_at 0 (readable b) (buf b), readerIndex := 0, writerIndex := r\<rparr>)"

definition ensureWritableBytes :: "nat \<Rightarrow> buffer \<Rightarrow> buffer" where
  "ensureWritableBytes len b = (if writableBytes b < len then makeSpace len b else b)"

definition append_bytes :: "bytes \<Rightarrow> buffer \<Rightarrow> buffer" where
  "append_bytes d b =
     (let b' = ensureWritableBytes (length d) b
      in b'\<lparr>buf := write_at (writerIndex b') d (buf b'), writerIndex := writerIndex b' + length d\<rparr>)"

text \<open>
  \<^verbatim>\<open>readFd\<close> hands \<^verbatim>\<open>readv\<close> the writable part of the vector and, when that is shorter than
  65536 bytes, a stack array of that length. What the call returns is the argument: an
  error number, or the bytes it stored, first into the vector and then into the array.
\<close>

datatype read_result = ReadError int | ReadBytes bytes

definition extrabufSize :: nat where
  "extrabufSize = 65536"

definition iov_capacity :: "buffer \<Rightarrow> nat" where
  "iov_capacity b =
     (if writableBytes b < extrabufSize then writableBytes b + extrabufSize else writableBytes b)"

definition readFd :: "read_result \<Rightarrow> buffer \<Rightarrow> int \<times> buffer" where
  "readFd res b =
     (case res of
        ReadError e \<Rightarrow> (-1, b)
      | ReadBytes d \<Rightarrow>
          (if length d \<le> writableBytes b
           then (int (length d),
                 b\<lparr>buf := write_at (writerIndex b) d (buf b), writerIndex := writerIndex b + length d\<rparr>)
           else let w = writableBytes b;
                    b' = b\<lparr>buf := write_at (writerIndex b) (take w d) (buf b),
                           writerIndex := length (buf b)\<rparr>
                in (int (length d), append_bytes (drop w d) b')))"

text \<open>\<^verbatim>\<open>writeFd\<close> offers the readable bytes to \<^verbatim>\<open>write\<close>, whose result it returns unchanged.\<close>

definition writeFd :: "(bytes \<Rightarrow> int) \<Rightarrow> buffer \<Rightarrow> int" where
  "writeFd os_write b = os_write (readable b)"

definition buffer_wf :: "buffer \<Rightarrow> bool" where
  "buffer_wf b \<longleftrightarrow> readerIndex b \<le> writerIndex b \<and> writerIndex b \<le> length (buf b)"

section \<open>The indices stay in order\<close>

lemma wf_new_buffer [simp, intro]: "buffer_wf (new_buffer n)"
  by (simp add: buffer_wf_def new_buffer_def)

lemma readable_new_buffer [simp]: "readable (new_buffer n) = []"
  by (simp add: readable_def readableBytes_def new_buffer_def)

lemma length_readable [simp]: "buffer_wf b \<Longrightarrow> length (readable b) = readableBytes b"
  by (auto simp: readable_def readableBytes_def buffer_wf_def)

lemma wf_retrieve: "buffer_wf b \<Longrightarrow> buffer_wf (snd (retrieve n b))"
  by (auto simp: buffer_wf_def retrieve_def retrieveAll_def readableBytes_def)

lemma wf_makeSpace: "buffer_wf b \<Longrightarrow> buffer_wf (makeSpace n b)"
  by (auto simp: buffer_wf_def makeSpace_def readableBytes_def readable_def write_at_def Let_def)

lemma makeSpace_room:
  assumes "buffer_wf b"
  shows "n \<le> writableBytes (makeSpace n b)"
proof (cases "writableBytes b + prependableBytes b < n")
  case True
  then show ?thesis by (simp add: makeSpace_def writableBytes_def)
next
  case False
  have "length (readable b) \<le> length (buf b)"
    by (simp add: readable_def)
  then have "length (write_at 0 (readable b) (buf b)) = length (buf b)"
    by simp
  with False assms show ?thesis
    by (simp add: makeSpace_def writableBytes_def prependableBytes_def readableBytes_def
        buffer_wf_def Let_def)
qed

lemma readable_makeSpace:
  assumes "buffer_wf b"
  shows "readable (makeSpace n b) = readable b"
proof (cases "writableBytes b + prependableBytes b < n")
  case True
  have r: "readerIndex b \<le> writerIndex b" and w: "writerIndex b \<le> length (buf b)"
    using assms by (simp_all add: buffer_wf_def)
  have "take (writerIndex b) (resize (writerIndex b + n) (buf b)) = take (writerIndex b) (buf b)"
    using w by (simp add: take_resize)
  then have "drop (readerIndex b) (take (writerIndex b) (resize (writerIndex b + n) (buf b)))
      = drop (readerIndex b) (take (writerIndex b) (buf b))"
    by simp
  with True show ?thesis
    by (simp add: makeSpace_def readable_def readableBytes_def drop_take)
next
  case False
  have "length (readable b) = readableBytes b" using assms by simp
  with False show ?thesis
    by (simp add: makeSpace_def Let_def readable_def [of "b\<lparr>buf := _, readerIndex := _, writerIndex := _\<rparr>"]
        readableBytes_def [of "b\<lparr>buf := _, readerIndex := _, writerIndex := _\<rparr>"] write_at_def)
qed

lemma ensureWritableBytes_props:
  assumes "buffer_wf b"
  shows "buffer_wf (ensureWritableBytes n b)"
    and "n \<le> writableBytes (ensureWritableBytes n b)"
    and "readable (ensureWritableBytes n b) = readable b"
  using assms
  by (auto simp: ensureWritableBytes_def wf_makeSpace makeSpace_room readable_makeSpace)

text \<open>Storing a block behind the writer index, when it fits.\<close>

lemma store_block:
  assumes "buffer_wf b" and "length d \<le> writableBytes b"
  defines "b' \<equiv> b\<lparr>buf := write_at (writerIndex b) d (buf b), writerIndex := writerIndex b + length d\<rparr>"
  shows "buffer_wf b'" and "readable b' = readable b @ d"
proof -
  have r: "readerIndex b \<le> writerIndex b" and w: "writerIndex b \<le> length (buf b)"
    using assms(1) by (simp_all add: buffer_wf_def)
  have fits: "writerIndex b + length d \<le> length (buf b)"
    using assms(2) w by (simp add: writableBytes_def)
  then show "buffer_wf b'"
    using r by (simp add: buffer_wf_def b'_def)
  show "readable b' = readable b @ d"
    using drop_take_write_at [OF r w, of d] by (simp add: readable_def readableBytes_def b'_def)
qed

lemma wf_append_bytes: "buffer_wf b \<Longrightarrow> buffer_wf (append_bytes d b)"
  by (simp add: append_bytes_def Let_def store_block(1) ensureWritableBytes_props)

lemma readable_append_bytes: "buffer_wf b \<Longrightarrow> readable (append_bytes d b) = readable b @ d"
  by (simp add: append_bytes_def Let_def store_block(2) ensureWritableBytes_props)

lemma retrieve_result: "buffer_wf b \<Longrightarrow> fst (retrieve n b) = (n \<le> length (readable b))"
  by (auto simp: retrieve_def)

lemma readable_retrieve:
  assumes "buffer_wf b" and "n \<le> length (readable b)"
  shows "readable (snd (retrieve n b)) = drop n (readable b)"
  using assms
  by (auto simp: retrieve_def retrieveAll_def readable_def readableBytes_def drop_take
      buffer_wf_def add.commute)

lemma retrieve_too_much: "buffer_wf b \<Longrightarrow> length (readable b) < n \<Longrightarrow> snd (retrieve n b) = b"
  by (auto simp: retrieve_def)

interpretation bq: byte_queue readable append_bytes retrieve buffer_wf
  by unfold_locales
     (simp_all add: wf_append_bytes readable_append_bytes wf_retrieve readable_retrieve
        retrieve_result retrieve_too_much)

lemma readFd_spec:
  assumes "buffer_wf b"
  shows "buffer_wf (snd (readFd (ReadBytes d) b))"
    and "readable (snd (readFd (ReadBytes d) b)) = readable b @ d"
    and "fst (readFd (ReadBytes d) b) = int (length d)"
proof -
  let ?w = "writableBytes b"
  let ?b = "b\<lparr>buf := write_at (writerIndex b) (take ?w d) (buf b),
              writerIndex := writerIndex b + length (take ?w d)\<rparr>"
  have full: "length d > ?w \<Longrightarrow> writerIndex b + length (take ?w d) = length (buf b)"
    using assms by (simp add: writableBytes_def buffer_wf_def)
  have "buffer_wf ?b" and "readable ?b = readable b @ take ?w d"
    using store_block [OF assms, of "take ?w d"] by simp_all
  then have long: "buffer_wf (append_bytes (drop ?w d) ?b)"
      "readable (append_bytes (drop ?w d) ?b) = readable b @ d"
    by (simp_all add: wf_append_bytes readable_append_bytes)
  show "buffer_wf (snd (readFd (ReadBytes d) b))"
    using long(1) full store_block(1) [OF assms, of d] by (auto simp: readFd_def Let_def)
  show "readable (snd (readFd (ReadBytes d) b)) = readable b @ d"
    using long(2) full store_block(2) [OF assms, of d] by (auto simp: readFd_def Let_def)
  show "fst (readFd (ReadBytes d) b) = int (length d)"
    by (simp add: readFd_def Let_def)
qed

lemma readFd_error [simp]: "readFd (ReadError e) b = (-1, b)"
  by (simp add: readFd_def)

lemma retrieveAsString_within:
  assumes "buffer_wf b" and "n \<le> length (readable b)"
  shows "retrieveAsString n b = Some (take n (readable b), snd (retrieve n b))"
proof -
  have n: "n \<le> writerIndex b - readerIndex b"
    using assms by (simp add: readableBytes_def)
  then have "readerIndex b + n \<le> length (buf b)"
    using assms(1) by (auto simp: buffer_wf_def)
  with n show ?thesis
    by (simp add: retrieveAsString_def readable_def readableBytes_def min_absorb1)
qed

lemma length_buf_makeSpace:
  assumes "buffer_wf b"
  shows "length (buf (makeSpace n b))
    = (if writableBytes b + prependableBytes b < n then writerIndex b + n else length (buf b))"
proof -
  have "length (readable b) \<le> length (buf b)" by (simp add: readable_def)
  then show ?thesis by (simp add: makeSpace_def Let_def)
qed

section \<open>Properties of the buffer\<close>

text \<open>C6. Whatever sequence of appends and retrieves a client performs on a new buffer, the
  bytes it took followed by the bytes still readable are the bytes it appended, in order: the
  growing, shifting and resetting of the vector lose and repeat nothing.\<close>

theorem buffer_is_fifo:
  "fst (queue_run readable append_bytes retrieve ops (new_buffer n))
     @ readable (snd (queue_run readable append_bytes retrieve ops (new_buffer n))) = pushed ops"
  using bq.run_fifo [OF wf_new_buffer, of ops n] by simp

text \<open>A \<^verbatim>\<open>readv\<close> that returned \<open>d\<close> puts exactly \<open>d\<close> behind what was readable, whether
  it fitted the vector or spilled into the stack array, and returns its length; a failed one
  changes nothing and returns -1.\<close>

theorem readFd_appends_received:
  assumes "buffer_wf b"
  shows "readable (snd (readFd (ReadBytes d) b)) = readable b @ d
    \<and> fst (readFd (ReadBytes d) b) = int (length d)
    \<and> buffer_wf (snd (readFd (ReadBytes d) b))
    \<and> readFd (ReadError e) b = (-1, b)"
  using readFd_spec [OF assms, of d] by simp

theorem readFd_appends_received_witness:
  "readable (snd (readFd (ReadBytes [7, 8, 9]) (new_buffer 2))) = [7, 8, 9]
    \<and> length (buf (snd (readFd (ReadBytes [7, 8, 9]) (new_buffer 2)))) = 3"
  using readFd_appends_received [OF wf_new_buffer [of 2], of "[7, 8, 9]" 0, unfolded readable_new_buffer]
  by (simp add: readFd_def append_bytes_def ensureWritableBytes_def makeSpace_def new_buffer_def
      writableBytes_def prependableBytes_def Let_def)

text \<open>An append reallocates only when the free space before the reader and after the writer
  together is too small, and then to exactly the writer index plus the block: a buffer that is
  drained never grows beyond what was unread at once.\<close>

theorem append_growth:
  assumes "buffer_wf b"
  shows "length (buf (append_bytes d b))
    = (if readableBytes b + length d \<le> length (buf b) then length (buf b)
       else writerIndex b + length d)"
proof -
  have room: "writerIndex (ensureWritableBytes (length d) b) + length d
      \<le> length (buf (ensureWritableBytes (length d) b))"
    using ensureWritableBytes_props(1,2) [OF assms, of "length d"]
    by (auto simp: writableBytes_def buffer_wf_def)
  show ?thesis
    using room assms length_buf_makeSpace [OF assms, of "length d"]
    by (auto simp: append_bytes_def Let_def ensureWritableBytes_def writableBytes_def
        prependableBytes_def readableBytes_def buffer_wf_def)
qed

theorem append_growth_witness:
  "length (buf (append_bytes [1, 2] (append_bytes [3] (new_buffer 4)))) = 4
    \<and> length (buf (append_bytes [1, 2] (new_buffer 1))) = 2"
  using append_growth [OF wf_new_buffer, of "[1, 2]" 1]
  by (simp add: readableBytes_def append_bytes_def ensureWritableBytes_def new_buffer_def
      writableBytes_def Let_def)

text \<open>\<^verbatim>\<open>retrieveAllAsString\<close> never reads outside the vector: it returns the readable bytes and
  leaves the buffer empty with both indices at 0. \<^verbatim>\<open>retrieve\<close> of more than is readable is
  refused and changes nothing.\<close>

theorem retrieveAll_drains:
  assumes "buffer_wf b"
  shows "retrieveAllAsString b = Some (readable b, b\<lparr>readerIndex := 0, writerIndex := 0\<rparr>)
    \<and> (retrieve n b = (False, b)) = (n > length (readable b))"
proof
  have "take (length (readable b)) (readable b) = readable b" by simp
  then show "retrieveAllAsString b = Some (readable b, b\<lparr>readerIndex := 0, writerIndex := 0\<rparr>)"
    using retrieveAsString_within [OF assms, of "length (readable b)"] assms
    by (simp add: retrieveAllAsString_def retrieve_def retrieveAll_def)
  show "(retrieve n b = (False, b)) = (n > length (readable b))"
    using assms by (simp add: retrieve_def)
qed

theorem retrieveAll_drains_witness:
  "fst (the (retrieveAllAsString (append_bytes [1, 2, 3] (new_buffer 2)))) = [1, 2, 3]
    \<and> \<not> fst (retrieve 4 (append_bytes [1, 2, 3] (new_buffer 2)))"
proof -
  have wf: "buffer_wf (append_bytes [1, 2, 3] (new_buffer 2))" by (simp add: wf_append_bytes)
  have "readable (append_bytes [1, 2, 3] (new_buffer 2)) = [1, 2, 3]"
    by (simp add: readable_append_bytes)
  then show ?thesis using retrieveAll_drains [OF wf, of 4] by simp
qed

end
