(* ===== verification/TcpConn.thy ===== *)
theory TcpConn
  imports Buffer Poller
begin

text \<open>
  \<^verbatim>\<open>TcpConnection\<close> (\<^verbatim>\<open>gdrpc/net/tcpConnection.hpp\<close>, \<^verbatim>\<open>tcpConnection.cpp\<close>).

  The record holds the state, the channel with the poller it is registered with, the two
  buffers, and the functors of this connection that wait in the queue of its loop. The
  operating system is visible as what its calls return: \<open>write_result\<close> for \<^verbatim>\<open>write\<close>,
  \<open>read_result\<close> for \<^verbatim>\<open>readv\<close>. \<open>c_sent\<close> are the bytes the kernel took, \<open>c_received\<close> those it
  delivered, \<open>c_taken\<close> those the user retrieved, \<open>c_wr_shut\<close> says that the writing side was
  shut down, and \<open>c_log\<close> records the calls of the user's callbacks. A user
  callback is the last thing a handler does; what the user does in it is the next operation.
\<close>

section \<open>State and operations\<close>

datatype conn_state = KConnecting | KConnected | KDisconnecting | KDisconnected

fun state_rank :: "conn_state \<Rightarrow> nat" where
  "state_rank KConnecting = 0" | "state_rank KConnected = 1"
| "state_rank KDisconnecting = 2" | "state_rank KDisconnected = 3"

text \<open>The states in the order a connection goes through them.\<close>

instantiation conn_state :: linorder
begin

definition less_eq_conn_state :: "conn_state \<Rightarrow> conn_state \<Rightarrow> bool" where
  "less_eq_conn_state s t \<longleftrightarrow> state_rank s \<le> state_rank t"

definition less_conn_state :: "conn_state \<Rightarrow> conn_state \<Rightarrow> bool" where
  "less_conn_state s t \<longleftrightarrow> state_rank s < state_rank t"

instance
proof
  fix s t :: conn_state
  show "s \<le> t \<Longrightarrow> t \<le> s \<Longrightarrow> s = t"
    by (cases s; cases t) (simp_all add: less_eq_conn_state_def)
qed (auto simp: less_eq_conn_state_def less_conn_state_def)

end

datatype conn_functor = FSend bytes | FShutdown | FForceClose | FWriteComplete | FHighWater nat
  | FDestroyed

datatype conn_event = Connection bool | Message | Close | WriteComplete | HighWater nat | Fatal

record conn =
  c_name :: string
  c_state :: conn_state
  c_channel :: channel
  c_poller :: poller
  inputBuffer :: buffer
  outputBuffer :: buffer
  highWaterMark :: nat
  has_writeComplete :: bool
  has_highWater :: bool
  c_queue :: "conn_functor list"
  c_sent :: bytes
  c_received :: bytes
  c_taken :: bytes
  c_wr_shut :: bool
  c_log :: "conn_event list"

datatype write_result = Wrote nat | WriteFailed int

definition EWOULDBLOCK :: int where "EWOULDBLOCK = 11"
definition EPIPE :: int where "EPIPE = 32"
definition ECONNRESET :: int where "ECONNRESET = 104"

text \<open>The kernel takes at most what it is offered.\<close>

definition kernel_write :: "write_result \<Rightarrow> bytes \<Rightarrow> int" where
  "kernel_write wr d = (case wr of Wrote n \<Rightarrow> int (min n (length d)) | WriteFailed e \<Rightarrow> -1)"

definition new_conn :: "string \<Rightarrow> channel \<Rightarrow> poller \<Rightarrow> bool \<Rightarrow> bool \<Rightarrow> conn" where
  "new_conn name ch p wc hw =
     \<lparr>c_name = name, c_state = KConnecting,
      c_channel = ch\<lparr>ch_cbs := [ReadCb, WriteCb, CloseCb, ErrorCb]\<rparr>, c_poller = p,
      inputBuffer = new_buffer kInitialSize, outputBuffer = new_buffer kInitialSize,
      highWaterMark = 64 * 1024 * 1024, has_writeComplete = wc, has_highWater = hw,
      c_queue = [], c_sent = [], c_received = [], c_taken = [], c_wr_shut = False, c_log = []\<rparr>"

definition connected :: "conn \<Rightarrow> bool" where
  "connected c \<longleftrightarrow> c_state c = KConnected"

definition log_event :: "conn_event \<Rightarrow> conn \<Rightarrow> conn" where
  "log_event e c = c\<lparr>c_log := c_log c @ [e]\<rparr>"

definition connectionCallback :: "conn \<Rightarrow> conn" where
  "connectionCallback c = log_event (Connection (connected c)) c"

definition queue_functor :: "conn_functor \<Rightarrow> conn \<Rightarrow> conn" where
  "queue_functor f c = c\<lparr>c_queue := c_queue c @ [f]\<rparr>"

definition with_channel :: "(channel \<times> poller \<Rightarrow> channel \<times> poller) \<Rightarrow> conn \<Rightarrow> conn" where
  "with_channel f c = (let (ch, p) = f (c_channel c, c_poller c) in c\<lparr>c_channel := ch, c_poller := p\<rparr>)"

text \<open>Reading what has arrived.\<close>

definition tryRead :: "conn \<Rightarrow> bytes" where
  "tryRead c = readable (inputBuffer c)"

definition conn_retrieve :: "nat \<Rightarrow> conn \<Rightarrow> bool \<times> conn" where
  "conn_retrieve n c =
     (let (ok, b) = retrieve n (inputBuffer c)
      in (ok, c\<lparr>inputBuffer := b,
               c_taken := c_taken c @ (if ok then take n (readable (inputBuffer c)) else [])\<rparr>))"

definition readAll :: "conn \<Rightarrow> bytes \<times> conn" where
  "readAll c = (let s = tryRead c in (s, snd (conn_retrieve (length s) c)))"

text \<open>Sending. \<open>sendInLoop\<close> in its two halves: the direct write, then what is left.\<close>

definition send_fault :: "int \<Rightarrow> bool" where
  "send_fault e \<longleftrightarrow> e \<noteq> EWOULDBLOCK \<and> (e = EPIPE \<or> e = ECONNRESET)"

definition send_direct :: "bytes \<Rightarrow> write_result \<Rightarrow> conn \<Rightarrow> nat \<times> bool \<times> conn" where
  "send_direct s wr c =
     (if \<not> isWriting (c_channel c) \<and> readableBytes (outputBuffer c) = 0
      then (case wr of
              Wrote n \<Rightarrow>
                (let nwrote = min n (length s); c' = c\<lparr>c_sent := c_sent c @ take nwrote s\<rparr>
                 in (nwrote, False,
                     if length s - nwrote = 0 \<and> has_writeComplete c
                     then queue_functor FWriteComplete c' else c'))
            | WriteFailed e \<Rightarrow>
                (0, send_fault e, if e \<noteq> EWOULDBLOCK then log_event Fatal c else c))
      else (0, False, c))"

definition send_rest :: "bytes \<Rightarrow> nat \<Rightarrow> conn \<Rightarrow> conn" where
  "send_rest s nwrote c =
     (let oldLen = readableBytes (outputBuffer c);
          remaining = length s - nwrote;
          c1 = (if highWaterMark c \<le> oldLen + remaining \<and> oldLen < highWaterMark c \<and> has_highWater c
                then queue_functor (FHighWater (oldLen + remaining)) c else c);
          c2 = c1\<lparr>outputBuffer := append_bytes (drop nwrote s) (outputBuffer c1)\<rparr>
      in if isWriting (c_channel c2) then c2 else with_channel enableWriting c2)"

definition sendInLoop :: "bytes \<Rightarrow> write_result \<Rightarrow> conn \<Rightarrow> conn" where
  "sendInLoop s wr c =
     (if c_state c = KDisconnected then c
      else let (nwrote, faultError, c') = send_direct s wr c
           in if \<not> faultError \<and> 0 < length s - nwrote then send_rest s nwrote c' else c')"

definition conn_send :: "bool \<Rightarrow> bytes \<Rightarrow> write_result \<Rightarrow> conn \<Rightarrow> conn" where
  "conn_send in_loop s wr c =
     (if c_state c = KConnected
      then if in_loop then sendInLoop s wr c else queue_functor (FSend s) c
      else c)"

definition shutdownInLoop :: "conn \<Rightarrow> conn" where
  "shutdownInLoop c = (if isWriting (c_channel c) then c else c\<lparr>c_wr_shut := True\<rparr>)"

definition shutdown :: "bool \<Rightarrow> conn \<Rightarrow> conn" where
  "shutdown in_loop c =
     (if c_state c = KConnected
      then let c' = c\<lparr>c_state := KDisconnecting\<rparr>
           in if in_loop then shutdownInLoop c' else queue_functor FShutdown c'
      else c)"

definition connectEstablished :: "conn \<Rightarrow> conn" where
  "connectEstablished c =
     (let c1 = c\<lparr>c_state := KConnected, c_channel := tie (c_channel c)\<rparr>
      in connectionCallback (with_channel enableReading c1))"

definition connectDestroyed :: "conn \<Rightarrow> conn" where
  "connectDestroyed c =
     (let c1 = (if c_state c = KConnected \<or> c_state c = KDisconnecting
                then connectionCallback (c\<lparr>c_state := KDisconnected\<rparr>) else c)
      in with_channel removeChannel c1)"

text \<open>\<open>closeCallback\<close> of server and client: both queue \<^verbatim>\<open>connectDestroyed\<close> behind what waits.\<close>

definition handleClose :: "conn \<Rightarrow> conn" where
  "handleClose c =
     (let c1 = with_channel disableAll (c\<lparr>c_state := KDisconnected\<rparr>)
      in log_event Close (connectionCallback c1))"

definition handleError :: "conn \<Rightarrow> conn" where
  "handleError c = log_event Fatal c"

definition handleRead :: "read_result \<Rightarrow> conn \<Rightarrow> conn" where
  "handleRead res c =
     (let (n, b) = readFd res (inputBuffer c);
          c' = c\<lparr>inputBuffer := b,
                 c_received := c_received c @ (case res of ReadBytes d \<Rightarrow> d | ReadError e \<Rightarrow> [])\<rparr>
      in if n > 0 then log_event Message c'
         else if n = 0 then handleClose c'
         else handleError (log_event Fatal c'))"

definition handleWrite :: "write_result \<Rightarrow> conn \<Rightarrow> conn" where
  "handleWrite wr c =
     (if isWriting (c_channel c)
      then let n = writeFd (kernel_write wr) (outputBuffer c) in
           if n > 0
           then let c1 = c\<lparr>c_sent := c_sent c @ take (nat n) (readable (outputBuffer c)),
                          outputBuffer := snd (retrieve (nat n) (outputBuffer c))\<rparr>
                in if readableBytes (outputBuffer c1) = 0
                   then let c2 = with_channel disableWriting c1;
                            c3 = (if has_writeComplete c2 then queue_functor FWriteComplete c2 else c2)
                        in if c_state c3 = KDisconnecting then shutdownInLoop c3 else c3
                   else c1
           else log_event Fatal c
      else log_event Fatal c)"

definition forceClose :: "conn \<Rightarrow> conn" where
  "forceClose c =
     (if c_state c = KConnected then queue_functor FForceClose (c\<lparr>c_state := KDisconnecting\<rparr>) else c)"

definition forceCloseInLoop :: "conn \<Rightarrow> conn" where
  "forceCloseInLoop c =
     (if c_state c = KConnected \<or> c_state c = KDisconnecting then handleClose c else c)"

definition get_state :: "conn \<Rightarrow> string" where
  "get_state c = (case c_state c of KDisconnected \<Rightarrow> ''kDisconnected'' | KConnecting \<Rightarrow> ''kConnecting''
     | KConnected \<Rightarrow> ''kConnected'' | KDisconnecting \<Rightarrow> ''kDisconnecting'')"

section \<open>What can happen to a connection\<close>

definition conn_handler :: "read_result \<Rightarrow> write_result \<Rightarrow> event_cb \<Rightarrow> conn \<Rightarrow> conn" where
  "conn_handler rd wr cb = (case cb of ReadCb \<Rightarrow> handleRead rd | WriteCb \<Rightarrow> handleWrite wr
     | CloseCb \<Rightarrow> handleClose | ErrorCb \<Rightarrow> handleError)"

definition conn_dispatch :: "event_mask \<Rightarrow> read_result \<Rightarrow> write_result \<Rightarrow> conn \<Rightarrow> conn" where
  "conn_dispatch r rd wr c =
     handleEvent True c_channel (conn_handler rd wr) (c\<lparr>c_channel := set_revents r (c_channel c)\<rparr>)"

definition run_functor :: "conn_functor \<Rightarrow> write_result \<Rightarrow> conn \<Rightarrow> conn" where
  "run_functor f wr = (case f of FSend s \<Rightarrow> sendInLoop s wr | FShutdown \<Rightarrow> shutdownInLoop
     | FForceClose \<Rightarrow> forceCloseInLoop | FWriteComplete \<Rightarrow> log_event WriteComplete
     | FHighWater n \<Rightarrow> log_event (HighWater n) | FDestroyed \<Rightarrow> connectDestroyed)"

text \<open>
  The life of a connection is a list of these: it is established once; the poller reports
  events while its descriptor is registered; the user, in the loop thread or in another, sends,
  shuts down, closes, retrieves; the loop runs the functors queued for it; the owner answers
  the close callback, or is itself destroyed by another thread, by queueing \<^verbatim>\<open>connectDestroyed\<close>
  behind \<^verbatim>\<open>connectEstablished\<close>; destroyed in the thread of the loop it runs \<^verbatim>\<open>connectDestroyed\<close>
  at once (\<^verbatim>\<open>~TcpServer\<close>, by \<^verbatim>\<open>runInLoop\<close>). A channel that was removed gets no event any more.
\<close>

datatype conn_op = Establish | Report event_mask read_result write_result
  | UserSend bool bytes write_result | UserShutdown bool | UserForceClose | UserRetrieve nat
  | RunQueued write_result | OwnerDestroys | OwnerDestroysInLoop

definition conn_registered :: "conn \<Rightarrow> bool" where
  "conn_registered c \<longleftrightarrow> ch_state (c_channel c) = KAdded \<and> hasChannel (c_channel c) (c_poller c)"

fun conn_apply :: "conn_op \<Rightarrow> conn \<Rightarrow> conn" where
  "conn_apply Establish c = (if c_state c = KConnecting then connectEstablished c else c)"
| "conn_apply (Report r rd wr) c = (if conn_registered c then conn_dispatch r rd wr c else c)"
| "conn_apply (UserSend in_loop s wr) c = conn_send in_loop s wr c"
| "conn_apply (UserShutdown in_loop) c = shutdown in_loop c"
| "conn_apply UserForceClose c = forceClose c"
| "conn_apply (UserRetrieve n) c = snd (conn_retrieve n c)"
| "conn_apply (RunQueued wr) c =
     (case c_queue c of [] \<Rightarrow> c | f # fs \<Rightarrow> run_functor f wr (c\<lparr>c_queue := fs\<rparr>))"
| "conn_apply OwnerDestroys c = (if c_state c = KConnecting then c else queue_functor FDestroyed c)"
| "conn_apply OwnerDestroysInLoop c = connectDestroyed c"

text \<open>The bytes an operation takes over for sending: a write that failed for good takes none.\<close>

definition send_accepts :: "bytes \<Rightarrow> write_result \<Rightarrow> conn \<Rightarrow> bool" where
  "send_accepts s wr c \<longleftrightarrow> c_state c \<noteq> KDisconnected \<and> \<not> fst (snd (send_direct s wr c))"

definition op_accepts :: "conn_op \<Rightarrow> conn \<Rightarrow> bytes" where
  "op_accepts op c =
     (case op of
        UserSend in_loop s wr \<Rightarrow>
          if c_state c = KConnected \<and> in_loop \<and> send_accepts s wr c then s else []
      | RunQueued wr \<Rightarrow>
          (case c_queue c of FSend s # fs \<Rightarrow> if send_accepts s wr (c\<lparr>c_queue := fs\<rparr>) then s else []
           | _ \<Rightarrow> [])
      | _ \<Rightarrow> [])"

fun conn_run :: "conn_op list \<Rightarrow> conn \<Rightarrow> conn \<times> bytes" where
  "conn_run [] c = (c, [])"
| "conn_run (op # ops) c =
     (let (c', acc) = conn_run ops (conn_apply op c) in (c', op_accepts op c @ acc))"

section \<open>What the operations leave alone\<close>

lemma updateChannel_sel [simp]:
  "ch_events (fst (updateChannel cp)) = ch_events (fst cp)"
  "ch_fd (fst (updateChannel cp)) = ch_fd (fst cp)" "ch_addr (fst (updateChannel cp)) = ch_addr (fst cp)"
  "ch_cbs (fst (updateChannel cp)) = ch_cbs (fst cp)" "ch_tied (fst (updateChannel cp)) = ch_tied (fst cp)"
  "ch_revents (fst (updateChannel cp)) = ch_revents (fst cp)"
  by (simp_all add: updateChannel_def Let_def split_beta)

lemma with_channel_sel [simp]:
  "c_state (with_channel f c) = c_state c" "inputBuffer (with_channel f c) = inputBuffer c"
  "outputBuffer (with_channel f c) = outputBuffer c" "c_sent (with_channel f c) = c_sent c"
  "c_received (with_channel f c) = c_received c" "c_taken (with_channel f c) = c_taken c"
  "c_wr_shut (with_channel f c) = c_wr_shut c" "c_log (with_channel f c) = c_log c"
  "c_queue (with_channel f c) = c_queue c" "has_writeComplete (with_channel f c) = has_writeComplete c"
  "has_highWater (with_channel f c) = has_highWater c" "highWaterMark (with_channel f c) = highWaterMark c"
  "c_channel (with_channel f c) = fst (f (c_channel c, c_poller c))"
  "c_poller (with_channel f c) = snd (f (c_channel c, c_poller c))"
  by (simp_all add: with_channel_def split_beta Let_def)

lemma write_bits:
  "(e OR kReadEvent) AND kWriteEvent = e AND kWriteEvent" "kWriteEvent \<noteq> 0"
  "(e AND NOT kWriteEvent) AND kWriteEvent = 0" "kNoneEvent AND kWriteEvent = 0"
proof -
  have k: "kReadEvent AND kWriteEvent = 0" "kWriteEvent \<noteq> 0" by (simp_all add: event_masks)
  show "(e OR kReadEvent) AND kWriteEvent = e AND kWriteEvent"
    using k by (simp add: bit.conj_disj_distrib2)
  show "kWriteEvent \<noteq> 0" by (rule k(2))
  show "(e AND NOT kWriteEvent) AND kWriteEvent = 0"
    by (simp add: and.assoc)
  show "kNoneEvent AND kWriteEvent = 0" by (simp add: event_masks)
qed

lemma isWriting_ops [simp]:
  "isWriting (fst (enableReading cp)) = isWriting (fst cp)" "isWriting (fst (enableWriting cp))"
  "\<not> isWriting (fst (disableWriting cp))" "\<not> isWriting (fst (disableAll cp))"
  "isWriting (fst (removeChannel cp)) = isWriting (fst cp)"
  "isWriting (tie ch) = isWriting ch" "isWriting (set_revents r ch) = isWriting ch"
  by (simp_all add: isWriting_def channel_ops split_beta write_bits removeChannel_def tie_def
      set_revents_def Let_def)

lemma queue_functor_sel [simp]:
  "c_state (queue_functor f c) = c_state c" "inputBuffer (queue_functor f c) = inputBuffer c"
  "outputBuffer (queue_functor f c) = outputBuffer c" "c_sent (queue_functor f c) = c_sent c"
  "c_received (queue_functor f c) = c_received c" "c_taken (queue_functor f c) = c_taken c"
  "c_wr_shut (queue_functor f c) = c_wr_shut c" "c_log (queue_functor f c) = c_log c"
  "c_channel (queue_functor f c) = c_channel c" "c_poller (queue_functor f c) = c_poller c"
  "has_writeComplete (queue_functor f c) = has_writeComplete c"
  by (simp_all add: queue_functor_def)

lemma log_event_sel [simp]:
  "c_state (log_event e c) = c_state c" "inputBuffer (log_event e c) = inputBuffer c"
  "outputBuffer (log_event e c) = outputBuffer c" "c_sent (log_event e c) = c_sent c"
  "c_received (log_event e c) = c_received c" "c_taken (log_event e c) = c_taken c"
  "c_wr_shut (log_event e c) = c_wr_shut c" "c_log (log_event e c) = c_log c @ [e]"
  "c_channel (log_event e c) = c_channel c" "c_poller (log_event e c) = c_poller c"
  "c_queue (log_event e c) = c_queue c"
  by (simp_all add: log_event_def)

section \<open>The two byte streams\<close>

definition out_stream :: "conn \<Rightarrow> bytes" where
  "out_stream c = c_sent c @ readable (outputBuffer c)"

definition writes_pending :: "conn \<Rightarrow> bool" where
  "writes_pending c \<longleftrightarrow>
     (c_state c \<noteq> KDisconnected \<longrightarrow> isWriting (c_channel c) = (readable (outputBuffer c) \<noteq> []))"

definition conn_ok :: "conn \<Rightarrow> bool" where
  "conn_ok c \<longleftrightarrow> buffer_wf (inputBuffer c) \<and> buffer_wf (outputBuffer c)
     \<and> c_taken c @ readable (inputBuffer c) = c_received c \<and> writes_pending c"

lemma readable_empty_iff: "buffer_wf b \<Longrightarrow> readableBytes b = 0 \<longleftrightarrow> readable b = []"
  using length_readable [of b] by (metis length_0_conv)

text \<open>An operation that touches neither buffer, and keeps the write events or disconnects.\<close>

definition same_streams :: "conn \<Rightarrow> conn \<Rightarrow> bool" where
  "same_streams c c' \<longleftrightarrow> inputBuffer c' = inputBuffer c \<and> outputBuffer c' = outputBuffer c
     \<and> c_sent c' = c_sent c \<and> c_received c' = c_received c \<and> c_taken c' = c_taken c
     \<and> (c_state c' \<noteq> KDisconnected \<longrightarrow> c_state c \<noteq> KDisconnected
          \<and> isWriting (c_channel c') = isWriting (c_channel c))"

lemma same_streams_ok: "same_streams c c' \<Longrightarrow> conn_ok c \<Longrightarrow> conn_ok c' \<and> out_stream c' = out_stream c"
  by (simp add: same_streams_def conn_ok_def writes_pending_def out_stream_def)

lemma same_streams_trans: "same_streams c c' \<Longrightarrow> same_streams c' c'' \<Longrightarrow> same_streams c c''"
  by (auto simp: same_streams_def)

lemma same_streams_simps [simp]:
  "same_streams c c" "same_streams c (log_event e c)" "same_streams c (queue_functor f c)"
  "same_streams c (log_event e (log_event e' c))"
  "same_streams c (c\<lparr>c_queue := q\<rparr>)"
  "same_streams c (c\<lparr>c_channel := set_revents r (c_channel c)\<rparr>)"
  by (simp_all add: same_streams_def)

lemma quiet_ops:
  "same_streams c (shutdownInLoop c)" "same_streams c (shutdown in_loop c)"
  "same_streams c (forceClose c)" "same_streams c (handleClose c)" "same_streams c (handleError c)"
  "same_streams c (connectDestroyed c)" "same_streams c (forceCloseInLoop c)"
  "c_state c = KConnecting \<Longrightarrow> same_streams c (connectEstablished c)"
  by (auto simp: same_streams_def shutdownInLoop_def shutdown_def forceClose_def handleClose_def
      handleError_def connectDestroyed_def forceCloseInLoop_def connectEstablished_def
      connectionCallback_def Let_def)

lemma send_rest_props:
  assumes "conn_ok c" and "c_state c \<noteq> KDisconnected" and "n < length s"
  shows "conn_ok (send_rest s n c)" and "out_stream (send_rest s n c) = out_stream c @ drop n s"
  using assms
  by (simp_all add: send_rest_def conn_ok_def out_stream_def writes_pending_def Let_def
      bq.queue_laws)

lemma send_direct_props:
  assumes ok: "conn_ok c" and r: "send_direct s wr c = (n, fault, c')"
  shows "conn_ok c'" and "c_state c' = c_state c"
    and "out_stream c' = out_stream c @ (if fault then [] else take n s)"
    and "fault \<Longrightarrow> n = 0" and "n \<le> length s"
proof -
  have empty: "readableBytes (outputBuffer c) = 0 \<Longrightarrow> readable (outputBuffer c) = []"
    using ok by (simp add: conn_ok_def readable_empty_iff)
  show "conn_ok c'"
    using ok r by (cases wr) (auto simp: send_direct_def conn_ok_def writes_pending_def Let_def split: if_splits)
  show "c_state c' = c_state c" "fault \<Longrightarrow> n = 0" "n \<le> length s"
    using r by (cases wr; auto simp: send_direct_def Let_def split: if_splits)+
  show "out_stream c' = out_stream c @ (if fault then [] else take n s)"
    using r empty
    by (cases wr) (auto simp: send_direct_def out_stream_def Let_def split: if_splits)
qed

lemma sendInLoop_props:
  assumes ok: "conn_ok c"
  shows "conn_ok (sendInLoop s wr c)"
    and "out_stream (sendInLoop s wr c) = out_stream c @ (if send_accepts s wr c then s else [])"
proof -
  obtain n fault c' where r: "send_direct s wr c = (n, fault, c')"
    by (cases "send_direct s wr c")
  note d = send_direct_props [OF ok r]
  have rest: "c_state c \<noteq> KDisconnected \<Longrightarrow> n < length s \<Longrightarrow> conn_ok (send_rest s n c')
      \<and> out_stream (send_rest s n c') = out_stream c' @ drop n s"
    using send_rest_props [OF d(1)] d(2) by simp
  show "conn_ok (sendInLoop s wr c)"
    using rest d(1) ok by (simp add: sendInLoop_def r)
  show "out_stream (sendInLoop s wr c) = out_stream c @ (if send_accepts s wr c then s else [])"
    using rest d(3,4,5) by (auto simp: sendInLoop_def send_accepts_def r)
qed

lemma handleWrite_props:
  assumes ok: "conn_ok c"
  shows "conn_ok (handleWrite wr c)" and "out_stream (handleWrite wr c) = out_stream c"
proof -
  let ?out = "readable (outputBuffer c)"
  let ?n = "nat (kernel_write wr ?out)"
  have wf: "buffer_wf (outputBuffer c)" using ok by (simp add: conn_ok_def)
  have n: "?n \<le> length ?out" by (simp add: kernel_write_def split: write_result.splits)
  define c1 where "c1 = c\<lparr>c_sent := c_sent c @ take ?n ?out,
      outputBuffer := snd (retrieve ?n (outputBuffer c))\<rparr>"
  have r1: "readable (outputBuffer c1) = drop ?n ?out" and wf1: "buffer_wf (outputBuffer c1)"
    using bq.contents_pull [OF wf n] bq.wf_pull [OF wf] by (simp_all add: c1_def)
  have out1: "out_stream c1 = out_stream c"
    using r1 by (simp add: out_stream_def c1_def)
  define c2 where "c2 = (let c2 = with_channel disableWriting c1;
      c3 = (if has_writeComplete c2 then queue_functor FWriteComplete c2 else c2)
      in if c_state c3 = KDisconnecting then shutdownInLoop c3 else c3)"
  have hw: "handleWrite wr c = (if isWriting (c_channel c) \<and> kernel_write wr ?out > 0
      then if readableBytes (outputBuffer c1) = 0 then c2 else c1 else log_event Fatal c)"
    by (simp add: handleWrite_def writeFd_def c1_def c2_def Let_def)
  have c2_streams: "inputBuffer c2 = inputBuffer c" "outputBuffer c2 = outputBuffer c1"
      "c_sent c2 = c_sent c1" "c_received c2 = c_received c" "c_taken c2 = c_taken c"
      "\<not> isWriting (c_channel c2)"
    by (auto simp: c2_def c1_def shutdownInLoop_def Let_def)
  have "conn_ok c2" if "readableBytes (outputBuffer c1) = 0"
    using that ok wf1 c2_streams readable_empty_iff [OF wf1] by (simp add: conn_ok_def writes_pending_def)
  moreover have "conn_ok c1" if "readableBytes (outputBuffer c1) \<noteq> 0" "isWriting (c_channel c)"
    using that ok wf1 readable_empty_iff [OF wf1] by (auto simp: conn_ok_def writes_pending_def c1_def)
  ultimately show "conn_ok (handleWrite wr c)"
    using ok same_streams_ok [of c "log_event Fatal c"] by (simp add: hw)
  have "out_stream c2 = out_stream c"
    using out1 c2_streams by (simp add: out_stream_def)
  then show "out_stream (handleWrite wr c) = out_stream c"
    using out1 ok same_streams_ok [of c "log_event Fatal c"] by (simp add: hw)
qed

lemma handleRead_props:
  assumes ok: "conn_ok c"
  shows "conn_ok (handleRead rd c)" and "out_stream (handleRead rd c) = out_stream c"
proof -
  let ?c = "c\<lparr>inputBuffer := snd (readFd rd (inputBuffer c)),
      c_received := c_received c @ (case rd of ReadBytes d \<Rightarrow> d | ReadError e \<Rightarrow> [])\<rparr>"
  have wf: "buffer_wf (inputBuffer c)" using ok by (simp add: conn_ok_def)
  have "conn_ok ?c \<and> out_stream ?c = out_stream c"
    using ok readFd_spec [OF wf]
    by (cases rd) (auto simp: conn_ok_def writes_pending_def out_stream_def simp flip: append_assoc)
  moreover have "same_streams ?c (handleRead rd c)"
    by (simp add: handleRead_def split_beta Let_def quiet_ops(4) handleError_def)
  ultimately show "conn_ok (handleRead rd c)" "out_stream (handleRead rd c) = out_stream c"
    using same_streams_ok [of ?c "handleRead rd c"] by simp_all
qed

lemma conn_retrieve_props:
  assumes ok: "conn_ok c"
  shows "conn_ok (snd (conn_retrieve n c))" and "out_stream (snd (conn_retrieve n c)) = out_stream c"
proof -
  have wf: "buffer_wf (inputBuffer c)" using ok by (simp add: conn_ok_def)
  show "conn_ok (snd (conn_retrieve n c))"
    using ok bq.queue_laws [OF wf] bq.contents_pull [OF wf, of n] bq.pull_too_much [OF wf, of n]
    by (cases "n \<le> length (readable (inputBuffer c))")
       (auto simp: conn_retrieve_def conn_ok_def writes_pending_def split_beta Let_def)
  show "out_stream (snd (conn_retrieve n c)) = out_stream c"
    by (simp add: conn_retrieve_def out_stream_def split_beta Let_def)
qed

text \<open>One event: the four callbacks in their order.\<close>

lemma guard_props:
  assumes step: "\<And>cb c. P c \<Longrightarrow> P (run cb c)" and "P c"
  shows "P (handleEventWithGuard view run c)"
  using assms by (simp add: handleEventWithGuard_def Let_def)

lemma conn_handler_props:
  "conn_ok c \<Longrightarrow> conn_ok (conn_handler rd wr cb c) \<and> out_stream (conn_handler rd wr cb c) = out_stream c"
  using handleRead_props [of c rd] handleWrite_props [of c wr]
    same_streams_ok [OF quiet_ops(4), of c] same_streams_ok [OF quiet_ops(5), of c]
  by (cases cb) (simp_all add: conn_handler_def)

lemma conn_dispatch_props:
  assumes "conn_ok c"
  shows "conn_ok (conn_dispatch r rd wr c) \<and> out_stream (conn_dispatch r rd wr c) = out_stream c"
proof -
  let ?c = "c\<lparr>c_channel := set_revents r (c_channel c)\<rparr>"
  have "conn_ok ?c \<and> out_stream ?c = out_stream c"
    using assms by (rule same_streams_ok [rotated]) simp
  then show ?thesis
    unfolding conn_dispatch_def handleEvent_def
    using guard_props [where P = "\<lambda>x. conn_ok x \<and> out_stream x = out_stream c"
        and run = "conn_handler rd wr" and view = c_channel and c = ?c]
      conn_handler_props by auto
qed

lemma conn_apply_props:
  assumes ok: "conn_ok c"
  shows "conn_ok (conn_apply op c) \<and> out_stream (conn_apply op c) = out_stream c @ op_accepts op c"
proof (cases op)
  case (UserSend in_loop s wr)
  then show ?thesis
    using sendInLoop_props [OF ok] ok same_streams_ok [of c "queue_functor (FSend s) c"]
    by (simp add: conn_send_def op_accepts_def)
next
  case (RunQueued wr)
  show ?thesis
  proof (cases "c_queue c")
    case (Cons f fs)
    have q: "conn_ok (c\<lparr>c_queue := fs\<rparr>) \<and> out_stream (c\<lparr>c_queue := fs\<rparr>) = out_stream c"
      using ok by (rule same_streams_ok [rotated]) simp
    then show ?thesis
      using sendInLoop_props [of "c\<lparr>c_queue := fs\<rparr>"] same_streams_ok [of "c\<lparr>c_queue := fs\<rparr>"]
        quiet_ops(1,6,7) [of "c\<lparr>c_queue := fs\<rparr>"] same_streams_simps(2) [of "c\<lparr>c_queue := fs\<rparr>"]
      by (cases f) (simp_all add: RunQueued Cons run_functor_def op_accepts_def)
  qed (simp add: RunQueued ok op_accepts_def)
next
  case (Report r rd wr)
  then show ?thesis using conn_dispatch_props [OF ok] ok by (simp add: op_accepts_def)
next
  case (UserRetrieve n)
  then show ?thesis using conn_retrieve_props [OF ok] by (simp add: op_accepts_def)
next
  case Establish
  then show ?thesis using same_streams_ok [OF quiet_ops(8) ok] ok by (simp add: op_accepts_def)
next
  case (UserShutdown in_loop)
  then show ?thesis using same_streams_ok [OF quiet_ops(2) ok] by (simp add: op_accepts_def)
next
  case UserForceClose
  then show ?thesis using same_streams_ok [OF quiet_ops(3) ok] by (simp add: op_accepts_def)
next
  case OwnerDestroys
  then show ?thesis using same_streams_ok [OF same_streams_simps(3) ok] ok by (simp add: op_accepts_def)
next
  case OwnerDestroysInLoop
  then show ?thesis using same_streams_ok [OF quiet_ops(6) ok] by (simp add: op_accepts_def)
qed

lemma conn_run_props:
  "conn_ok c \<Longrightarrow> conn_ok (fst (conn_run ops c))
    \<and> out_stream (fst (conn_run ops c)) = out_stream c @ snd (conn_run ops c)"
proof (induction ops arbitrary: c)
  case (Cons op ops)
  have "conn_ok (conn_apply op c)" using conn_apply_props [OF Cons.prems] by blast
  from Cons.IH [OF this] show ?case
    using conn_apply_props [OF Cons.prems, of op] by (simp add: split_beta)
qed simp

lemma new_conn_ok: "\<not> isWriting ch \<Longrightarrow> conn_ok (new_conn name ch p wc hw)"
  by (simp add: conn_ok_def new_conn_def writes_pending_def isWriting_def)

section \<open>States, callbacks and the registration\<close>

definition notices :: "conn \<Rightarrow> conn_event list" where
  "notices c = filter (\<lambda>e. \<exists>up. e = Connection up) (c_log c)"

definition closes :: "conn \<Rightarrow> nat" where
  "closes c = count_list (c_log c) Close"

fun expected_notices :: "conn_state \<Rightarrow> conn_event list" where
  "expected_notices KConnecting = []"
| "expected_notices KConnected = [Connection True]"
| "expected_notices KDisconnecting = [Connection True]"
| "expected_notices KDisconnected = [Connection True, Connection False]"

definition life_ok :: "conn \<Rightarrow> bool" where
  "life_ok c \<longleftrightarrow> notices c = expected_notices (c_state c)
     \<and> (case c_state c of
          KConnecting \<Rightarrow> ch_state (c_channel c) \<noteq> KAdded \<and> c_queue c = [] \<and> closes c = 0
        | KDisconnected \<Rightarrow> \<not> conn_registered c \<and> closes c \<le> 1
        | _ \<Rightarrow> ch_state (c_channel c) = KAdded \<and> isReading (c_channel c) \<and> closes c = 0)"

lemma notices_sel [simp]:
  "notices (log_event (Connection b) c) = notices c @ [Connection b]"
  "(\<And>b. e \<noteq> Connection b) \<Longrightarrow> notices (log_event e c) = notices c"
  "notices (queue_functor f c) = notices c" "notices (with_channel g c) = notices c"
  "closes (log_event e c) = closes c + (if e = Close then 1 else 0)"
  "closes (queue_functor f c) = closes c" "closes (with_channel g c) = closes c"
  by (auto simp: notices_def closes_def)

lemma kWriteEvent_read [simp]: "(e OR kWriteEvent) AND kReadEvent = e AND kReadEvent"
  "(e AND NOT kWriteEvent) AND kReadEvent = e AND kReadEvent"
proof -
  have k: "kWriteEvent AND kReadEvent = 0" by (simp add: event_masks)
  then show "(e OR kWriteEvent) AND kReadEvent = e AND kReadEvent"
    by (simp add: bit.conj_disj_distrib2)
  have "NOT kWriteEvent AND kReadEvent = kReadEvent" by (simp add: event_masks)
  then show "(e AND NOT kWriteEvent) AND kReadEvent = e AND kReadEvent"
    by (simp add: and.assoc)
qed

text \<open>While reading is enabled, switching the write events keeps the channel registered.\<close>

lemma reading_kept:
  assumes "ch_state (fst cp) = KAdded" and "isReading (fst cp)"
  shows "ch_state (fst (enableWriting cp)) = KAdded" "isReading (fst (enableWriting cp))"
    and "ch_state (fst (disableWriting cp)) = KAdded" "isReading (fst (disableWriting cp))"
proof -
  have "e AND kReadEvent \<noteq> 0 \<Longrightarrow> e OR kWriteEvent \<noteq> 0 \<and> e AND NOT kWriteEvent \<noteq> 0" for e
    using kWriteEvent_read [of e] by (metis bit.conj_zero_left)
  then show "ch_state (fst (enableWriting cp)) = KAdded" "isReading (fst (enableWriting cp))"
    "ch_state (fst (disableWriting cp)) = KAdded" "isReading (fst (disableWriting cp))"
    using assms
    by (auto simp: isReading_def channel_ops split_beta updateChannel_def isNoneEvent_def
        kNoneEvent_def)
qed

lemma established_channel:
  "ch_state (fst cp) \<noteq> KAdded \<Longrightarrow> ch_state (fst (enableReading cp)) = KAdded \<and> isReading (fst (enableReading cp))"
proof -
  have "(e OR kReadEvent) AND kReadEvent = kReadEvent" "kReadEvent \<noteq> 0" for e
    by (simp_all add: event_masks and.commute)
  then show "ch_state (fst cp) \<noteq> KAdded \<Longrightarrow> ?thesis"
    by (cases "ch_state (fst cp)")
       (auto simp: isReading_def channel_ops split_beta updateChannel_def Let_def)
qed

lemma disableAll_state:
  "ch_state (fst cp) = KAdded \<Longrightarrow> ch_state (fst (disableAll cp)) = KDeleted"
  by (simp add: disableAll_def split_beta updateChannel_def isNoneEvent_def)

lemma removed_channel:
  "\<not> hasChannel (fst (removeChannel cp)) (snd (removeChannel cp))"
  "fst (removeChannel cp) = fst cp"
  by (simp_all add: removeChannel_def hasChannel_def poller_update_def split_beta Let_def)

definition alive_conn :: "conn \<Rightarrow> bool" where
  "alive_conn c \<longleftrightarrow> c_state c = KConnected \<or> c_state c = KDisconnecting"

lemma life_alive:
  "alive_conn c \<Longrightarrow> life_ok c \<longleftrightarrow> notices c = [Connection True] \<and> ch_state (c_channel c) = KAdded
    \<and> isReading (c_channel c) \<and> closes c = 0"
  by (auto simp: alive_conn_def life_ok_def)

lemma life_dead:
  "c_state c = KDisconnected \<Longrightarrow> life_ok c \<longleftrightarrow> notices c = [Connection True, Connection False]
    \<and> \<not> conn_registered c \<and> closes c \<le> 1"
  by (simp add: life_ok_def)

lemma life_registered: "life_ok c \<Longrightarrow> conn_registered c \<Longrightarrow> alive_conn c"
  by (cases "c_state c") (simp_all add: life_ok_def alive_conn_def conn_registered_def)

text \<open>What sending does to the rest of the record.\<close>

definition send_frame :: "conn \<Rightarrow> conn \<Rightarrow> bool" where
  "send_frame c c' \<longleftrightarrow> c_state c' = c_state c \<and> notices c' = notices c \<and> closes c' = closes c
     \<and> (c_channel c' = c_channel c \<and> c_poller c' = c_poller c
        \<or> c_state c \<noteq> KDisconnected \<and> (\<exists>p. c_channel c' = fst (enableWriting (c_channel c, p))
             \<or> c_channel c' = fst (disableWriting (c_channel c, p))))
     \<and> (c_state c = KConnecting \<longrightarrow> c_queue c' = c_queue c)"

lemma send_frame_life:
  assumes "send_frame c c'" and "life_ok c" and "c_state c \<noteq> KConnecting"
  shows "life_ok c'"
proof (cases "c_state c = KDisconnected")
  case True
  then show ?thesis using assms by (auto simp: send_frame_def life_dead conn_registered_def)
next
  case False
  then have "alive_conn c" and "alive_conn c'"
    using assms by (cases "c_state c"; auto simp: alive_conn_def send_frame_def)+
  then show ?thesis
    using assms reading_kept [of "(c_channel c, _)"]
    by (auto simp: life_alive send_frame_def)
qed

lemma notices_upd [simp]:
  "notices (c\<lparr>c_sent := x\<rparr>) = notices c" "closes (c\<lparr>c_sent := x\<rparr>) = closes c"
  "notices (c\<lparr>outputBuffer := y\<rparr>) = notices c" "closes (c\<lparr>outputBuffer := y\<rparr>) = closes c"
  "notices (c\<lparr>c_wr_shut := z\<rparr>) = notices c" "closes (c\<lparr>c_wr_shut := z\<rparr>) = closes c"
  "notices (c\<lparr>c_state := st\<rparr>) = notices c" "closes (c\<lparr>c_state := st\<rparr>) = closes c"
  "notices (c\<lparr>c_channel := ch\<rparr>) = notices c" "closes (c\<lparr>c_channel := ch\<rparr>) = closes c"
  "notices (c\<lparr>c_queue := q\<rparr>) = notices c" "closes (c\<lparr>c_queue := q\<rparr>) = closes c"
  "notices (c\<lparr>inputBuffer := y\<rparr>) = notices c" "closes (c\<lparr>inputBuffer := y\<rparr>) = closes c"
  "notices (c\<lparr>c_received := x\<rparr>) = notices c" "closes (c\<lparr>c_received := x\<rparr>) = closes c"
  "notices (c\<lparr>c_taken := x\<rparr>) = notices c" "closes (c\<lparr>c_taken := x\<rparr>) = closes c"
  by (simp_all add: notices_def closes_def)

lemma send_direct_frame:
  "send_direct s wr c = (n, fault, c') \<Longrightarrow> c_state c' = c_state c \<and> notices c' = notices c
    \<and> closes c' = closes c \<and> c_channel c' = c_channel c \<and> c_poller c' = c_poller c"
  by (cases wr) (auto simp: send_direct_def Let_def split: if_splits)

lemma send_rest_frame:
  "c_state (send_rest s n c) = c_state c \<and> notices (send_rest s n c) = notices c
    \<and> closes (send_rest s n c) = closes c
    \<and> (c_channel (send_rest s n c) = c_channel c \<and> c_poller (send_rest s n c) = c_poller c
       \<or> c_channel (send_rest s n c) = fst (enableWriting (c_channel c, c_poller c)))"
  by (simp add: send_rest_def Let_def)

lemma sendInLoop_frame: "c_state c \<noteq> KConnecting \<Longrightarrow> send_frame c (sendInLoop s wr c)"
proof -
  assume st: "c_state c \<noteq> KConnecting"
  obtain n fault c' where r: "send_direct s wr c = (n, fault, c')"
    by (cases "send_direct s wr c")
  show ?thesis
    using st send_direct_frame [OF r] send_rest_frame [of s n c']
    by (auto simp: sendInLoop_def r send_frame_def)
qed

lemma handleWrite_frame: "c_state c \<noteq> KConnecting \<Longrightarrow> c_state c \<noteq> KDisconnected \<or> \<not> isWriting (c_channel c)
    \<Longrightarrow> send_frame c (handleWrite wr c)"
  by (auto simp: send_frame_def handleWrite_def Let_def shutdownInLoop_def)

text \<open>Each handler, started on a live connection.\<close>

definition handler_ok :: "conn \<Rightarrow> bool" where
  "handler_ok c \<longleftrightarrow> life_ok c \<and> (alive_conn c \<or> c_state c = KDisconnected \<and> \<not> isWriting (c_channel c))"

lemma life_close:
  assumes "alive_conn c" and "life_ok c"
  shows "life_ok (handleClose c)" and "c_state (handleClose c) = KDisconnected"
    and "\<not> isWriting (c_channel (handleClose c))"
    and "ch_revents (c_channel (handleClose c)) = ch_revents (c_channel c)"
proof -
  show st: "c_state (handleClose c) = KDisconnected" and "\<not> isWriting (c_channel (handleClose c))"
    by (simp_all add: handleClose_def connectionCallback_def Let_def)
  show "ch_revents (c_channel (handleClose c)) = ch_revents (c_channel c)"
    by (simp add: handleClose_def connectionCallback_def Let_def disableAll_def split_beta)
  have "notices (handleClose c) = [Connection True, Connection False]" "closes (handleClose c) = 1"
    using assms by (simp_all add: life_alive handleClose_def connectionCallback_def Let_def connected_def)
  moreover have "ch_state (c_channel (handleClose c)) = KDeleted"
    using assms disableAll_state [of "(c_channel c, c_poller c)"]
    by (simp add: life_alive handleClose_def connectionCallback_def Let_def)
  ultimately show "life_ok (handleClose c)"
    using st by (simp add: life_dead conn_registered_def)
qed

lemma life_log:
  assumes "life_ok c" and "\<And>up. e \<noteq> Connection up" and "e \<noteq> Close"
  shows "life_ok (log_event e c)"
proof -
  have "conn_registered (log_event e c) = conn_registered c" by (simp add: conn_registered_def)
  then show ?thesis using assms by (cases "c_state c") (simp_all add: life_ok_def)
qed

lemma life_buffers:
  "life_ok (c\<lparr>inputBuffer := b, c_received := x\<rparr>) = life_ok c"
  "life_ok (c\<lparr>inputBuffer := b, c_taken := x\<rparr>) = life_ok c"
  by (cases "c_state c"; simp add: life_ok_def conn_registered_def)+

lemma handler_error: "handler_ok c \<Longrightarrow> handler_ok (handleError c)"
  by (auto simp: handler_ok_def handleError_def alive_conn_def life_log)

lemma handler_read:
  assumes "alive_conn c" and "life_ok c"
  shows "handler_ok (handleRead rd c)"
proof -
  define c1 where "c1 = c\<lparr>inputBuffer := snd (readFd rd (inputBuffer c)),
      c_received := c_received c @ (case rd of ReadBytes d \<Rightarrow> d | ReadError e \<Rightarrow> [])\<rparr>"
  have a: "alive_conn c1" "life_ok c1" using assms by (simp_all add: c1_def alive_conn_def life_buffers)
  then have l: "handler_ok (log_event Message c1)" "handler_ok (handleError (log_event Fatal c1))"
      "handler_ok (handleClose c1)"
    using life_close [OF a] by (simp_all add: handler_ok_def handleError_def alive_conn_def life_log)
  show ?thesis
    using l by (simp add: handleRead_def split_beta Let_def c1_def)
qed

lemma handler_write:
  assumes "handler_ok c"
  shows "handler_ok (handleWrite wr c)"
proof -
  have nc: "c_state c \<noteq> KConnecting" "c_state c \<noteq> KDisconnected \<or> \<not> isWriting (c_channel c)"
    using assms by (auto simp: handler_ok_def alive_conn_def)
  have f: "send_frame c (handleWrite wr c)" by (rule handleWrite_frame [OF nc])
  have "life_ok (handleWrite wr c)"
    using send_frame_life [OF f _ nc(1)] assms by (simp add: handler_ok_def)
  moreover have "c_state (handleWrite wr c) = c_state c" using f by (simp add: send_frame_def)
  moreover have "\<not> isWriting (c_channel c) \<Longrightarrow> c_channel (handleWrite wr c) = c_channel c"
    by (simp add: handleWrite_def)
  ultimately show ?thesis using assms by (auto simp: handler_ok_def alive_conn_def)
qed

definition clean_event :: "event_mask \<Rightarrow> bool" where
  "clean_event r \<longleftrightarrow> \<not> (r AND EPOLLHUP \<noteq> 0 \<and> r AND EPOLLIN = 0 \<and> r AND EPOLLPRI \<noteq> 0)"

lemma clean_hangup:
  "clean_event r \<Longrightarrow> r AND EPOLLHUP \<noteq> 0 \<Longrightarrow> r AND EPOLLIN = 0 \<Longrightarrow> r AND kReadEvent = 0"
  by (simp add: clean_event_def kReadEvent_def bit.conj_disj_distrib)

lemma dispatch_life:
  assumes alive: "alive_conn c" and life: "life_ok c" and clean: "clean_event r"
  shows "handler_ok (conn_dispatch r rd wr c)"
proof -
  let ?run = "conn_handler rd wr"
  define s0 where "s0 = c\<lparr>c_channel := set_revents r (c_channel c)\<rparr>"
  define s1 where "s1 = (if (ch_revents (c_channel s0) AND EPOLLHUP \<noteq> 0
      \<and> ch_revents (c_channel s0) AND EPOLLIN = 0) \<and> CloseCb \<in> set (ch_cbs (c_channel s0))
      then handleClose s0 else s0)"
  define s2 where "s2 = (if ch_revents (c_channel s1) AND EPOLLERR \<noteq> 0 \<and> ErrorCb \<in> set (ch_cbs (c_channel s1))
      then handleError s1 else s1)"
  define s3 where "s3 = (if ch_revents (c_channel s2) AND kReadEvent \<noteq> 0 \<and> ReadCb \<in> set (ch_cbs (c_channel s2))
      then handleRead rd s2 else s2)"
  have rev0: "ch_revents (c_channel s0) = r" by (simp add: s0_def set_revents_def)
  have a0: "alive_conn s0" and l0: "life_ok s0"
    using alive life by (simp_all add: s0_def alive_conn_def life_alive set_revents_def isReading_def)
  note close = life_close [OF a0 l0]
  have h0: "handler_ok s0" using a0 l0 by (simp add: handler_ok_def)
  have h1: "handler_ok s1 \<and> ch_revents (c_channel s1) = r
      \<and> (alive_conn s1 \<or> r AND EPOLLHUP \<noteq> 0 \<and> r AND EPOLLIN = 0)"
    using h0 rev0 a0 close by (auto simp: s1_def handler_ok_def)
  have h2: "handler_ok s2 \<and> ch_revents (c_channel s2) = r
      \<and> (alive_conn s2 \<or> r AND EPOLLHUP \<noteq> 0 \<and> r AND EPOLLIN = 0)"
    using h1 handler_error by (auto simp: s2_def handleError_def alive_conn_def)
  have h3: "handler_ok s3"
    using h2 handler_read [of s2 rd] clean_hangup [OF clean] by (auto simp: s3_def handler_ok_def)
  have "conn_dispatch r rd wr c
      = (if ch_revents (c_channel s3) AND kWriteEvent \<noteq> 0 \<and> WriteCb \<in> set (ch_cbs (c_channel s3))
         then handleWrite wr s3 else s3)"
  proof -
    have "conn_dispatch r rd wr c = handleEventWithGuard c_channel ?run s0"
      by (simp add: conn_dispatch_def handleEvent_def s0_def)
    also have "\<dots> = (if ch_revents (c_channel s3) AND kWriteEvent \<noteq> 0
        \<and> WriteCb \<in> set (ch_cbs (c_channel s3)) then handleWrite wr s3 else s3)"
      unfolding handleEventWithGuard_def Let_def conn_handler_def event_cb.case s3_def s2_def s1_def
      by (rule refl)
    finally show ?thesis .
  qed
  then show ?thesis using h3 handler_write [OF h3, of wr] by simp
qed

lemma life_established:
  assumes "c_state c = KConnecting" and "life_ok c"
  shows "life_ok (connectEstablished c)"
proof -
  have "ch_state (fst (tie (c_channel c), c_poller c)) \<noteq> KAdded"
    using assms by (simp add: life_ok_def tie_def)
  from established_channel [OF this] show ?thesis
    using assms
    by (simp add: life_ok_def connectEstablished_def connectionCallback_def connected_def Let_def)
qed

lemma life_destroyed:
  assumes "c_state c \<noteq> KConnecting" and "life_ok c"
  shows "life_ok (connectDestroyed c)"
proof (cases "alive_conn c")
  case True
  then show ?thesis
    using assms removed_channel(1) [of "(c_channel c, c_poller c)"] removed_channel(2)
    by (auto simp: life_alive connectDestroyed_def life_ok_def conn_registered_def
        connectionCallback_def connected_def Let_def alive_conn_def)
next
  case False
  then have "c_state c = KDisconnected" using assms(1) by (cases "c_state c") (simp_all add: alive_conn_def)
  then show ?thesis
    using assms removed_channel(1) [of "(c_channel c, c_poller c)"] removed_channel(2)
    by (simp add: connectDestroyed_def life_dead conn_registered_def)
qed

lemma life_state:
  assumes "alive_conn c" and "life_ok c"
  shows "life_ok (c\<lparr>c_state := KDisconnecting\<rparr>)" "life_ok (queue_functor f (c\<lparr>c_state := KDisconnecting\<rparr>))"
    "life_ok (queue_functor f c)" "life_ok (c\<lparr>c_state := KDisconnecting, c_wr_shut := b\<rparr>)"
  using assms by (auto simp: life_ok_def alive_conn_def)

lemma life_queue:
  "c_state c \<noteq> KConnecting \<Longrightarrow> life_ok (c\<lparr>c_queue := q\<rparr>) = life_ok c"
  "c_state c \<noteq> KConnecting \<Longrightarrow> life_ok (queue_functor f c) = life_ok c"
  "life_ok (c\<lparr>c_wr_shut := b\<rparr>) = life_ok c"
  by (cases "c_state c"; simp add: life_ok_def conn_registered_def)+

fun clean_op :: "conn_op \<Rightarrow> bool" where
  "clean_op (Report r rd wr) = clean_event r"
| "clean_op op = True"

lemma life_functor:
  assumes "c_state c \<noteq> KConnecting" and "life_ok c"
  shows "life_ok (run_functor f wr c)"
  using assms send_frame_life [OF sendInLoop_frame] life_close(1) life_destroyed
  by (cases f)
     (auto simp: run_functor_def shutdownInLoop_def life_queue forceCloseInLoop_def alive_conn_def life_log)

lemma life_apply:
  assumes "life_ok c" and "clean_op op"
  shows "life_ok (conn_apply op c)"
proof (cases op)
  case (Report r rd wr)
  then show ?thesis
    using assms dispatch_life [of c r rd wr] life_registered by (auto simp: handler_ok_def)
next
  case (RunQueued wr)
  show ?thesis
  proof (cases "c_queue c")
    case (Cons f fs)
    then have "c_state c \<noteq> KConnecting" using assms by (auto simp: life_ok_def)
    then show ?thesis using assms life_functor [of "c\<lparr>c_queue := fs\<rparr>" f wr] by (simp add: RunQueued Cons life_queue)
  qed (simp add: RunQueued assms)
next
  case (UserSend in_loop s wr)
  then show ?thesis
    using assms send_frame_life [OF sendInLoop_frame, of c s wr]
    by (simp add: conn_send_def life_queue)
next
  case (UserShutdown in_loop)
  then show ?thesis
    using assms life_state [of c] by (simp add: shutdown_def shutdownInLoop_def alive_conn_def Let_def)
next
  case UserForceClose
  then show ?thesis using assms life_state [of c] by (simp add: forceClose_def alive_conn_def)
next
  case (UserRetrieve n)
  then show ?thesis using assms by (simp add: conn_retrieve_def split_beta Let_def life_buffers)
next
  case OwnerDestroys
  then show ?thesis using assms by (simp add: life_queue)
next
  case OwnerDestroysInLoop
  show ?thesis
  proof (cases "c_state c = KConnecting")
    case True
    then show ?thesis using assms
      by (simp add: OwnerDestroysInLoop connectDestroyed_def life_ok_def removeChannel_def split_beta Let_def)
  next
    case False
    then show ?thesis using assms life_destroyed by (simp add: OwnerDestroysInLoop)
  qed
next
  case Establish
  then show ?thesis using assms life_established by simp
qed

lemma life_run: "life_ok c \<Longrightarrow> list_all clean_op ops \<Longrightarrow> life_ok (fst (conn_run ops c))"
  by (induction ops arbitrary: c) (simp_all add: split_beta life_apply)

lemma new_conn_life: "ch_state ch \<noteq> KAdded \<Longrightarrow> life_ok (new_conn name ch p wc hw)"
  by (simp add: life_ok_def new_conn_def notices_def closes_def)

section \<open>Shutting down the writing side\<close>

lemma wr_shut_only_write:
  "cb \<noteq> WriteCb \<Longrightarrow> c_wr_shut (conn_handler rd wr cb c) = c_wr_shut c"
  by (cases cb) (simp_all add: conn_handler_def handleRead_def handleClose_def handleError_def
      connectionCallback_def split_beta Let_def)

lemma handleWrite_shuts_empty:
  "\<not> c_wr_shut c \<Longrightarrow> c_wr_shut (handleWrite wr c) \<Longrightarrow> readableBytes (outputBuffer (handleWrite wr c)) = 0"
  by (simp add: handleWrite_def shutdownInLoop_def Let_def split: if_splits)

lemma guard_write_last:
  assumes step: "\<And>cb s. cb \<noteq> WriteCb \<Longrightarrow> P s \<Longrightarrow> P (run cb s)" and "P s"
  obtains x where "P x" and "handleEventWithGuard view run s = x \<or> handleEventWithGuard view run s = run WriteCb x"
proof -
  define fire where "fire = (\<lambda>cond cb s. if cond (ch_revents (view s)) \<and> cb \<in> set (ch_cbs (view s))
                              then run cb s else s)"
  have keep: "P (fire cond cb s)" if "cb \<noteq> WriteCb" "P s" for cond cb s
    using that step by (simp add: fire_def)
  define x where "x = fire (\<lambda>r. r AND kReadEvent \<noteq> 0) ReadCb (fire (\<lambda>r. r AND EPOLLERR \<noteq> 0) ErrorCb
      (fire (\<lambda>r. r AND EPOLLHUP \<noteq> 0 \<and> r AND EPOLLIN = 0) CloseCb s))"
  have "P x" unfolding x_def by (intro keep) (simp_all add: assms(2))
  moreover have "handleEventWithGuard view run s = fire (\<lambda>r. r AND kWriteEvent \<noteq> 0) WriteCb x"
    by (simp only: handleEventWithGuard_def Let_def x_def fire_def)
  ultimately show thesis by (intro that [of x]) (simp_all add: fire_def)
qed

lemma dispatch_shuts_empty:
  assumes "\<not> c_wr_shut c" and "c_wr_shut (conn_dispatch r rd wr c)"
  shows "readableBytes (outputBuffer (conn_dispatch r rd wr c)) = 0"
proof -
  have "\<not> c_wr_shut (c\<lparr>c_channel := set_revents r (c_channel c)\<rparr>)" using assms(1) by simp
  then obtain x where x: "\<not> c_wr_shut x"
      "handleEventWithGuard c_channel (conn_handler rd wr) (c\<lparr>c_channel := set_revents r (c_channel c)\<rparr>) = x
       \<or> handleEventWithGuard c_channel (conn_handler rd wr) (c\<lparr>c_channel := set_revents r (c_channel c)\<rparr>)
         = conn_handler rd wr WriteCb x"
    using guard_write_last [of "\<lambda>c. \<not> c_wr_shut c" "conn_handler rd wr"] wr_shut_only_write by metis
  then have "conn_dispatch r rd wr c = x \<or> conn_dispatch r rd wr c = handleWrite wr x"
    by (simp add: conn_dispatch_def handleEvent_def conn_handler_def)
  then show ?thesis using assms(2) x(1) handleWrite_shuts_empty by auto
qed

lemma sendInLoop_wr_shut: "c_wr_shut (sendInLoop s wr c) = c_wr_shut c"
  by (cases wr) (simp_all add: sendInLoop_def send_direct_def send_rest_def Let_def)

lemma functor_shuts_empty:
  assumes "conn_ok c" and "c_state c \<noteq> KDisconnected" and "\<not> c_wr_shut c" and "c_wr_shut (run_functor f wr c)"
  shows "readable (outputBuffer (run_functor f wr c)) = []"
  using assms
  by (cases f)
     (auto simp: run_functor_def sendInLoop_wr_shut shutdownInLoop_def forceCloseInLoop_def
       handleClose_def connectionCallback_def connectDestroyed_def conn_ok_def writes_pending_def
       Let_def split: if_splits)

lemma apply_shuts_empty:
  assumes ok: "conn_ok c" and st: "c_state c \<noteq> KDisconnected"
    and shut: "\<not> c_wr_shut c" "c_wr_shut (conn_apply op c)"
  shows "readable (outputBuffer (conn_apply op c)) = []"
proof (cases op)
  case (Report r rd wr)
  have "buffer_wf (outputBuffer (conn_apply op c))"
    using conn_apply_props [OF ok] by (simp add: conn_ok_def)
  then show ?thesis
    using dispatch_shuts_empty [OF shut(1), of r rd wr] shut Report
    by (auto simp: readable_empty_iff split: if_splits)
next
  case (RunQueued wr)
  then show ?thesis
    using functor_shuts_empty [of "c\<lparr>c_queue := tl (c_queue c)\<rparr>" "hd (c_queue c)" wr] ok st shut
      same_streams_ok [OF same_streams_simps(5), of c]
    by (cases "c_queue c") auto
next
  case (UserShutdown in_loop)
  then show ?thesis
    using ok st shut by (auto simp: shutdown_def shutdownInLoop_def conn_ok_def writes_pending_def
        Let_def split: if_splits)
qed (use shut in \<open>auto simp: connectEstablished_def connectDestroyed_def connectionCallback_def conn_send_def
      sendInLoop_wr_shut forceClose_def conn_retrieve_def split_beta Let_def split: if_splits\<close>)

section \<open>Where the state can go\<close>

lemma handler_state:
  "c_state (conn_handler rd wr cb c) = c_state c \<or> c_state (conn_handler rd wr cb c) = KDisconnected"
  by (cases cb) (auto simp: conn_handler_def handleRead_def handleClose_def handleError_def handleWrite_def
      shutdownInLoop_def connectionCallback_def split_beta Let_def)

lemma sendInLoop_state: "c_state (sendInLoop s wr c) = c_state c"
  by (cases wr) (simp_all add: sendInLoop_def send_direct_def send_rest_def Let_def)

lemma functor_state:
  "c_state (run_functor f wr c) = c_state c \<or> c_state (run_functor f wr c) = KDisconnected"
  by (cases f) (auto simp: run_functor_def sendInLoop_state shutdownInLoop_def forceCloseInLoop_def
      handleClose_def connectDestroyed_def connectionCallback_def Let_def)

lemma dispatch_state:
  "c_state (conn_dispatch r rd wr c) = c_state c \<or> c_state (conn_dispatch r rd wr c) = KDisconnected"
proof -
  let ?P = "\<lambda>x. c_state x = c_state c \<or> c_state x = KDisconnected"
  have step: "?P (conn_handler rd wr cb x)" if "?P x" for cb x
    using that handler_state [of rd wr cb x] by metis
  have "?P (c\<lparr>c_channel := set_revents r (c_channel c)\<rparr>)" by simp
  from guard_props [where P = ?P, OF step this]
  have "?P (handleEventWithGuard c_channel (conn_handler rd wr) (c\<lparr>c_channel := set_revents r (c_channel c)\<rparr>))" .
  then show ?thesis by (simp add: conn_dispatch_def handleEvent_def)
qed

text \<open>Before it is established nothing can happen to a connection; afterwards it never goes back.\<close>

lemma connecting_stays:
  assumes "c_state c = KConnecting" and "c_queue c = []" and "\<And>n. op \<noteq> UserRetrieve n"
    and "\<And>r rd wr. op \<noteq> Report r rd wr" and "op \<noteq> Establish" and "op \<noteq> OwnerDestroysInLoop"
  shows "conn_apply op c = c"
  using assms by (cases op) (auto simp: conn_send_def shutdown_def forceClose_def)

lemma established_forever:
  assumes "c_state c \<noteq> KConnecting"
  shows "c_state (conn_apply op c) \<noteq> KConnecting"
proof (cases op)
  case (Report r rd wr)
  then show ?thesis using assms dispatch_state [of r rd wr c] by auto
next
  case (RunQueued wr)
  show ?thesis
  proof (cases "c_queue c")
    case (Cons f fs)
    then show ?thesis using RunQueued assms functor_state [of f wr "c\<lparr>c_queue := fs\<rparr>"] by auto
  qed (simp add: RunQueued assms)
qed (use assms in \<open>simp_all add: conn_send_def sendInLoop_state connectDestroyed_def connectionCallback_def shutdown_def shutdownInLoop_def forceClose_def
      conn_retrieve_def split_beta Let_def\<close>)

lemma established_state: "c_state (connectEstablished c) = KConnected"
  by (simp add: connectEstablished_def connectionCallback_def Let_def)

text \<open>The connection callback runs when the connection logs that it is UP or DOWN.\<close>

fun is_connection :: "conn_event \<Rightarrow> bool" where
  "is_connection (Connection up) = True"
| "is_connection _ = False"

definition connection_told :: "conn \<Rightarrow> conn \<Rightarrow> bool" where
  "connection_told c c' = list_ex is_connection (drop (length (c_log c)) (c_log c'))"

lemma established_told: "connection_told c (connectEstablished c)"
  by (simp add: connectEstablished_def connectionCallback_def connection_told_def Let_def)

section \<open>Properties of a connection\<close>

text \<open>C1. In any life of a connection the bytes the kernel took followed by those in the output
  buffer are exactly the payloads accepted for sending, in order, and the bytes the user
  retrieved followed by those still readable are exactly the bytes received. Direct writes,
  short writes, buffering, growing and write events lose, repeat and reorder nothing.\<close>

theorem streams_intact:
  assumes "\<not> isWriting ch" and "conn_run ops (new_conn name ch p wc hw) = (c, accepted)"
  shows "c_sent c @ readable (outputBuffer c) = accepted
    \<and> c_taken c @ readable (inputBuffer c) = c_received c"
  using conn_run_props [OF new_conn_ok [OF assms(1)], of ops name p wc hw] assms(2)
  by (simp add: out_stream_def conn_ok_def) (simp add: new_conn_def)

theorem streams_intact_witness:
  "c_sent (fst (conn_run [Establish, UserSend True [1, 2, 3] (Wrote 2), UserSend True [4] (Wrote 1)]
      (new_conn ''c'' (new_channel 1 7) new_poller False False))) = [1, 2]
    \<and> readable (outputBuffer (fst (conn_run [Establish, UserSend True [1, 2, 3] (Wrote 2), UserSend True [4] (Wrote 1)]
      (new_conn ''c'' (new_channel 1 7) new_poller False False)))) = [3, 4]"
proof -
  let ?ops = "[Establish, UserSend True [1, 2, 3] (Wrote 2), UserSend True [4 :: byte] (Wrote 1)]"
  let ?c = "conn_run ?ops (new_conn ''c'' (new_channel 1 7) new_poller False False)"
  have w: "\<not> isWriting (new_channel 1 7)" by (simp add: new_channel_def isWriting_def)
  have r: "readable (append_bytes [3] (new_buffer kInitialSize)) = [3]"
    "readableBytes (append_bytes [3] (new_buffer kInitialSize)) = 1"
    using bq.contents_push [OF wf_new_buffer, of "[3]" kInitialSize]
      length_readable [OF bq.wf_push [OF wf_new_buffer], of "[3]" kInitialSize] by simp_all
  have e: "readableBytes (new_buffer kInitialSize) = 0" by (simp add: new_buffer_def readableBytes_def)
  have "c_sent (fst ?c) = [1, 2] \<and> snd ?c = [1, 2, 3, 4]"
    using w r e
    by (simp add: conn_send_def sendInLoop_def send_direct_def send_rest_def op_accepts_def
        send_accepts_def connectEstablished_def connectionCallback_def new_conn_def Let_def
        isWriting_def log_event_def with_channel_def channel_ops updateChannel_def tie_def new_channel_def
        event_masks)
  then show ?thesis
    using streams_intact [OF w, of ?ops "''c''" new_poller False False "fst ?c" "snd ?c"] by simp
qed

text \<open>C7. While a connection is not disconnected its write events are enabled exactly when there
  is unsent data: the loop is neither woken for nothing nor left with data it will not send.\<close>

theorem write_events_iff_unsent:
  assumes "\<not> isWriting ch" and "c_state (fst (conn_run ops (new_conn name ch p wc hw))) \<noteq> KDisconnected"
  shows "isWriting (c_channel (fst (conn_run ops (new_conn name ch p wc hw))))
    = (readable (outputBuffer (fst (conn_run ops (new_conn name ch p wc hw)))) \<noteq> [])"
  using conn_run_props [OF new_conn_ok [OF assms(1)], of ops name p wc hw] assms(2)
  by (simp add: conn_ok_def writes_pending_def)

theorem write_events_iff_unsent_witness:
  "\<not> isWriting (c_channel (fst (conn_run [Establish] (new_conn ''c'' (new_channel 1 7) new_poller False False))))"
proof -
  have w: "\<not> isWriting (new_channel 1 7)" by (simp add: new_channel_def isWriting_def)
  have "c_state (fst (conn_run [Establish] (new_conn ''c'' (new_channel 1 7) new_poller False False))) \<noteq> KDisconnected"
    "readable (outputBuffer (fst (conn_run [Establish] (new_conn ''c'' (new_channel 1 7) new_poller False False)))) = []"
    by (simp_all add: new_conn_def connectEstablished_def connectionCallback_def Let_def)
  then show ?thesis using write_events_iff_unsent [OF w, of "[Establish]"] by simp
qed

text \<open>C8. Shutting down is graceful: at the moment the writing side of a connection that is not yet
  disconnected is shut, the kernel has taken every byte accepted for sending until then. The proviso
  is needed: \<^verbatim>\<open>handleClose\<close> disables the write events and leaves what is unsent in the buffer, so
  that a \<^verbatim>\<open>shutdownInLoop\<close> that waits in the queue meanwhile shuts the writing side of a
  disconnected connection with bytes unsent.\<close>

theorem shutdown_after_all_sent:
  assumes "\<not> isWriting ch" and "conn_run ops (new_conn name ch p wc hw) = (c, accepted)"
    and "c_state c \<noteq> KDisconnected" and "\<not> c_wr_shut c" and "c_wr_shut (conn_apply op c)"
  shows "c_sent (conn_apply op c) = accepted @ op_accepts op c"
proof -
  have ok: "conn_ok c" and out: "out_stream c = accepted"
    using conn_run_props [OF new_conn_ok [OF assms(1)], of ops name p wc hw] assms(2)
    by (simp_all add: out_stream_def) (simp add: new_conn_def)
  have "readable (outputBuffer (conn_apply op c)) = []"
    by (rule apply_shuts_empty [OF ok assms(3-5)])
  then show ?thesis
    using conn_apply_props [OF ok, of op] out by (simp add: out_stream_def)
qed

theorem shutdown_after_all_sent_witness:
  "c_sent (conn_apply (UserShutdown True) (fst (conn_run [Establish, UserSend True [5, 6] (Wrote 2)]
      (new_conn ''c'' (new_channel 1 7) new_poller False False)))) = [5, 6]"
proof -
  let ?ops = "[Establish, UserSend True [5, 6 :: byte] (Wrote 2)]"
  let ?r = "conn_run ?ops (new_conn ''c'' (new_channel 1 7) new_poller False False)"
  have w: "\<not> isWriting (new_channel 1 7)" by (simp add: new_channel_def isWriting_def)
  have e: "readableBytes (new_buffer kInitialSize) = 0" by (simp add: new_buffer_def readableBytes_def)
  have "c_state (fst ?r) \<noteq> KDisconnected \<and> \<not> c_wr_shut (fst ?r)
      \<and> c_wr_shut (conn_apply (UserShutdown True) (fst ?r)) \<and> snd ?r = [5, 6]"
    using w e
    by (simp add: conn_send_def sendInLoop_def send_direct_def send_rest_def op_accepts_def shutdown_def
        send_accepts_def connectEstablished_def connectionCallback_def new_conn_def Let_def shutdownInLoop_def
        isWriting_def log_event_def with_channel_def channel_ops updateChannel_def tie_def new_channel_def
        event_masks)
  then show ?thesis
    using shutdown_after_all_sent [OF w, of ?ops "''c''" new_poller False False "fst ?r" "snd ?r"
        "UserShutdown True"] by (simp add: op_accepts_def)
qed

text \<open>A connection only moves forward through connecting, connected, disconnecting and
  disconnected, whatever happens to it.\<close>

theorem states_move_forward:
  "c_state c \<le> c_state (conn_apply op c)"
proof -
  have stays: "c_state c \<le> c_state x" if "c_state x = c_state c \<or> c_state x = KDisconnected" for x
    using that by (cases "c_state c") (auto simp: less_eq_conn_state_def)
  show ?thesis
  proof (cases op)
    case (Report r rd wr)
    then show ?thesis using stays [OF dispatch_state] by simp
  next
    case (RunQueued wr)
    then show ?thesis
      using functor_state [of _ _ "c\<lparr>c_queue := _\<rparr>"] by (auto intro: stays split: list.splits)
  qed (auto simp: connectEstablished_def connectDestroyed_def connectionCallback_def conn_send_def sendInLoop_state shutdown_def
      shutdownInLoop_def forceClose_def conn_retrieve_def less_eq_conn_state_def split_beta Let_def)
qed

text \<open>C10. The user hears of a connection in order and once: nothing while it connects, then one
  UP, then one DOWN exactly when it is disconnected, and the owner is told to drop it at most
  once. Provided no event reports a hang-up together with urgent data but no data to read
  (\<open>clean_op\<close>): for such an event \<^verbatim>\<open>handleEvent\<close> calls \<^verbatim>\<open>handleClose\<close> and then \<^verbatim>\<open>handleRead\<close>, which
  closes a second time when it reads the end of the stream; and no event is handled after
  \<^verbatim>\<open>connectDestroyed\<close> has removed the channel.\<close>

theorem up_then_down_once:
  assumes "ch_state ch \<noteq> KAdded" and "list_all clean_op ops"
    and "c = fst (conn_run ops (new_conn name ch p wc hw))"
  shows "filter (\<lambda>e. \<exists>up. e = Connection up) (c_log c) = expected_notices (c_state c)
    \<and> count_list (c_log c) Close \<le> 1"
proof -
  have "life_ok c" unfolding assms(3) by (rule life_run [OF new_conn_life [OF assms(1)] assms(2)])
  then show ?thesis
    by (cases "c_state c") (simp_all add: life_ok_def notices_def closes_def)
qed

theorem up_then_down_once_witness:
  "filter (\<lambda>e. \<exists>up. e = Connection up)
     (c_log (fst (conn_run [Establish, UserForceClose, RunQueued (Wrote 0), RunQueued (Wrote 0)]
        (new_conn ''c'' (new_channel 1 7) new_poller False False)))) = [Connection True, Connection False]"
proof -
  let ?ops = "[Establish, UserForceClose, RunQueued (Wrote 0), RunQueued (Wrote 0)]"
  let ?c = "fst (conn_run ?ops (new_conn ''c'' (new_channel 1 7) new_poller False False))"
  have "c_state ?c = KDisconnected"
    by (simp add: new_conn_def connectEstablished_def connectionCallback_def forceClose_def
        forceCloseInLoop_def run_functor_def handleClose_def queue_functor_def log_event_def
        with_channel_def split_beta Let_def)
  moreover have "ch_state (new_channel 1 7) \<noteq> KAdded" by (simp add: new_channel_def)
  ultimately show ?thesis
    using up_then_down_once [of "new_channel 1 7" ?ops ?c "''c''" new_poller False False] by simp
qed

text \<open>\<^verbatim>\<open>shutdown()\<close> in the loop thread overtakes a \<^verbatim>\<open>send()\<close> another thread made before it: the
  payload waits in the queue while the writing side is shut at once, and when its turn comes
  the write fails with \<^verbatim>\<open>EPIPE\<close> and the payload is dropped.\<close>

theorem shutdown_overtakes_queued_send:
  assumes "conn_ok c" and "c_state c = KConnected" and "c_queue c = []" and "readable (outputBuffer c) = []"
    and "c' = conn_apply (UserShutdown True) (conn_apply (UserSend False s wr) c)"
  shows "c_wr_shut c' \<and> c_queue c' = [FSend s] \<and> c_sent c' = c_sent c
    \<and> op_accepts (RunQueued (WriteFailed EPIPE)) c' = []
    \<and> c_sent (conn_apply (RunQueued (WriteFailed EPIPE)) c') = c_sent c
    \<and> readable (outputBuffer (conn_apply (RunQueued (WriteFailed EPIPE)) c')) = []"
proof -
  have w: "\<not> isWriting (c_channel c)" and e: "readableBytes (outputBuffer c) = 0"
    using assms(1,2,4) by (simp_all add: conn_ok_def writes_pending_def readable_empty_iff)
  show ?thesis
    using assms(2-4) w e unfolding assms(5)
    by (simp add: conn_send_def shutdown_def shutdownInLoop_def queue_functor_def op_accepts_def
        send_accepts_def send_direct_def sendInLoop_def run_functor_def send_fault_def EPIPE_def
        EWOULDBLOCK_def log_event_def Let_def)
qed

theorem shutdown_overtakes_queued_send_witness:
  "\<exists>c. c_state c = KConnected
    \<and> c_wr_shut (conn_apply (UserShutdown True) (conn_apply (UserSend False [9] (Wrote 1)) c))
    \<and> c_queue (conn_apply (UserShutdown True) (conn_apply (UserSend False [9] (Wrote 1)) c)) = [FSend [9]]"
proof -
  let ?c = "fst (conn_run [Establish] (new_conn ''c'' (new_channel 1 7) new_poller False False))"
  have "\<not> isWriting (new_channel 1 7)" by (simp add: new_channel_def isWriting_def)
  then have "conn_ok ?c" using conn_run_props [OF new_conn_ok] by blast
  moreover have st: "c_state ?c = KConnected" and "c_queue ?c = []" and "readable (outputBuffer ?c) = []"
    by (simp_all add: new_conn_def connectEstablished_def connectionCallback_def Let_def)
  ultimately show ?thesis using shutdown_overtakes_queued_send [of ?c _ "[9]" "Wrote 1", OF _ _ _ _ refl]
    by (intro exI [of _ ?c]) blast
qed

end
