(* ===== verification/Acceptor.thy ===== *)
theory Acceptor
  imports TcpServer TcpConn
begin

text \<open>
  \<^verbatim>\<open>Socket\<close> (\<^verbatim>\<open>gdrpc/net/socket.hpp\<close>, \<^verbatim>\<open>socket.cpp\<close>) and \<^verbatim>\<open>Acceptor\<close> (\<^verbatim>\<open>gdrpc/net/acceptor.hpp\<close>,
  \<^verbatim>\<open>acceptor.cpp\<close>), with the channel and the poller the acceptor registers with.

  System calls are a log of what was asked of the kernel, in order, and what they return is an
  argument; a call that fails is only reported (\<open>LogFatal\<close>), the code goes on. \<^verbatim>\<open>newConnection\<close>
  of the server, the callback of the acceptor, is seen here as the descriptors it is given; the
  model of it in \<open>TcpServer\<close> takes them from there.
\<close>

section \<open>Socket\<close>

datatype sock_call = SysSocket int | SetReusePort fd | SetReuseAddr fd | SysBind fd inet_address int
  | SysListen fd int | SysAccept fd int | SysClose fd | LogFatal string

definition kBacklog :: int where "kBacklog = 1024"

definition socket_bindAddress :: "int \<Rightarrow> inet_address \<Rightarrow> fd \<Rightarrow> sock_call list" where
  "socket_bindAddress result localaddr sockfd =
     SysBind sockfd localaddr result # (if result \<noteq> 0 then [LogFatal ''bind''] else [])"

definition socket_listen :: "int \<Rightarrow> fd \<Rightarrow> sock_call list" where
  "socket_listen result sockfd = SysListen sockfd kBacklog # (if result \<noteq> 0 then [LogFatal ''listen''] else [])"

text \<open>\<^verbatim>\<open>accept4\<close> returned \<open>connfd\<close> and filled in \<open>addr\<close>.\<close>

definition socket_accept :: "int \<Rightarrow> inet_address \<Rightarrow> inet_address \<Rightarrow> int \<times> inet_address" where
  "socket_accept connfd addr peeraddr = (connfd, if connfd \<ge> 0 then addr else peeraddr)"

definition socket_destroy :: "fd \<Rightarrow> sock_call list" where
  "socket_destroy sockfd = [SysClose sockfd]"

section \<open>Acceptor\<close>

record acceptor =
  acceptSocket :: fd
  acceptChannel :: channel
  ac_poller :: poller
  has_newConnection :: bool
  listenning :: bool
  ac_calls :: "sock_call list"
  ac_handed :: "(fd \<times> inet_address) list"

definition EMFILE :: int where "EMFILE = 24"

definition createNonblocking :: "int \<Rightarrow> fd \<times> sock_call list" where
  "createNonblocking sockfd = (sockfd, SysSocket sockfd # (if sockfd < 0 then [LogFatal ''listen socket''] else []))"

definition new_acceptor :: "int \<Rightarrow> int \<Rightarrow> nat \<Rightarrow> poller \<Rightarrow> inet_address \<Rightarrow> bool \<Rightarrow> acceptor" where
  "new_acceptor sockfd bind_result a p listenAddr reuseport =
     (let (fd, calls) = createNonblocking sockfd
      in \<lparr>acceptSocket = fd, acceptChannel = (new_channel a fd)\<lparr>ch_cbs := [ReadCb]\<rparr>, ac_poller = p,
          has_newConnection = False, listenning = False,
          ac_calls = calls @ [SetReusePort fd, SetReuseAddr fd] @ socket_bindAddress bind_result listenAddr fd,
          ac_handed = []\<rparr>)"

definition setNewConnectionCallback :: "acceptor \<Rightarrow> acceptor" where
  "setNewConnectionCallback ac = ac\<lparr>has_newConnection := True\<rparr>"

definition listen_op :: "int \<Rightarrow> acceptor \<Rightarrow> acceptor" where
  "listen_op result ac =
     (let (ch, p) = enableReading (acceptChannel ac, ac_poller ac)
      in ac\<lparr>listenning := True, ac_calls := ac_calls ac @ socket_listen result (acceptSocket ac),
            acceptChannel := ch, ac_poller := p\<rparr>)"

definition acceptor_read :: "(string \<Rightarrow> byte \<times> byte \<times> byte \<times> byte) \<Rightarrow> int \<Rightarrow> inet_address \<Rightarrow> int \<Rightarrow> acceptor \<Rightarrow> acceptor" where
  "acceptor_read other result addr errno ac =
     (let (connfd, peerAddr) = socket_accept result addr (new_inet other 0 ''127.0.0.1'');
          ac1 = ac\<lparr>ac_calls := ac_calls ac @ [SysAccept (acceptSocket ac) connfd]\<rparr>
      in if connfd \<ge> 0 then
           if has_newConnection ac1 then ac1\<lparr>ac_handed := ac_handed ac1 @ [(connfd, peerAddr)]\<rparr>
           else ac1\<lparr>ac_calls := ac_calls ac1 @ [SysClose connfd]\<rparr>
         else ac1\<lparr>ac_calls := ac_calls ac1 @ LogFatal ''accept err'' #
                    (if errno = EMFILE then [LogFatal ''sockfd reached limit''] else [])\<rparr>)"

text \<open>The destructor, then those of the members: the channel closes its descriptor, the socket too.\<close>

definition destroy_acceptor :: "acceptor \<Rightarrow> acceptor" where
  "destroy_acceptor ac =
     (let (ch, p) = removeChannel (acceptChannel ac, ac_poller ac)
      in ac\<lparr>acceptChannel := ch, ac_poller := p,
            ac_calls := ac_calls ac @ [SysClose (ch_fd ch)] @ socket_destroy (acceptSocket ac)\<rparr>)"

section \<open>What happens to an acceptor\<close>

datatype acceptor_op = SetCallback | ListenOp int | ReadOp int inet_address int

fun acceptor_apply :: "(string \<Rightarrow> byte \<times> byte \<times> byte \<times> byte) \<Rightarrow> acceptor_op \<Rightarrow> acceptor \<Rightarrow> acceptor" where
  "acceptor_apply other SetCallback ac = setNewConnectionCallback ac"
| "acceptor_apply other (ListenOp result) ac = listen_op result ac"
| "acceptor_apply other (ReadOp result addr errno) ac =
     (if isReading (acceptChannel ac) then acceptor_read other result addr errno ac else ac)"

fun accepted_fds :: "sock_call list \<Rightarrow> fd list" where
  "accepted_fds [] = []"
| "accepted_fds (SysAccept s d # calls) = (if d \<ge> 0 then d # accepted_fds calls else accepted_fds calls)"
| "accepted_fds (_ # calls) = accepted_fds calls"

fun closed_fds :: "sock_call list \<Rightarrow> fd list" where
  "closed_fds [] = []"
| "closed_fds (SysClose d # calls) = d # closed_fds calls"
| "closed_fds (_ # calls) = closed_fds calls"

lemma accepted_append [simp]: "accepted_fds (xs @ ys) = accepted_fds xs @ accepted_fds ys"
  by (induction xs rule: accepted_fds.induct) simp_all

lemma closed_append [simp]: "closed_fds (xs @ ys) = closed_fds xs @ closed_fds ys"
  by (induction xs rule: closed_fds.induct) simp_all

lemma reading_enabled: "isReading (fst (enableReading cp))" "ch_fd (fst (enableReading cp)) = ch_fd (fst cp)"
proof -
  have "(x OR kReadEvent) AND kReadEvent = kReadEvent" for x :: event_mask
    by (rule bit_word_eqI) (auto simp: bit_simps)
  then show "isReading (fst (enableReading cp))" by (simp add: isReading_def enableReading_def split_beta event_masks)
  show "ch_fd (fst (enableReading cp)) = ch_fd (fst cp)" by (simp add: enableReading_def split_beta)
qed

lemma no_extra_fds [simp]:
  "accepted_fds (socket_listen r d) = []" "closed_fds (socket_listen r d) = []"
  "accepted_fds (socket_bindAddress r l d) = []" "closed_fds (socket_bindAddress r l d) = []"
  "accepted_fds (snd (createNonblocking d)) = []" "closed_fds (snd (createNonblocking d)) = []"
  by (simp_all add: socket_listen_def socket_bindAddress_def createNonblocking_def)

definition acceptor_ok :: "fd \<Rightarrow> acceptor \<Rightarrow> bool" where
  "acceptor_ok d ac \<longleftrightarrow> acceptSocket ac = d \<and> ch_fd (acceptChannel ac) = d
     \<and> isReading (acceptChannel ac) = listenning ac
     \<and> (\<not> has_newConnection ac \<longrightarrow> ac_handed ac = [])
     \<and> accepted_fds (ac_calls ac) = closed_fds (ac_calls ac) @ map fst (ac_handed ac)"

lemma new_acceptor_ok: "acceptor_ok d (new_acceptor d r a p l reuseport)"
  using no_extra_fds(5,6) [of d]
  by (simp add: acceptor_ok_def new_acceptor_def Let_def split_beta isReading_def new_channel_def createNonblocking_def)

lemma acceptor_apply_ok: "acceptor_ok d ac \<Longrightarrow> acceptor_ok d (acceptor_apply other op ac)"
  by (cases op) (auto simp: acceptor_ok_def setNewConnectionCallback_def listen_op_def acceptor_read_def
      socket_accept_def Let_def split_beta reading_enabled)

lemma acceptor_run_ok: "acceptor_ok d ac \<Longrightarrow> acceptor_ok d (fold (acceptor_apply other) ops ac)"
  by (induction ops arbitrary: ac) (simp_all add: acceptor_apply_ok)

section \<open>Properties of the acceptor\<close>

text \<open>C31. Every accepted descriptor has one owner. Whatever fails, and whenever the callback is set:
  the descriptors \<^verbatim>\<open>accept\<close> returned are, in order, those closed at once because there was no callback
  yet and those handed to it; reads are asked for exactly when \<^verbatim>\<open>listen\<close> has been called. The
  listening descriptor itself is closed twice at the end, by the channel and by the socket.\<close>

theorem accepted_descriptors_have_one_owner:
  "let ac = fold (acceptor_apply other) ops (new_acceptor d r a p addr reuseport)
   in accepted_fds (ac_calls ac) = closed_fds (ac_calls ac) @ map fst (ac_handed ac)
    \<and> isReading (acceptChannel ac) = listenning ac
    \<and> closed_fds (ac_calls (destroy_acceptor ac)) = closed_fds (ac_calls ac) @ [d, d]"
  using acceptor_run_ok [OF new_acceptor_ok, of d other ops r a p addr reuseport]
  by (simp add: acceptor_ok_def destroy_acceptor_def socket_destroy_def removeChannel_def Let_def)

text \<open>The server makes a connection of each descriptor it is handed, and of nothing else.\<close>

lemma server_takes_what_is_handed:
  "has_newConnection ac \<Longrightarrow>
   acceptor_handleRead result s
     = fold newConnection (map fst (drop (length (ac_handed ac)) (ac_handed (acceptor_read other result addr errno ac)))) s"
  by (simp add: acceptor_handleRead_def acceptor_read_def socket_accept_def Let_def)

end
