(* ===== verification/TcpClient.thy ===== *)
theory TcpClient
  imports Callbacks
begin

text \<open>
  \<^verbatim>\<open>TcpClient\<close> (\<^verbatim>\<open>gdrpc/net/tcpClient.hpp\<close>, \<^verbatim>\<open>tcpClient.cpp\<close>): one connection at a time to a
  server, made by a connector and made again when it is lost.

  A connection object is a number, counted up; of the object the record keeps the name, whether
  it has called its close callback, and the calls the client made on it. Of the connector it
  keeps the calls. The functors queued in the loop wait in \<open>cl_queue\<close>. \<open>None\<close> is undefined
  behaviour: a binary semaphore released while it is up.
\<close>

section \<open>State\<close>

datatype client_call = CliEstablished | CliDestroyed | CliShutdown | CliForceClose

datatype connector_call = ConStart | ConStop | ConRestart

datatype client_functor = FnDestroyed nat | FnForceClose nat | FnSetClose

record client_conn =
  cc_name :: string
  cc_fd :: fd
  cc_closed :: bool
  cc_to_client :: bool
  cc_callbacks :: callbacks
  cc_calls :: "client_call list"

record tcp_client =
  cl_name :: string
  cl_retry :: bool
  cl_connect :: bool
  cl_nextConnId :: nat
  cl_latch :: bool
  cl_connection :: "nat option"
  cl_objects :: "nat \<rightharpoonup> client_conn"
  cl_connector :: "connector_call list"
  cl_queue :: "client_functor list"
  cl_callbacks :: callbacks

definition new_client :: "string \<Rightarrow> tcp_client" where
  "new_client name =
     \<lparr>cl_name = name, cl_retry = False, cl_connect = False, cl_nextConnId = 1, cl_latch = False,
      cl_connection = None, cl_objects = Map.empty, cl_connector = [], cl_queue = [],
      cl_callbacks = no_callbacks\<rparr>"

section \<open>Operations\<close>

definition call_client_conn :: "client_call \<Rightarrow> nat \<Rightarrow> tcp_client \<Rightarrow> tcp_client" where
  "call_client_conn k i c =
     c\<lparr>cl_objects := (cl_objects c)(i := map_option (\<lambda>o'. o'\<lparr>cc_calls := cc_calls o' @ [k]\<rparr>) (cl_objects c i))\<rparr>"

definition call_connector :: "connector_call \<Rightarrow> tcp_client \<Rightarrow> tcp_client" where
  "call_connector k c = c\<lparr>cl_connector := cl_connector c @ [k]\<rparr>"

definition cl_enqueue :: "client_functor \<Rightarrow> tcp_client \<Rightarrow> tcp_client" where
  "cl_enqueue f c = c\<lparr>cl_queue := cl_queue c @ [f]\<rparr>"

definition cl_enableRetry :: "tcp_client \<Rightarrow> tcp_client" where
  "cl_enableRetry c = c\<lparr>cl_retry := True\<rparr>"

definition cl_setConnectionCallback :: "nat \<Rightarrow> tcp_client \<Rightarrow> tcp_client" where
  "cl_setConnectionCallback f c = c\<lparr>cl_callbacks := set_callback ConnectionSlot f (cl_callbacks c)\<rparr>"

definition cl_setMessageCallback :: "nat \<Rightarrow> tcp_client \<Rightarrow> tcp_client" where
  "cl_setMessageCallback f c = c\<lparr>cl_callbacks := set_callback MessageSlot f (cl_callbacks c)\<rparr>"

definition cl_setWriteCompleteCallback :: "nat \<Rightarrow> tcp_client \<Rightarrow> tcp_client" where
  "cl_setWriteCompleteCallback f c = c\<lparr>cl_callbacks := set_callback WriteCompleteSlot f (cl_callbacks c)\<rparr>"

definition cl_set_callback :: "callback_slot \<Rightarrow> nat \<Rightarrow> tcp_client \<Rightarrow> tcp_client" where
  "cl_set_callback slot f =
     (case slot of
        ConnectionSlot \<Rightarrow> cl_setConnectionCallback f
      | MessageSlot \<Rightarrow> cl_setMessageCallback f
      | WriteCompleteSlot \<Rightarrow> cl_setWriteCompleteCallback f)"

lemma cl_set_callback: "cl_set_callback slot f c = c\<lparr>cl_callbacks := set_callback slot f (cl_callbacks c)\<rparr>"
  by (cases slot) (simp_all add: cl_set_callback_def cl_setConnectionCallback_def cl_setMessageCallback_def
      cl_setWriteCompleteCallback_def)

definition cl_connect_op :: "tcp_client \<Rightarrow> tcp_client" where
  "cl_connect_op c = (if cl_connect c then c else call_connector ConStart (c\<lparr>cl_connect := True\<rparr>))"

text \<open>\<^verbatim>\<open>already\<close> waits for the semaphore: it is enabled when the semaphore is up.\<close>

definition cl_already :: "tcp_client \<Rightarrow> tcp_client" where
  "cl_already c = (if cl_latch c then c\<lparr>cl_latch := False\<rparr> else c)"

definition cl_disconnect :: "tcp_client \<Rightarrow> tcp_client" where
  "cl_disconnect c =
     (let c1 = c\<lparr>cl_connect := False\<rparr> in
      case cl_connection c1 of None \<Rightarrow> c1 | Some i \<Rightarrow> call_client_conn CliShutdown i c1)"

definition cl_stop :: "tcp_client \<Rightarrow> tcp_client" where
  "cl_stop c = call_connector ConStop (c\<lparr>cl_connect := False\<rparr>)"

text \<open>
  The name is made from \<^verbatim>\<open>InetAddress peerAddr(peerAddr)\<close>, a variable initialised with itself:
  its bytes \<open>junk\<close> are whatever lay on the stack. \<^verbatim>\<open>snprintf\<close> into \<^verbatim>\<open>char buf[32]\<close> keeps 31
  characters.
\<close>

definition client_conn_name :: "inet_address \<Rightarrow> tcp_client \<Rightarrow> string" where
  "client_conn_name junk c =
     cl_name c @ take 31 ('':'' @ toIpPort junk @ ''#'' @ show_nat (cl_nextConnId c))"

definition cl_newConnection :: "inet_address \<Rightarrow> fd \<Rightarrow> tcp_client \<Rightarrow> tcp_client option" where
  "cl_newConnection junk sockfd c =
     (let i = cl_nextConnId c;
          conn = \<lparr>cc_name = client_conn_name junk c, cc_fd = sockfd, cc_closed = False, cc_to_client = True,
                  cc_callbacks = cl_callbacks c, cc_calls = []\<rparr>;
          c1 = c\<lparr>cl_nextConnId := i + 1, cl_objects := (cl_objects c)(i \<mapsto> conn), cl_connection := Some i\<rparr>;
          c2 = call_client_conn CliEstablished i c1
      in if cl_latch c2 then None else Some (c2\<lparr>cl_latch := True\<rparr>))"

definition cl_removeConnection :: "nat \<Rightarrow> tcp_client \<Rightarrow> tcp_client" where
  "cl_removeConnection i c =
     (let c1 = cl_enqueue (FnDestroyed i) (c\<lparr>cl_connection := None\<rparr>)
      in if cl_retry c1 \<and> cl_connect c1 then call_connector ConRestart c1 else c1)"

text \<open>A connection closes: it calls the callback that is set, of the client or of its destructor.\<close>

definition conn_closes :: "nat \<Rightarrow> tcp_client \<Rightarrow> tcp_client" where
  "conn_closes i c =
     (case cl_objects c i of
        None \<Rightarrow> c
      | Some conn \<Rightarrow>
          (let c1 = c\<lparr>cl_objects := (cl_objects c)(i \<mapsto> conn\<lparr>cc_closed := True\<rparr>)\<rparr>
           in if cc_to_client conn then cl_removeConnection i c1 else cl_enqueue (FnDestroyed i) c1))"

text \<open>
  The destructor. In the loop thread the close callback is replaced at once; from another
  thread a functor that captured the dying client is queued to do it.
\<close>

definition set_close :: "tcp_client \<Rightarrow> tcp_client" where
  "set_close c =
     (case cl_connection c of
        None \<Rightarrow> c
      | Some i \<Rightarrow> c\<lparr>cl_objects := (cl_objects c)(i := map_option (\<lambda>o'. o'\<lparr>cc_to_client := False\<rparr>) (cl_objects c i))\<rparr>)"

definition destroy_client :: "bool \<Rightarrow> tcp_client \<Rightarrow> tcp_client" where
  "destroy_client in_loop c =
     (case cl_connection c of
        None \<Rightarrow> call_connector ConStop c
      | Some i \<Rightarrow> cl_enqueue (FnForceClose i) (if in_loop then set_close c else cl_enqueue FnSetClose c))"

definition run_client_functor :: "client_functor \<Rightarrow> tcp_client \<Rightarrow> tcp_client" where
  "run_client_functor f c =
     (case f of
        FnDestroyed i \<Rightarrow> call_client_conn CliDestroyed i c
      | FnForceClose i \<Rightarrow> call_client_conn CliForceClose i c
      | FnSetClose \<Rightarrow> set_close c)"

section \<open>What can happen to a client\<close>

datatype client_op = EnableRetry | Connect | Already | Disconnect | StopClient
  | Connected inet_address fd | Closes nat | RunFunctor
  | SetClientCallback callback_slot nat

definition live_conn :: "tcp_client \<Rightarrow> nat \<Rightarrow> bool" where
  "live_conn c i \<longleftrightarrow> (case cl_objects c i of None \<Rightarrow> False | Some conn \<Rightarrow> \<not> cc_closed conn)"

fun client_apply :: "client_op \<Rightarrow> tcp_client \<Rightarrow> tcp_client option" where
  "client_apply EnableRetry c = Some (cl_enableRetry c)"
| "client_apply Connect c = Some (cl_connect_op c)"
| "client_apply Already c = Some (cl_already c)"
| "client_apply Disconnect c = Some (cl_disconnect c)"
| "client_apply StopClient c = Some (cl_stop c)"
| "client_apply (Connected junk sockfd) c = cl_newConnection junk sockfd c"
| "client_apply (Closes i) c = Some (if live_conn c i then conn_closes i c else c)"
| "client_apply RunFunctor c =
     Some (case cl_queue c of [] \<Rightarrow> c | f # fs \<Rightarrow> run_client_functor f (c\<lparr>cl_queue := fs\<rparr>))"
| "client_apply (SetClientCallback slot f) c = Some (cl_set_callback slot f c)"

fun client_run :: "client_op list \<Rightarrow> tcp_client \<Rightarrow> tcp_client option" where
  "client_run [] c = Some c"
| "client_run (op # ops) c = (case client_apply op c of None \<Rightarrow> None | Some c' \<Rightarrow> client_run ops c')"

text \<open>The runs in which no connection is made while another one is there.\<close>

fun one_at_a_time :: "client_op list \<Rightarrow> tcp_client \<Rightarrow> bool" where
  "one_at_a_time [] c = True"
| "one_at_a_time (op # ops) c \<longleftrightarrow>
     (case op of Connected junk sockfd \<Rightarrow> cl_connection c = None | _ \<Rightarrow> True)
     \<and> (case client_apply op c of None \<Rightarrow> True | Some c' \<Rightarrow> one_at_a_time ops c')"

section \<open>Invariants\<close>

definition life_calls :: "client_conn \<Rightarrow> client_call list" where
  "life_calls conn = filter (\<lambda>k. k = CliEstablished \<or> k = CliDestroyed) (cc_calls conn)"

text \<open>Established once; once closed, the destruction is queued once or done once.\<close>

definition conn_life :: "client_functor list \<Rightarrow> nat \<Rightarrow> client_conn \<Rightarrow> bool" where
  "conn_life q i conn \<longleftrightarrow>
     (if cc_closed conn
      then life_calls conn = [CliEstablished] \<and> count_list q (FnDestroyed i) = 1
        \<or> life_calls conn = [CliEstablished, CliDestroyed] \<and> count_list q (FnDestroyed i) = 0
      else life_calls conn = [CliEstablished] \<and> count_list q (FnDestroyed i) = 0)"

definition client_ok :: "tcp_client \<Rightarrow> bool" where
  "client_ok c \<longleftrightarrow>
     (\<forall>i conn. cl_objects c i = Some conn \<longrightarrow> i < cl_nextConnId c \<and> conn_life (cl_queue c) i conn
        \<and> cc_to_client conn)
     \<and> (\<forall>i. FnDestroyed i \<in> set (cl_queue c) \<longrightarrow> cl_objects c i \<noteq> None)
     \<and> FnSetClose \<notin> set (cl_queue c)
     \<and> (\<forall>i. cl_connection c = Some i \<longrightarrow> cl_objects c i \<noteq> None)"

definition sole_ok :: "tcp_client \<Rightarrow> bool" where
  "sole_ok c \<longleftrightarrow> (\<forall>i. live_conn c i \<longleftrightarrow> cl_connection c = Some i)"

lemmas client_defs = cl_set_callback cl_enableRetry_def cl_connect_op_def cl_already_def cl_stop_def call_connector_def

lemma conn_life_shutdown:
  "conn_life q i (conn\<lparr>cc_calls := cc_calls conn @ [k]\<rparr>) = conn_life q i conn"
  if "k = CliShutdown \<or> k = CliForceClose"
  using that by (auto simp: conn_life_def life_calls_def)

lemma conn_life_other [simp]:
  "f \<noteq> FnDestroyed i \<Longrightarrow> conn_life (f # q) i conn = conn_life q i conn"
  "f \<noteq> FnDestroyed i \<Longrightarrow> conn_life (q @ [f]) i conn = conn_life q i conn"
  by (simp_all add: conn_life_def)

lemma conn_life_new: "FnDestroyed i \<notin> set q \<Longrightarrow> \<not> cc_closed conn \<Longrightarrow> cc_calls conn = [CliEstablished] \<Longrightarrow> conn_life q i conn"
  by (simp add: conn_life_def life_calls_def count_list_0_iff)

lemma conn_life_close:
  "conn_life q i conn \<Longrightarrow> \<not> cc_closed conn \<Longrightarrow> conn_life (q @ [FnDestroyed i]) i (conn\<lparr>cc_closed := True\<rparr>)"
  by (auto simp: conn_life_def life_calls_def)

lemma conn_life_destroyed:
  "conn_life (FnDestroyed i # q) i conn \<Longrightarrow> conn_life q i (conn\<lparr>cc_calls := cc_calls conn @ [CliDestroyed]\<rparr>)"
  by (auto simp: conn_life_def life_calls_def split: if_splits)

lemma client_okD:
  assumes "client_ok c"
  shows "cl_objects c i = Some conn \<Longrightarrow> i < cl_nextConnId c \<and> conn_life (cl_queue c) i conn \<and> cc_to_client conn"
    and "FnDestroyed i \<in> set (cl_queue c) \<Longrightarrow> \<exists>conn. cl_objects c i = Some conn"
    and "cl_connection c = Some i \<Longrightarrow> \<exists>conn. cl_objects c i = Some conn"
  using assms by (auto simp: client_ok_def)

lemma ok_frame:
  assumes "client_ok c" and "cl_objects c' = cl_objects c" and "cl_nextConnId c' = cl_nextConnId c"
    and "cl_connection c' = cl_connection c" and "cl_queue c' = cl_queue c"
  shows "client_ok c'" and "sole_ok c' = sole_ok c"
  using assms by (simp_all add: client_ok_def sole_ok_def live_conn_def)

lemma ok_call:
  assumes "client_ok c" and "k = CliShutdown \<or> k = CliForceClose"
  shows "client_ok (call_client_conn k i c)"
  using assms conn_life_shutdown [of k] by (auto simp: client_ok_def call_client_conn_def)

lemma live_call: "live_conn (call_client_conn k i c) = live_conn c"
  by (auto simp: live_conn_def call_client_conn_def fun_eq_iff split: option.splits)

lemma conn_call [simp]: "cl_connection (call_client_conn k i c) = cl_connection c"
  by (simp add: call_client_conn_def)

lemma ok_disconnect: "client_ok c \<Longrightarrow> client_ok (cl_disconnect c) \<and> (sole_ok c \<longrightarrow> sole_ok (cl_disconnect c))"
proof -
  let ?c = "c\<lparr>cl_connect := False\<rparr>"
  assume ok: "client_ok c"
  then have "client_ok ?c" "sole_ok ?c = sole_ok c" using ok_frame [OF ok, of ?c] by simp_all
  then show ?thesis using ok_call [of ?c CliShutdown]
    by (cases "cl_connection c") (simp_all add: cl_disconnect_def Let_def sole_ok_def live_call)
qed

lemma ok_new:
  assumes ok: "client_ok c" and new: "cl_newConnection junk d c = Some c'"
  shows "client_ok c'" and "cl_connection c = None \<Longrightarrow> sole_ok c \<Longrightarrow> sole_ok c'"
proof -
  let ?i = "cl_nextConnId c"
  let ?conn = "\<lparr>cc_name = client_conn_name junk c, cc_fd = d, cc_closed = False, cc_to_client = True,
      cc_callbacks = cl_callbacks c, cc_calls = [CliEstablished]\<rparr>"
  have c': "cl_objects c' = (cl_objects c)(?i \<mapsto> ?conn)" "cl_nextConnId c' = Suc ?i"
    "cl_connection c' = Some ?i" "cl_queue c' = cl_queue c"
    using new by (auto simp: cl_newConnection_def call_client_conn_def Let_def split: if_splits)
  have fresh: "cl_objects c ?i = None" using client_okD(1) [OF ok] by (metis less_irrefl not_None_eq)
  then have no_q: "FnDestroyed ?i \<notin> set (cl_queue c)" using client_okD(2) [OF ok] by fastforce
  have "conn_life (cl_queue c) ?i ?conn" using no_q by (intro conn_life_new) simp_all
  then show "client_ok c'" using ok unfolding client_ok_def c' by (auto intro: less_SucI)
  show "cl_connection c = None \<Longrightarrow> sole_ok c \<Longrightarrow> sole_ok c'"
    by (auto simp: sole_ok_def live_conn_def c')
qed

lemma ok_closes:
  assumes ok: "client_ok c" and live: "live_conn c i"
  shows "client_ok (conn_closes i c)" and "sole_ok c \<Longrightarrow> sole_ok (conn_closes i c)"
proof -
  obtain conn where conn: "cl_objects c i = Some conn" "\<not> cc_closed conn"
    using live by (auto simp: live_conn_def split: option.splits)
  then have to: "cc_to_client conn" "conn_life (cl_queue c) i conn" using client_okD(1) [OF ok] by simp_all
  have c': "cl_objects (conn_closes i c) = (cl_objects c)(i \<mapsto> conn\<lparr>cc_closed := True\<rparr>)"
    "cl_nextConnId (conn_closes i c) = cl_nextConnId c" "cl_connection (conn_closes i c) = None"
    "cl_queue (conn_closes i c) = cl_queue c @ [FnDestroyed i]"
    using conn to by (simp_all add: conn_closes_def cl_removeConnection_def cl_enqueue_def call_connector_def Let_def)
  show "client_ok (conn_closes i c)"
    using ok conn to conn_life_close [OF to(2) conn(2)] unfolding client_ok_def c' by auto
  show "sole_ok c \<Longrightarrow> sole_ok (conn_closes i c)"
    using live by (auto simp: sole_ok_def live_conn_def c')
qed

lemma ok_functor:
  assumes ok: "client_ok c" and q: "cl_queue c = f # fs"
  shows "client_ok (run_client_functor f (c\<lparr>cl_queue := fs\<rparr>))"
    and "sole_ok (run_client_functor f (c\<lparr>cl_queue := fs\<rparr>)) = sole_ok c"
proof -
  have f: "f \<noteq> FnSetClose" using ok q by (auto simp: client_ok_def)
  show "sole_ok (run_client_functor f (c\<lparr>cl_queue := fs\<rparr>)) = sole_ok c"
    using f by (cases f) (simp_all add: run_client_functor_def sole_ok_def live_call live_conn_def)
  show "client_ok (run_client_functor f (c\<lparr>cl_queue := fs\<rparr>))"
  proof (cases f)
    case (FnDestroyed i)
    then obtain conn where conn: "cl_objects c i = Some conn" using client_okD(2) [OF ok, of i] q by auto
    let ?conn = "conn\<lparr>cc_calls := cc_calls conn @ [CliDestroyed]\<rparr>"
    have c': "cl_objects (run_client_functor f (c\<lparr>cl_queue := fs\<rparr>)) = (cl_objects c)(i \<mapsto> ?conn)"
      "cl_nextConnId (run_client_functor f (c\<lparr>cl_queue := fs\<rparr>)) = cl_nextConnId c"
      "cl_connection (run_client_functor f (c\<lparr>cl_queue := fs\<rparr>)) = cl_connection c"
      "cl_queue (run_client_functor f (c\<lparr>cl_queue := fs\<rparr>)) = fs"
      using conn FnDestroyed by (simp_all add: run_client_functor_def call_client_conn_def)
    have "conn_life fs i ?conn" using client_okD(1) [OF ok conn] q FnDestroyed by (intro conn_life_destroyed) simp
    moreover have "conn_life fs j conn'" if "cl_objects c j = Some conn'" "j \<noteq> i" for j conn'
      using client_okD(1) [OF ok that(1)] q FnDestroyed that(2) by simp
    ultimately show ?thesis using ok conn q FnDestroyed unfolding client_ok_def c' by auto
  next
    case (FnForceClose i)
    have "client_ok (c\<lparr>cl_queue := fs\<rparr>)" using ok q FnForceClose by (auto simp: client_ok_def)
    then show ?thesis using FnForceClose ok_call by (simp add: run_client_functor_def)
  qed (use f in simp)
qed

lemma client_apply_ok:
  assumes ok: "client_ok c" and step: "client_apply op c = Some c'"
  shows "client_ok c' \<and> ((case op of Connected junk d \<Rightarrow> cl_connection c = None | _ \<Rightarrow> True)
    \<longrightarrow> sole_ok c \<longrightarrow> sole_ok c')"
proof (cases op)
  case Disconnect
  then show ?thesis using step ok_disconnect [OF ok] by simp
next
  case (Connected junk d)
  then show ?thesis using step ok_new [OF ok, of junk d c'] by simp
next
  case (Closes i)
  then show ?thesis using step ok ok_closes [OF ok, of i] by (cases "live_conn c i") auto
next
  case RunFunctor
  then show ?thesis using step ok ok_functor [OF ok] by (cases "cl_queue c") auto
qed (use step ok_frame [OF ok, of c'] in \<open>auto simp: client_defs split: if_splits\<close>)

lemma client_run_ok:
  "client_ok c \<Longrightarrow> client_run ops c = Some c' \<Longrightarrow>
    client_ok c' \<and> (one_at_a_time ops c \<longrightarrow> sole_ok c \<longrightarrow> sole_ok c')"
proof (induction ops arbitrary: c)
  case (Cons op ops)
  then obtain c1 where c1: "client_apply op c = Some c1" "client_run ops c1 = Some c'"
    by (auto split: option.splits simp del: client_apply.simps)
  note step = client_apply_ok [OF Cons.prems(1) c1(1)]
  show ?case using Cons.IH [OF _ c1(2)] step by (simp add: c1(1) del: client_apply.simps)
qed simp

lemma new_client_ok: "client_ok (new_client name) \<and> sole_ok (new_client name)"
  by (simp add: new_client_def client_ok_def sole_ok_def live_conn_def)

section \<open>Properties of the client\<close>


definition no_address :: inet_address where
  "no_address = \<lparr>sin_port = (0, 0), sin_addr = (0, 0, 0, 0)\<rparr>"


text \<open>\<^verbatim>\<open>removeConnection\<close> does not look at which connection closes. After \<^verbatim>\<open>disconnect\<close> and a new
  \<^verbatim>\<open>connect\<close> the old connection may still be closing when the new one is up; when it closes, the
  pointer to the new one is reset: the new connection stays open, \<^verbatim>\<open>connection()\<close> returns null, and
  \<^verbatim>\<open>disconnect\<close> no longer shuts it down.\<close>

theorem old_close_forgets_new_connection:
  "\<exists>c. client_run [Connect, Connected a1 d1, Already, Disconnect, Connect, Connected a2 d2, Closes 1]
      (new_client name) = Some c
    \<and> live_conn c 2 \<and> cl_connection c = None
    \<and> map_option cc_calls (cl_objects (cl_disconnect c) 2) = Some [CliEstablished]"
  by (simp add: new_client_def client_defs cl_newConnection_def call_client_conn_def live_conn_def conn_closes_def
      cl_removeConnection_def cl_enqueue_def cl_disconnect_def Let_def)

text \<open>The second connection of a client is undefined behaviour unless someone waited for the first:
  \<^verbatim>\<open>newConnection\<close> releases a binary semaphore that is still up. So a client with retry enabled whose
  user never calls \<^verbatim>\<open>already\<close> cannot reconnect.\<close>

theorem reconnect_needs_already:
  assumes "Already \<notin> set ops" and "client_run (Connected a1 d1 # ops) c = Some c1"
  shows "cl_newConnection a2 d2 c1 = None"
proof -
  have step: "cl_latch b'" if "cl_latch b" "op \<noteq> Already" "client_apply op b = Some b'" for op b b'
    using that
    by (cases op) (auto simp: client_defs cl_disconnect_def cl_newConnection_def conn_closes_def
        cl_removeConnection_def cl_enqueue_def call_client_conn_def run_client_functor_def set_close_def Let_def
        split: option.splits if_splits list.splits client_functor.splits)
  have run: "cl_latch b'" if "cl_latch b" "client_run ops b = Some b'" for b b'
    using assms(1) that
  proof (induction ops arbitrary: b)
    case (Cons op ops)
    then obtain b1 where b1: "client_apply op b = Some b1" "client_run ops b1 = Some b'"
      by (auto split: option.splits simp del: client_apply.simps)
    have "cl_latch b1" using Cons.prems by (intro step [OF _ _ b1(1)]) auto
    then show ?case using Cons.IH [OF _ _ b1(2)] Cons.prems(1) by simp
  qed simp
  obtain b where b: "cl_newConnection a1 d1 c = Some b" "client_run ops b = Some c1"
    using assms(2) by (auto split: option.splits)
  have "cl_latch b" using b(1) by (auto simp: cl_newConnection_def Let_def split: if_splits)
  then have "cl_latch c1" using run b(2) by blast
  then show ?thesis by (simp add: cl_newConnection_def Let_def call_client_conn_def)
qed

lemma reconnect_needs_already_witness:
  "\<exists>c. client_run [Connected no_address 5, Closes 1, RunFunctor] (new_client ''cli'') = Some c
    \<and> cl_newConnection no_address 6 c = None"
proof -
  obtain c where c: "client_run [Connected no_address 5, Closes 1, RunFunctor] (new_client ''cli'') = Some c"
    by (simp add: new_client_def cl_newConnection_def call_client_conn_def live_conn_def conn_closes_def
        cl_removeConnection_def cl_enqueue_def run_client_functor_def Let_def)
  then show ?thesis using reconnect_needs_already [OF _ c] by simp
qed


section \<open>The callbacks of a connection\<close>

fun client_callback_effect :: "client_op \<Rightarrow> callbacks \<Rightarrow> callbacks" where
  "client_callback_effect (SetClientCallback slot f) cb = set_callback slot f cb"
| "client_callback_effect _ cb = cb"

definition client_given :: "tcp_client \<Rightarrow> nat \<Rightarrow> callbacks option" where
  "client_given c i = map_option cc_callbacks (cl_objects c i)"

fun client_makes :: "client_op \<Rightarrow> tcp_client \<Rightarrow> nat option" where
  "client_makes (Connected junk sockfd) c = Some (cl_nextConnId c)"
| "client_makes _ c = None"

lemma given_client_call:
  "client_given (call_client_conn k i c) = client_given c" "cl_callbacks (call_client_conn k i c) = cl_callbacks c"
  by (simp_all add: client_given_def call_client_conn_def fun_eq_iff option.map_comp o_def)

lemma given_client_apply:
  assumes "client_apply op c = Some c'"
  shows "cl_callbacks c' = client_callback_effect op (cl_callbacks c)
    \<and> client_given c' = (case client_makes op c of None \<Rightarrow> client_given c | Some i \<Rightarrow> (client_given c)(i \<mapsto> cl_callbacks c))"
proof (cases op)
  case (Connected junk sockfd)
  then show ?thesis using assms
    by (auto simp: cl_newConnection_def Let_def given_client_call split: if_splits) (auto simp: client_given_def call_client_conn_def fun_eq_iff)
next
  case Disconnect
  then show ?thesis using assms
    by (auto simp: cl_disconnect_def Let_def given_client_call split: option.splits) (auto simp: client_given_def fun_eq_iff)
next
  case (Closes i)
  then show ?thesis using assms
    by (auto simp: conn_closes_def cl_removeConnection_def cl_enqueue_def call_connector_def client_given_def Let_def fun_eq_iff
        split: option.splits if_splits)
next
  case RunFunctor
  then show ?thesis using assms
    by (auto simp: run_client_functor_def set_close_def given_client_call split: list.splits client_functor.splits option.splits)
       (auto simp: client_given_def fun_eq_iff call_client_conn_def option.map_comp o_def)
qed (use assms in \<open>auto simp: client_defs client_given_def fun_eq_iff split: if_splits\<close>)

interpretation client_callbacks: callback_owner client_apply client_run client_callback_effect cl_callbacks client_given client_makes
proof unfold_locales
  show "client_run (op # ops) c = Option.bind (client_apply op c) (client_run ops)" for op ops c
    by (cases "client_apply op c") simp_all
  fix op c c' i cb
  assume step: "client_apply op c = Some c'"
  note * = given_client_apply [OF step]
  show "cl_callbacks c' = client_callback_effect op (cl_callbacks c)" using * by blast
  show "client_given c' i = Some cb \<Longrightarrow> client_given c i = Some cb \<or> client_makes op c = Some i \<and> cb = cl_callbacks c"
    using * by (auto split: option.splits if_splits)
qed simp



end
