(* ===== verification/Cluster.thy ===== *)
theory Cluster
  imports InetAddress
begin

text \<open>
  \<^verbatim>\<open>RoundRobin\<close> and \<^verbatim>\<open>RpcCluster\<close> of \<^verbatim>\<open>gdrpc/rpc/clusterCli.hpp\<close>: the choice of a server
  for each call, and the parsing of the list of servers that the registry returns.

  The interface between the two is the concept \<^verbatim>\<open>LBType\<close> of the source, here the locale
  \<open>load_balancer\<close>. An element of the list is what \<^verbatim>\<open>RoundRobin\<close> requires of its type parameter: a
  pointer to an object with members \<^verbatim>\<open>client_\<close>, \<^verbatim>\<open>weight_\<close> and \<^verbatim>\<open>currentWeight_\<close>. (\<^verbatim>\<open>Client\<close> has no
  \<^verbatim>\<open>currentWeight_\<close>, one of the reasons why the templates cannot be instantiated together; they are
  read as they are meant.) The sums of \<^verbatim>\<open>Next\<close> are 32-bit \<^verbatim>\<open>int\<close>s: \<open>None\<close> when one overflows.
\<close>

section \<open>The contract of a load balancer\<close>

locale load_balancer =
  fixes members :: "'lb \<Rightarrow> 'c list"
    and client_of :: "'e \<Rightarrow> 'c"
    and Add :: "'e \<Rightarrow> 'lb \<Rightarrow> 'lb"
    and Next :: "'lb \<Rightarrow> ('c option \<times> 'lb) option"
  assumes add_law: "members (Add e lb) = members lb @ [client_of e]"
    and next_keeps: "Next lb = Some (r, lb') \<Longrightarrow> members lb' = members lb"
    and next_none: "Next lb = Some (r, lb') \<Longrightarrow> r = None \<longleftrightarrow> members lb = []"
    and next_member: "Next lb = Some (Some c, lb') \<Longrightarrow> c \<in> set (members lb)"

text \<open>\<^verbatim>\<open>RpcCluster::call\<close> asks the balancer twice: once for the test, once for the client, which it
  goes through without a test: \<open>None\<close> if that is null.\<close>

definition cluster_call :: "('lb \<Rightarrow> ('c option \<times> 'lb) option) \<Rightarrow> ('c \<Rightarrow> 'r) \<Rightarrow> 'lb \<Rightarrow> ('r option \<times> 'lb) option" where
  "cluster_call Next fn lb =
     (case Next lb of
        None \<Rightarrow> None
      | Some (None, lb1) \<Rightarrow> Some (None, lb1)
      | Some (Some _, lb1) \<Rightarrow>
          (case Next lb1 of
             None \<Rightarrow> None
           | Some (None, lb2) \<Rightarrow> None
           | Some (Some c, lb2) \<Rightarrow> Some (Some (fn c), lb2)))"

context load_balancer begin

text \<open>A call never goes through a null pointer, and it goes to a member when there is one.\<close>

lemma call_safe:
  "cluster_call Next fn lb = Some (r, lb') \<Longrightarrow>
    members lb' = members lb \<and> (r = None \<longleftrightarrow> members lb = []) \<and> (\<forall>x. r = Some x \<longrightarrow> x \<in> fn ` set (members lb))"
  using next_keeps [of lb] next_none [of lb]
  by (auto simp: cluster_call_def split: option.splits) (metis next_keeps next_none next_member image_eqI)+

lemma call_undefined:
  assumes "cluster_call Next fn lb = None"
  shows "Next lb = None \<or> (\<exists>c lb1. Next lb = Some (Some c, lb1) \<and> Next lb1 = None)"
proof -
  have second: "\<forall>lb2. Next lb1 \<noteq> Some (None, lb2)" if "Next lb = Some (Some c, lb1)" for c lb1
    using next_keeps [OF that] next_none [OF that] next_none [of lb1 None] by auto
  show ?thesis
  proof (cases "Next lb")
    case (Some x)
    obtain r lb1 where x: "x = (r, lb1)" by (cases x)
    show ?thesis
    proof (cases r)
      case None
      then show ?thesis using assms Some x by (simp add: cluster_call_def)
    next
      case (Some c)
      then have n: "Next lb = Some (Some c, lb1)" using \<open>Next lb = Some x\<close> x by simp
      then show ?thesis using assms second [OF n] by (auto simp: cluster_call_def split: option.splits)
    qed
  qed simp
qed

end

section \<open>Weighted round robin\<close>

record 'c element =
  el_client :: 'c
  el_weight :: int
  el_current :: int

type_synonym 'c round_robin = "'c element list"

definition rr_add :: "'c element \<Rightarrow> 'c round_robin \<Rightarrow> 'c round_robin" where
  "rr_add t elems = elems @ [t]"

text \<open>
  One round of the loop over the elements: the state is the total, the index of \<^verbatim>\<open>p\<close> and the
  elements already updated.
\<close>

definition rr_visit :: "nat \<Rightarrow> int \<times> nat \<times> 'c round_robin \<Rightarrow> (int \<times> nat \<times> 'c round_robin) option" where
  "rr_visit i = (\<lambda>(total, p, elems).
     let e = elems ! i in
     Option.bind (checked_int (total + el_weight e)) (\<lambda>total'.
     Option.bind (checked_int (el_current e + el_weight e)) (\<lambda>current'.
       let elems' = elems[i := e\<lparr>el_current := current'\<rparr>]
       in Some (total', if el_current (elems' ! i) > el_current (elems' ! p) then i else p, elems'))))"

definition rr_loop :: "'c round_robin \<Rightarrow> (int \<times> nat \<times> 'c round_robin) option" where
  "rr_loop elems = fold (\<lambda>i s. Option.bind s (rr_visit i)) [0..<length elems] (Some (0, 0, elems))"

definition rr_next :: "'c round_robin \<Rightarrow> (('c \<times> int) option \<times> 'c round_robin) option" where
  "rr_next elems =
     (if elems = [] then Some (None, elems)
      else if length elems = 1 then Some (Some (el_client (hd elems), el_weight (hd elems)), elems)
      else Option.bind (rr_loop elems) (\<lambda>(total, p, elems').
           let e = elems' ! p in
           Option.bind (checked_int (el_current e - total)) (\<lambda>current'.
             Some (Some (el_client e, el_weight e), elems'[p := e\<lparr>el_current := current'\<rparr>]))))"

section \<open>The same over the integers\<close>

text \<open>What \<^verbatim>\<open>Next\<close> computes as long as no sum overflows.\<close>

definition visit_int :: "nat \<Rightarrow> int \<times> nat \<times> 'c round_robin \<Rightarrow> int \<times> nat \<times> 'c round_robin" where
  "visit_int i = (\<lambda>(total, p, elems).
     let e = elems ! i;
         elems' = elems[i := e\<lparr>el_current := el_current e + el_weight e\<rparr>]
     in (total + el_weight e,
         if el_current (elems' ! i) > el_current (elems' ! p) then i else p, elems'))"

definition loop_int :: "'c round_robin \<Rightarrow> int \<times> nat \<times> 'c round_robin" where
  "loop_int elems = fold visit_int [0..<length elems] (0, 0, elems)"

definition next_int :: "'c round_robin \<Rightarrow> ('c \<times> int) option \<times> 'c round_robin" where
  "next_int elems =
     (if elems = [] then (None, elems)
      else if length elems = 1 then (Some (el_client (hd elems), el_weight (hd elems)), elems)
      else let (total, p, elems') = loop_int elems; e = elems' ! p
           in (Some (el_client e, el_weight e), elems'[p := e\<lparr>el_current := el_current e - total\<rparr>]))"

definition rr_members :: "'c round_robin \<Rightarrow> ('c \<times> int) list" where
  "rr_members = map (\<lambda>e. (el_client e, el_weight e))"

section \<open>What one round computes\<close>

definition bump :: "'c element \<Rightarrow> 'c element" where
  "bump e = e\<lparr>el_current := el_current e + el_weight e\<rparr>"

text \<open>The first position of the largest value.\<close>

definition first_max :: "int list \<Rightarrow> nat \<Rightarrow> bool" where
  "first_max xs p \<longleftrightarrow> p < length xs \<and> (\<forall>j < length xs. xs ! j \<le> xs ! p) \<and> (\<forall>j < p. xs ! j < xs ! p)"

lemma loop_int_prefix:
  assumes "0 < length elems" and "0 < k" and "k \<le> length elems"
  shows "\<exists>p. fold visit_int [0..<k] (0, 0, elems)
      = ((\<Sum>e\<leftarrow>take k elems. el_weight e), p, map bump (take k elems) @ drop k elems)
    \<and> first_max (map (el_current \<circ> bump) (take k elems)) p"
  using assms(2,3)
proof (induction k)
  case (Suc k)
  let ?es = "map bump (take k elems) @ drop k elems"
  have k: "k < length elems" using Suc.prems by simp
  have at_k: "?es ! k = elems ! k" using k by (simp add: nth_append)
  have upd: "?es[k := bump (elems ! k)] = map bump (take (Suc k) elems) @ drop (Suc k) elems"
    using k by (simp add: list_update_append take_Suc_conv_app_nth Cons_nth_drop_Suc [symmetric])
  have at_k': "(map bump (take (Suc k) elems) @ drop (Suc k) elems) ! k = bump (elems ! k)"
    using k by (simp add: take_Suc_conv_app_nth nth_append)
  have visit: "visit_int k (t, p, ?es) = (t + el_weight (elems ! k),
      if el_current (bump (elems ! k)) > el_current (?es[k := bump (elems ! k)] ! p) then k else p,
      map bump (take (Suc k) elems) @ drop (Suc k) elems)" for t p
    unfolding visit_int_def Let_def prod.case at_k bump_def [symmetric] upd at_k' by (rule refl)
  show ?case
  proof (cases "k = 0")
    case True
    then show ?thesis using visit [of 0 0] k
      by (auto simp: first_max_def take_Suc_conv_app_nth)
  next
    case False
    then obtain p where p: "fold visit_int [0..<k] (0, 0, elems) = ((\<Sum>e\<leftarrow>take k elems. el_weight e), p, ?es)"
      "first_max (map (el_current \<circ> bump) (take k elems)) p"
      using Suc.IH Suc.prems(2) False by fastforce
    have pk: "p < k" using p(2) k by (simp add: first_max_def)
    then have "el_current (?es[k := bump (elems ! k)] ! p) = (el_current \<circ> bump) (elems ! p)"
      using k by (simp add: nth_append)
    then have "fold visit_int [0..<Suc k] (0, 0, elems) = ((\<Sum>e\<leftarrow>take (Suc k) elems. el_weight e),
        if el_current (bump (elems ! k)) > el_current (bump (elems ! p)) then k else p,
        map bump (take (Suc k) elems) @ drop (Suc k) elems)"
      using p(1) visit k by (simp add: take_Suc_conv_app_nth)
    moreover have "first_max (map (el_current \<circ> bump) (take (Suc k) elems))
        (if el_current (bump (elems ! k)) > el_current (bump (elems ! p)) then k else p)"
      using p(2) pk k by (auto simp: first_max_def take_Suc_conv_app_nth nth_append less_Suc_eq not_less)
    ultimately show ?thesis by blast
  qed
qed simp

text \<open>The sum of the weights, and of the current weights.\<close>

definition rr_total :: "'c round_robin \<Rightarrow> int" where
  "rr_total elems = (\<Sum>e\<leftarrow>elems. el_weight e)"

definition rr_sum :: "'c round_robin \<Rightarrow> int" where
  "rr_sum elems = (\<Sum>e\<leftarrow>elems. el_current e)"

lemma next_int_step:
  assumes "2 \<le> length elems"
  shows "\<exists>p. first_max (map (el_current \<circ> bump) elems) p
    \<and> next_int elems = (Some (el_client (elems ! p), el_weight (elems ! p)),
        (map bump elems)[p := (bump (elems ! p))\<lparr>el_current := el_current (bump (elems ! p)) - rr_total elems\<rparr>])"
proof -
  obtain p where p: "loop_int elems = (rr_total elems, p, map bump elems)"
    "first_max (map (el_current \<circ> bump) elems) p"
    using loop_int_prefix [of elems "length elems"] assms by (fastforce simp: loop_int_def rr_total_def)
  moreover have "p < length elems" using p(2) by (simp add: first_max_def)
  ultimately show ?thesis using assms
    by (intro exI [of _ p]) (simp add: next_int_def Let_def bump_def, auto)
qed

lemma rr_sum_bump: "rr_sum (map bump elems) = rr_sum elems + rr_total elems"
  by (induction elems) (simp_all add: rr_sum_def rr_total_def bump_def)

lemma rr_sum_update:
  "p < length elems \<Longrightarrow> rr_sum (elems[p := e]) = rr_sum elems - el_current (elems ! p) + el_current e"
  by (induction elems arbitrary: p) (auto simp: rr_sum_def split: nat.splits)

lemma rr_sum_le: "(\<forall>e \<in> set elems. el_current e \<le> 0) \<Longrightarrow> rr_sum elems \<le> 0"
  by (induction elems) (auto simp: rr_sum_def)

lemma rr_sum_pos:
  assumes "\<forall>e \<in> set elems. 0 \<le> el_current e" and "rr_sum elems = 0" and "e \<in> set elems"
  shows "el_current e = 0"
  using assms sum_list_nonneg_eq_0_iff [of "map el_current elems"] by (auto simp: rr_sum_def)

definition rr_inv :: "'c round_robin \<Rightarrow> bool" where
  "rr_inv elems \<longleftrightarrow> 0 < rr_total elems \<and> rr_sum elems = 0
     \<and> (\<forall>e \<in> set elems. - rr_total elems < el_current e)
     \<and> (\<forall>e \<in> set elems. 0 \<le> el_weight e)"

lemma next_int_inv:
  assumes inv: "rr_inv elems" and len: "2 \<le> length elems"
  shows "\<exists>p < length elems. \<exists>elems'. next_int elems = (Some (el_client (elems ! p), el_weight (elems ! p)), elems')
    \<and> rr_inv elems' \<and> length elems' = length elems \<and> rr_members elems' = rr_members elems
    \<and> rr_total elems' = rr_total elems
    \<and> (\<forall>i < length elems. el_current (elems' ! i)
        = el_current (elems ! i) + el_weight (elems ! i) - (if i = p then rr_total elems else 0))"
proof -
  obtain p where fm: "first_max (map (el_current \<circ> bump) elems) p"
    and nx: "next_int elems = (Some (el_client (elems ! p), el_weight (elems ! p)),
        (map bump elems)[p := (bump (elems ! p))\<lparr>el_current := el_current (bump (elems ! p)) - rr_total elems\<rparr>])"
    using next_int_step [OF len] by blast
  let ?c = "(bump (elems ! p))\<lparr>el_current := el_current (bump (elems ! p)) - rr_total elems\<rparr>"
  let ?es = "(map bump elems)[p := ?c]"
  have p: "p < length elems" using fm by (simp add: first_max_def)
  have mem: "rr_members ?es = rr_members elems" using p
    by (intro nth_equalityI) (auto simp: rr_members_def bump_def nth_list_update)
  then have wt: "map el_weight ?es = map el_weight elems"
    unfolding rr_members_def by (drule_tac arg_cong [of _ _ "map snd"]) (simp add: o_def)
  then have tot: "rr_total ?es = rr_total elems" unfolding rr_total_def by (rule arg_cong)
  have cur: "el_current (?es ! i) = el_current (elems ! i) + el_weight (elems ! i)
      - (if i = p then rr_total elems else 0)" if "i < length elems" for i
    using p that by (simp add: nth_list_update bump_def)
  have "rr_sum (map bump elems) > 0" using inv by (simp add: rr_sum_bump rr_inv_def)
  then have "0 < el_current (bump (elems ! p))"
    using rr_sum_le [of "map bump elems"] fm p
    by (fastforce simp: first_max_def in_set_conv_nth)
  then have low: "- rr_total elems < el_current (?es ! i)" if "i < length elems" for i
  proof -
    have "- rr_total elems < el_current (elems ! i)" "0 \<le> el_weight (elems ! i)"
      using inv that by (simp_all add: rr_inv_def)
    moreover have "0 < el_current (elems ! p) + el_weight (elems ! p)"
      using \<open>0 < el_current (bump (elems ! p))\<close> by (simp add: bump_def)
    ultimately show ?thesis using cur [OF that] by (cases "i = p") simp_all
  qed
  have "rr_sum ?es = 0" using inv p
    by (simp add: rr_sum_update rr_sum_bump rr_inv_def)
  have weights: "0 \<le> el_weight e" if "e \<in> set ?es" for e
  proof -
    have "el_weight e \<in> el_weight ` set elems" using that wt by (metis list.set_map image_eqI)
    then show ?thesis using inv by (auto simp only: rr_inv_def)
  qed
  have len': "length ?es = length elems" by simp
  show ?thesis
  proof (intro exI [of _ p] exI [of _ ?es] conjI)
    have "- rr_total elems < el_current e" if e: "e \<in> set ?es" for e
    proof -
      obtain i where "i < length elems" "e = ?es ! i"
        using e len' unfolding in_set_conv_nth by (elim exE conjE) (simp del: nth_list_update)
      then show ?thesis using low by blast
    qed
    moreover have "0 < rr_total elems" using inv by (simp add: rr_inv_def)
    ultimately show "rr_inv ?es" unfolding rr_inv_def tot
      using weights \<open>rr_sum ?es = 0\<close> by blast
  qed (use p nx mem tot cur len' in \<open>assumption | blast\<close>)+
qed

section \<open>Consecutive calls\<close>

fun calls_int :: "nat \<Rightarrow> 'c round_robin \<Rightarrow> ('c \<times> int) option list \<times> 'c round_robin" where
  "calls_int 0 elems = ([], elems)"
| "calls_int (Suc n) elems =
     (let (r, elems1) = next_int elems; (rs, elems2) = calls_int n elems1 in (r # rs, elems2))"

lemma rr_members_nth:
  assumes "rr_members elems' = rr_members elems" and "i < length elems"
  shows "el_client (elems' ! i) = el_client (elems ! i) \<and> el_weight (elems' ! i) = el_weight (elems ! i)"
proof -
  have "length elems' = length elems" using assms(1) map_eq_imp_length_eq unfolding rr_members_def by blast
  moreover have "rr_members elems' ! i = rr_members elems ! i" by (simp only: assms(1))
  ultimately show ?thesis using assms(2) by (simp add: rr_members_def)
qed

lemma rr_members_clients: "map el_client elems = map fst (rr_members elems)"
  by (simp add: rr_members_def)

lemma calls_int_counts:
  assumes "rr_inv elems" and "2 \<le> length elems" and "distinct (map el_client elems)"
  shows "\<exists>rs elems'. calls_int n elems = (rs, elems') \<and> rr_inv elems' \<and> rr_members elems' = rr_members elems
    \<and> rr_total elems' = rr_total elems
    \<and> (\<forall>i < length elems. el_current (elems' ! i) = el_current (elems ! i) + int n * el_weight (elems ! i)
        - rr_total elems * int (count_list rs (Some (el_client (elems ! i), el_weight (elems ! i)))))"
  using assms
proof (induction n arbitrary: elems)
  case 0
  then show ?case by simp
next
  case (Suc n)
  obtain p elems1 where p: "p < length elems"
    and nx: "next_int elems = (Some (el_client (elems ! p), el_weight (elems ! p)), elems1)"
    and inv1: "rr_inv elems1" and len1: "length elems1 = length elems"
    and mem1: "rr_members elems1 = rr_members elems" and tot1: "rr_total elems1 = rr_total elems"
    and cur1: "\<And>i. i < length elems \<Longrightarrow> el_current (elems1 ! i)
        = el_current (elems ! i) + el_weight (elems ! i) - (if i = p then rr_total elems else 0)"
    using next_int_inv [OF Suc.prems(1,2)] by blast
  have "distinct (map el_client elems1)" using Suc.prems(3) mem1 by (simp only: rr_members_clients)
  then obtain rs elems' where r: "calls_int n elems1 = (rs, elems')" "rr_inv elems'"
      "rr_members elems' = rr_members elems1" "rr_total elems' = rr_total elems1"
    and cur: "\<And>i. i < length elems1 \<Longrightarrow> el_current (elems' ! i) = el_current (elems1 ! i)
        + int n * el_weight (elems1 ! i)
        - rr_total elems1 * int (count_list rs (Some (el_client (elems1 ! i), el_weight (elems1 ! i))))"
    using Suc.IH [OF inv1] Suc.prems(2) len1 by auto
  have same: "el_client (elems ! p) = el_client (elems ! i) \<longleftrightarrow> i = p" if "i < length elems" for i
    using Suc.prems(3) p that by (auto simp: distinct_conv_nth)
  let ?count = "\<lambda>rs i. int (count_list rs (Some (el_client (elems ! i), el_weight (elems ! i))))"
  have step: "?count (Some (el_client (elems ! p), el_weight (elems ! p)) # rs) i
      = (if i = p then 1 else 0) + ?count rs i" if "i < length elems" for i
    using same [OF that] by auto
  have "el_current (elems' ! i) = el_current (elems ! i) + int (Suc n) * el_weight (elems ! i)
      - rr_total elems * ?count (Some (el_client (elems ! p), el_weight (elems ! p)) # rs) i"
    if i: "i < length elems" for i
  proof -
    have "el_current (elems' ! i) = el_current (elems1 ! i) + int n * el_weight (elems ! i)
        - rr_total elems * ?count rs i"
      using cur [of i] i rr_members_nth [OF mem1 i] by (simp add: len1 tot1)
    then show ?thesis unfolding step [OF i] cur1 [OF i]
      by (cases "i = p") (simp_all add: distrib_left distrib_right)
  qed
  then show ?case using nx r mem1 tot1 by (simp add: Let_def del: count_list.simps)
qed

lemma calls_int_single:
  "calls_int n [e] = (replicate n (Some (el_client e, el_weight e)), [e])"
  by (induction n) (simp_all add: next_int_def)

lemma count_list_replicate_same: "count_list (replicate n x) x = n"
  by (induction n) simp_all

lemma fair_counts:
  fixes w :: "nat \<Rightarrow> int"
  assumes "0 < W" and "(\<Sum>i<k. W * (w i - c i)) = 0" and "\<And>i. i < k \<Longrightarrow> - W < W * (w i - c i)"
    and "i < k"
  shows "c i = w i"
proof -
  have "0 \<le> w j - c j" if "j < k" for j
  proof (rule ccontr)
    assume "\<not> 0 \<le> w j - c j"
    then have "w j - c j \<le> - 1" by simp
    then have "W * (w j - c j) \<le> W * (- 1)" using assms(1) mult_left_mono [of "w j - c j" "-1" W] by linarith
    then show False using assms(3) [OF that] by simp
  qed
  then have "\<forall>j \<in> {..<k}. 0 \<le> W * (w j - c j)" using assms(1) by simp
  moreover have "finite {..<k}" by simp
  ultimately have "\<forall>j \<in> {..<k}. W * (w j - c j) = 0"
    using assms(2) sum_nonneg_eq_0_iff [of "{..<k}" "\<lambda>j. W * (w j - c j)"] by blast
  then have "W * (w i - c i) = 0" using assms(4) by blast
  then show ?thesis using assms(1) by simp
qed

lemma element_more: "element.more x = element.more (y :: 'c element)"
  by simp

lemma rr_sum_nth: "rr_sum elems = (\<Sum>i<length elems. el_current (elems ! i))"
  unfolding rr_sum_def by (simp add: sum_list_sum_nth atLeast0LessThan)

definition rr_count :: "nat \<Rightarrow> 'c round_robin \<Rightarrow> 'c element \<Rightarrow> nat" where
  "rr_count n elems e = count_list (fst (calls_int n elems)) (Some (el_client e, el_weight e))"

text \<open>After any number of calls from the initial state.\<close>

lemma calls_int_from_start:
  fixes elems :: "'c round_robin" and n :: nat
  defines "after \<equiv> snd (calls_int n elems)"
  assumes "distinct (map el_client elems)"
    and "\<forall>e \<in> set elems. 0 \<le> el_weight e \<and> el_current e = 0" and "0 < rr_total elems"
    and "2 \<le> length elems"
  shows "rr_sum after = 0 \<and> rr_members after = rr_members elems \<and> length after = length elems
    \<and> (\<forall>i < length elems. - rr_total elems < el_current (after ! i)
         \<and> el_current (after ! i)
            = int n * el_weight (elems ! i) - rr_total elems * int (rr_count n elems (elems ! i)))"
proof -
  have "map el_current elems = map (\<lambda>_. 0) elems" using assms(3) by simp
  then have "rr_sum elems = 0" by (simp only: rr_sum_def sum_list_0)
  then have inv: "rr_inv elems" using assms by (simp add: rr_inv_def)
  have counts: "rr_inv after" "rr_members after = rr_members elems" "rr_total after = rr_total elems"
    "\<forall>i < length elems. el_current (after ! i)
        = int n * el_weight (elems ! i) - rr_total elems * int (rr_count n elems (elems ! i))"
    using calls_int_counts [OF inv assms(5,2), of n] assms(3) unfolding rr_count_def after_def by fastforce+
  have len: "length after = length elems"
    using counts(2) map_eq_imp_length_eq unfolding rr_members_def by blast
  have "- rr_total elems < el_current (after ! i)" if "i < length elems" for i
    using counts(1,3) nth_mem [of i after] len that unfolding rr_inv_def by metis
  then show ?thesis using counts len by (simp add: rr_inv_def)
qed

lemma rr_fair:
  assumes "distinct (map el_client elems)"
    and "\<forall>e \<in> set elems. 0 \<le> el_weight e \<and> el_current e = 0" and "0 < rr_total elems"
  shows "snd (calls_int (nat (rr_total elems)) elems) = elems
    \<and> (\<forall>e \<in> set elems. int (rr_count (nat (rr_total elems)) elems e) = el_weight e)
    \<and> (\<forall>n. \<forall>e \<in> set elems. rr_total elems * int (rr_count n elems e) < int n * el_weight e + rr_total elems)"
proof (cases "2 \<le> length elems")
  case False
  then obtain e where e: "elems = [e]" using assms(3)
    by (cases elems; cases "tl elems") (auto simp: rr_total_def)
  then show ?thesis using assms(3)
    by (simp add: calls_int_single rr_count_def count_list_replicate_same rr_total_def)
next
  case True
  note start = calls_int_from_start [OF assms True]
  let ?N = "nat (rr_total elems)"
  let ?fin = "snd (calls_int ?N elems)"
  have cur: "el_current (?fin ! i) = rr_total elems * (el_weight (elems ! i) - int (rr_count ?N elems (elems ! i)))"
    if "i < length elems" for i
    using start [of ?N] that assms(3) by (simp add: right_diff_distrib)
  have "rr_sum ?fin = 0" using start [of ?N] by blast
  then have sum: "(\<Sum>i<length elems. rr_total elems * (el_weight (elems ! i) - int (rr_count ?N elems (elems ! i)))) = 0"
    using cur start [of ?N] by (simp add: rr_sum_nth)
  have exact: "int (rr_count ?N elems (elems ! i)) = el_weight (elems ! i)" if "i < length elems" for i
  proof (rule fair_counts [OF assms(3) sum _ that])
    fix j assume j: "j < length elems"
    have "- rr_total elems < el_current (?fin ! j)" using start [of ?N] j by blast
    then show "- rr_total elems
        < rr_total elems * (el_weight (elems ! j) - int (rr_count ?N elems (elems ! j)))"
      unfolding cur [OF j] .
  qed
  have "?fin = elems"
  proof (rule nth_equalityI)
    fix i assume "i < length ?fin"
    then have i: "i < length elems" using start [of ?N] by simp
    have e: "el_current (elems ! i) = 0" using assms(2) nth_mem [OF i] by blast
    have c: "el_current (?fin ! i) = el_current (elems ! i)" unfolding cur [OF i] exact [OF i] e by simp
    have m: "rr_members ?fin = rr_members elems" using start [of ?N] by blast
    show "?fin ! i = elems ! i"
      using rr_members_nth [OF m i] c element_more by (metis element.equality)
  qed (use start [of ?N] in blast)
  moreover have "rr_total elems * int (rr_count n elems (elems ! i)) < int n * el_weight (elems ! i) + rr_total elems"
    if "i < length elems" for n i
    using start [of n] that by fastforce
  ultimately show ?thesis using exact by (auto simp: in_set_conv_nth)
qed

section \<open>When no sum overflows\<close>

text \<open>The sums of one round of \<^verbatim>\<open>Next\<close>, in the order they are made: the total, the current weights, and
  the largest of them lowered by the total.\<close>

definition rr_fits :: "'c round_robin \<Rightarrow> bool" where
  "rr_fits elems \<longleftrightarrow> (\<forall>k \<le> length elems. in_int32 (\<Sum>e\<leftarrow>take k elems. el_weight e))
     \<and> (\<forall>e \<in> set elems. in_int32 (el_current e + el_weight e))
     \<and> in_int32 (Max (set (map (\<lambda>e. el_current e + el_weight e) elems)) - rr_total elems)"

lemma rr_visit_checked:
  "rr_visit k (tot, p, elems) =
     (if in_int32 (tot + el_weight (elems ! k)) \<and> in_int32 (el_current (elems ! k) + el_weight (elems ! k))
      then Some (visit_int k (tot, p, elems)) else None)"
  by (simp add: rr_visit_def visit_int_def checked_int_def Let_def)

lemma loop_int_state:
  "k \<le> length elems \<Longrightarrow> \<exists>p. fold visit_int [0..<k] (0, 0, elems)
      = ((\<Sum>e\<leftarrow>take k elems. el_weight e), p, map bump (take k elems) @ drop k elems)"
  using loop_int_prefix [of elems k] by (cases "k = 0"; cases "elems = []") auto

lemma rr_loop_checked:
  "k \<le> length elems \<Longrightarrow> fold (\<lambda>i s. Option.bind s (rr_visit i)) [0..<k] (Some (0, 0, elems))
    = (if (\<forall>j \<le> k. in_int32 (\<Sum>e\<leftarrow>take j elems. el_weight e))
          \<and> (\<forall>e \<in> set (take k elems). in_int32 (el_current e + el_weight e))
       then Some (fold visit_int [0..<k] (0, 0, elems)) else None)"
proof (induction k)
  case 0
  then show ?case by (simp add: in_int32_def)
next
  case (Suc k)
  then have k: "k < length elems" by simp
  obtain p where p: "fold visit_int [0..<k] (0, 0, elems)
      = ((\<Sum>e\<leftarrow>take k elems. el_weight e), p, map bump (take k elems) @ drop k elems)"
    using loop_int_state [of k elems] k by auto
  have at_k: "(map bump (take k elems) @ drop k elems) ! k = elems ! k" using k by (simp add: nth_append)
  have sums: "(\<Sum>e\<leftarrow>take (Suc k) elems. el_weight e) = (\<Sum>e\<leftarrow>take k elems. el_weight e) + el_weight (elems ! k)"
    using k by (simp add: take_Suc_conv_app_nth)
  have all: "(\<forall>j \<le> Suc k. in_int32 (\<Sum>e\<leftarrow>take j elems. el_weight e))
      \<longleftrightarrow> (\<forall>j \<le> k. in_int32 (\<Sum>e\<leftarrow>take j elems. el_weight e))
        \<and> in_int32 ((\<Sum>e\<leftarrow>take k elems. el_weight e) + el_weight (elems ! k))"
    unfolding sums [symmetric] by (auto simp: le_Suc_eq)
  have mem: "set (take (Suc k) elems) = insert (elems ! k) (set (take k elems))"
    using k by (auto simp: take_Suc_conv_app_nth)
  show ?case
    using Suc k unfolding all mem by (auto simp: p rr_visit_checked at_k)
qed

lemma rr_next_checked:
  assumes "2 \<le> length elems"
  shows "rr_next elems = (if rr_fits elems then Some (next_int elems) else None)"
proof -
  let ?es = "map bump elems"
  obtain p where p: "loop_int elems = (rr_total elems, p, ?es)" "first_max (map (el_current \<circ> bump) elems) p"
    using loop_int_prefix [of elems "length elems"] assms by (fastforce simp: loop_int_def rr_total_def)
  have len: "p < length elems" using p(2) by (simp add: first_max_def)
  have "Max (set (map (\<lambda>e. el_current e + el_weight e) elems)) = el_current (?es ! p)"
  proof (rule Max_eqI)
    show "el_current (?es ! p) \<in> set (map (\<lambda>e. el_current e + el_weight e) elems)"
      using len by (simp add: bump_def)
    show "x \<le> el_current (?es ! p)" if "x \<in> set (map (\<lambda>e. el_current e + el_weight e) elems)" for x
      using that p(2) len by (auto simp: first_max_def in_set_conv_nth bump_def)
  qed simp
  moreover have "rr_loop elems = (if (\<forall>j \<le> length elems. in_int32 (\<Sum>e\<leftarrow>take j elems. el_weight e))
          \<and> (\<forall>e \<in> set elems. in_int32 (el_current e + el_weight e)) then Some (loop_int elems) else None)"
    using rr_loop_checked [of "length elems" elems] by (simp add: rr_loop_def loop_int_def)
  moreover have "\<not> length elems = 1" "elems \<noteq> []" using assms by auto
  ultimately show ?thesis
    by (auto simp: rr_next_def next_int_def rr_fits_def p(1) checked_int_def Let_def)
qed

lemma rr_next_int: "rr_next elems = Some x \<Longrightarrow> x = next_int elems"
proof (cases "2 \<le> length elems")
  case False
  then have "elems = [] \<or> length elems = 1" by (cases elems; cases "tl elems") auto
  moreover assume "rr_next elems = Some x"
  ultimately show ?thesis by (auto simp: rr_next_def next_int_def)
qed (auto simp: rr_next_checked split: if_splits)

lemma rr_next_small: "length elems < 2 \<Longrightarrow> rr_next elems = Some (next_int elems)"
  by (cases elems; cases "tl elems") (simp_all add: rr_next_def next_int_def)

text \<open>A balancer that started level keeps its current weights between the negated total and the total
  times the number of servers.\<close>

definition rr_small :: "'c round_robin \<Rightarrow> bool" where
  "rr_small elems \<longleftrightarrow> int (length elems) * rr_total elems < 2 ^ 31"

lemma partial_total:
  assumes "\<forall>e \<in> set elems. 0 \<le> el_weight e"
  shows "0 \<le> (\<Sum>e\<leftarrow>take k elems. el_weight e) \<and> (\<Sum>e\<leftarrow>take k elems. el_weight e) \<le> rr_total elems"
proof -
  have "rr_total elems = (\<Sum>e\<leftarrow>take k elems. el_weight e) + (\<Sum>e\<leftarrow>drop k elems. el_weight e)"
    unfolding rr_total_def by (simp flip: sum_list_append map_append)
  moreover have "0 \<le> (\<Sum>e\<leftarrow>take k elems. el_weight e)" "0 \<le> (\<Sum>e\<leftarrow>drop k elems. el_weight e)"
    using assms by (auto intro!: sum_list_nonneg dest!: in_set_takeD in_set_dropD)
  ultimately show ?thesis by simp
qed

lemma raised_bounds:
  assumes inv: "rr_inv elems" and e: "e \<in> set elems"
  shows "- rr_total elems < el_current (bump e)" and "el_current (bump e) \<le> int (length elems) * rr_total elems"
proof -
  have low: "- rr_total elems < el_current (bump x)" if "x \<in> set elems" for x
    using inv that by (fastforce simp: rr_inv_def bump_def)
  then show "- rr_total elems < el_current (bump e)" using e by blast
  obtain i where i: "i < length elems" "elems ! i = e" using e by (auto simp: in_set_conv_nth)
  let ?f = "\<lambda>j. el_current (bump (elems ! j)) + rr_total elems"
  have "?f i \<le> (\<Sum>j<length elems. ?f j)"
    using low [OF nth_mem] i(1) by (intro member_le_sum) (fastforce simp: add.commute)+
  also have "\<dots> = rr_sum (map bump elems) + int (length elems) * rr_total elems"
    by (simp add: rr_sum_nth sum.distrib)
  also have "rr_sum (map bump elems) = rr_total elems" using inv by (simp add: rr_sum_bump rr_inv_def)
  finally show "el_current (bump e) \<le> int (length elems) * rr_total elems" using i(2) by simp
qed

lemma small_fits:
  assumes inv: "rr_inv elems" and small: "rr_small elems" and len: "2 \<le> length elems"
  shows "rr_fits elems"
proof -
  have pos: "0 < rr_total elems" and w: "\<forall>e \<in> set elems. 0 \<le> el_weight e" using inv by (simp_all add: rr_inv_def)
  have "rr_total elems * 1 \<le> rr_total elems * int (length elems)"
    using pos len by (intro mult_left_mono) auto
  then have tot: "rr_total elems < 2 ^ 31" using small by (simp add: rr_small_def mult.commute)
  have raised: "- rr_total elems < el_current e + el_weight e \<and> el_current e + el_weight e < 2 ^ 31"
    if "e \<in> set elems" for e
    using raised_bounds [OF inv that] small by (simp add: rr_small_def bump_def)
  obtain p where p: "first_max (map (el_current \<circ> bump) elems) p"
    using loop_int_prefix [of elems "length elems"] len by fastforce
  then have plen: "p < length elems" by (simp add: first_max_def)
  have "rr_sum (map bump elems) > 0" using inv by (simp add: rr_sum_bump rr_inv_def)
  then have big: "0 < el_current (bump (elems ! p))"
    using rr_sum_le [of "map bump elems"] p plen by (fastforce simp: first_max_def in_set_conv_nth)
  have "Max (set (map (\<lambda>e. el_current e + el_weight e) elems)) = el_current (bump (elems ! p))"
  proof (rule Max_eqI)
    show "el_current (bump (elems ! p)) \<in> set (map (\<lambda>e. el_current e + el_weight e) elems)"
      using plen by (simp add: bump_def)
    show "x \<le> el_current (bump (elems ! p))" if "x \<in> set (map (\<lambda>e. el_current e + el_weight e) elems)" for x
      using that p plen by (auto simp: first_max_def in_set_conv_nth bump_def)
  qed simp
  moreover have "el_current (bump (elems ! p)) < 2 ^ 31" using raised [of "elems ! p"] plen by (simp add: bump_def)
  ultimately have "in_int32 (Max (set (map (\<lambda>e. el_current e + el_weight e) elems)) - rr_total elems)"
    using big tot pos by (simp add: in_int32_def)
  moreover have "in_int32 (\<Sum>e\<leftarrow>take k elems. el_weight e)" for k
    using partial_total [OF w, of k] tot by (simp add: in_int32_def)
  moreover have "in_int32 (el_current e + el_weight e)" if "e \<in> set elems" for e
    using raised [OF that] tot by (simp add: in_int32_def)
  ultimately show ?thesis by (simp add: rr_fits_def)
qed

text \<open>Consecutive calls of \<^verbatim>\<open>Next\<close>.\<close>

fun rr_calls :: "nat \<Rightarrow> 'c round_robin \<Rightarrow> (('c \<times> int) option list \<times> 'c round_robin) option" where
  "rr_calls 0 elems = Some ([], elems)"
| "rr_calls (Suc n) elems =
     Option.bind (rr_next elems) (\<lambda>(r, elems1). map_option (\<lambda>(rs, elems2). (r # rs, elems2)) (rr_calls n elems1))"

lemma small_kept:
  assumes "rr_inv elems \<and> rr_small elems \<or> length elems < 2"
  shows "rr_next elems = Some (next_int elems)"
    and "rr_inv (snd (next_int elems)) \<and> rr_small (snd (next_int elems)) \<or> length (snd (next_int elems)) < 2"
proof -
  show "rr_next elems = Some (next_int elems)"
    using assms small_fits rr_next_checked [of elems] rr_next_small [of elems] by (cases "2 \<le> length elems") auto
  show "rr_inv (snd (next_int elems)) \<and> rr_small (snd (next_int elems)) \<or> length (snd (next_int elems)) < 2"
  proof (cases "2 \<le> length elems")
    case True
    then obtain elems' where "snd (next_int elems) = elems'" "rr_inv elems'" "length elems' = length elems"
        "rr_total elems' = rr_total elems"
      using next_int_inv [of elems] assms by fastforce
    then show ?thesis using assms True by (simp add: rr_small_def)
  next
    case False
    then show ?thesis by (cases elems; cases "tl elems") (simp_all add: next_int_def)
  qed
qed

lemma small_calls:
  "rr_inv elems \<and> rr_small elems \<or> length elems < 2 \<Longrightarrow> rr_calls n elems = Some (calls_int n elems)"
proof (induction n arbitrary: elems)
  case (Suc n)
  show ?case using Suc.IH [OF small_kept(2) [OF Suc.prems]] small_kept(1) [OF Suc.prems]
    by (simp add: Let_def split_beta)
qed simp

lemma level_start:
  assumes "\<forall>e \<in> set elems. 0 \<le> el_weight e \<and> el_current e = 0" and "0 < rr_total elems" and "rr_small elems"
  shows "rr_inv elems \<and> rr_small elems \<or> length elems < 2"
proof -
  have "map el_current elems = map (\<lambda>_. 0) elems" using assms(1) by simp
  then have "rr_sum elems = 0" by (simp only: rr_sum_def sum_list_0)
  then show ?thesis using assms by (simp add: rr_inv_def)
qed

text \<open>C16. Weighted round robin is fair, and does not overflow. Started with all current weights at 0,
  and non-negative weights that are not all 0 and add up to less than \<open>2 ^ 31\<close> divided by the number
  of servers: after as many calls of \<^verbatim>\<open>Next\<close> as the weights add up to, every server has been chosen
  exactly as often as its weight says, and the balancer is back in its initial state; and after any
  number \<open>n\<close> of calls no server is a whole turn ahead of its share \<open>n * weight / total\<close>.\<close>

theorem round_robin_is_fair:
  assumes "distinct (map el_client elems)"
    and "\<forall>e \<in> set elems. 0 \<le> el_weight e \<and> el_current e = 0" and "0 < rr_total elems"
    and "int (length elems) * rr_total elems < 2 ^ 31"
  shows "(\<exists>rs. rr_calls (nat (rr_total elems)) elems = Some (rs, elems)
      \<and> (\<forall>e \<in> set elems. int (count_list rs (Some (el_client e, el_weight e))) = el_weight e))
    \<and> (\<forall>n. \<exists>rs elems'. rr_calls n elems = Some (rs, elems')
      \<and> (\<forall>e \<in> set elems. rr_total elems * int (count_list rs (Some (el_client e, el_weight e)))
           < int n * el_weight e + rr_total elems))"
proof -
  have small: "rr_small elems" using assms(4) by (simp add: rr_small_def)
  have calls: "rr_calls n elems = Some (calls_int n elems)" for n
    by (rule small_calls [OF level_start [OF assms(2,3) small]])
  note fair = rr_fair [OF assms(1-3)]
  have "calls_int (nat (rr_total elems)) elems = (fst (calls_int (nat (rr_total elems)) elems), elems)"
    using fair by (metis prod.collapse)
  then have "\<exists>rs. rr_calls (nat (rr_total elems)) elems = Some (rs, elems)
      \<and> (\<forall>e \<in> set elems. int (count_list rs (Some (el_client e, el_weight e))) = el_weight e)"
    using fair by (intro exI [of _ "fst (calls_int (nat (rr_total elems)) elems)"]) (simp add: calls rr_count_def)
  moreover have "\<exists>rs elems'. rr_calls n elems = Some (rs, elems')
      \<and> (\<forall>e \<in> set elems. rr_total elems * int (count_list rs (Some (el_client e, el_weight e)))
           < int n * el_weight e + rr_total elems)" for n
    using fair by (intro exI [of _ "fst (calls_int n elems)"] exI [of _ "snd (calls_int n elems)"])
      (simp add: calls rr_count_def)
  ultimately show ?thesis by blast
qed

definition three_servers :: "string round_robin" where
  "three_servers = [\<lparr>el_client = ''a'', el_weight = 5, el_current = 0\<rparr>,
     \<lparr>el_client = ''b'', el_weight = 1, el_current = 0\<rparr>, \<lparr>el_client = ''c'', el_weight = 1, el_current = 0\<rparr>]"

lemma round_robin_is_fair_witness:
  "\<exists>rs. rr_calls 7 three_servers = Some (rs, three_servers) \<and> count_list rs (Some (''a'', 5)) = 5
    \<and> count_list rs (Some (''b'', 1)) = 1"
proof -
  have "rr_total three_servers = 7" by (simp add: rr_total_def three_servers_def)
  then obtain rs where "rr_calls 7 three_servers = Some (rs, three_servers)"
      "\<forall>e \<in> set three_servers. int (count_list rs (Some (el_client e, el_weight e))) = el_weight e"
    using round_robin_is_fair [of three_servers] by (auto simp: three_servers_def)
  then show ?thesis by (intro exI [of _ rs]) (simp add: three_servers_def)
qed

lemma three_servers_in_turn:
  "map_option (\<lambda>(rs, _). map (map_option fst) rs) (rr_calls 7 three_servers)
    = Some (map Some [''a'', ''a'', ''b'', ''a'', ''c'', ''a'', ''a''])"
  by code_simp

section \<open>The cluster on the round robin\<close>

lemma next_int_keeps: "rr_members (snd (next_int elems)) = rr_members elems"
proof (cases "2 \<le> length elems")
  case True
  then obtain p where "first_max (map (el_current \<circ> bump) elems) p"
    and nx: "next_int elems = (Some (el_client (elems ! p), el_weight (elems ! p)),
        (map bump elems)[p := (bump (elems ! p))\<lparr>el_current := el_current (bump (elems ! p)) - rr_total elems\<rparr>])"
    using next_int_step by blast
  then have "p < length elems" by (simp add: first_max_def)
  then show ?thesis unfolding nx
    by (intro nth_equalityI) (auto simp: rr_members_def bump_def nth_list_update)
next
  case False
  then have "elems = [] \<or> length elems = 1" by (cases elems; cases "tl elems") auto
  then show ?thesis by (auto simp: next_int_def)
qed

lemma next_int_member: "fst (next_int elems) = Some c \<Longrightarrow> c \<in> set (rr_members elems)"
proof (cases "2 \<le> length elems")
  case True
  moreover assume "fst (next_int elems) = Some c"
  ultimately obtain p where "first_max (map (el_current \<circ> bump) elems) p"
    and "c = (el_client (elems ! p), el_weight (elems ! p))"
    using next_int_step by fastforce
  then show ?thesis by (auto simp: first_max_def rr_members_def)
next
  case False
  moreover assume "fst (next_int elems) = Some c"
  moreover have "elems = [] \<or> length elems = 1" using False by (cases elems; cases "tl elems") auto
  ultimately show ?thesis by (cases elems) (auto simp: next_int_def rr_members_def)
qed

lemma next_int_none: "fst (next_int elems) = None \<longleftrightarrow> elems = []"
  by (auto simp: next_int_def Let_def split: prod.splits)

interpretation rr: load_balancer rr_members "\<lambda>e. (el_client e, el_weight e)" rr_add rr_next
proof unfold_locales
  fix lb lb' :: "'a round_robin" and r c
  show "rr_members (rr_add e lb) = rr_members lb @ [(el_client e, el_weight e)]" for e :: "'a element"
    by (simp add: rr_members_def rr_add_def)
  show "rr_next lb = Some (r, lb') \<Longrightarrow> rr_members lb' = rr_members lb"
    using next_int_keeps [of lb] rr_next_int [of lb "(r, lb')"] by (metis snd_conv)
  show "rr_next lb = Some (r, lb') \<Longrightarrow> (r = None) = (rr_members lb = [])"
    using next_int_none [of lb] rr_next_int [of lb "(r, lb')"] by (auto simp: rr_members_def dest: sym)
  show "rr_next lb = Some (Some c, lb') \<Longrightarrow> c \<in> set (rr_members lb)"
    using next_int_member [of lb c] rr_next_int [of lb "(Some c, lb')"] by (metis fst_conv)
qed

section \<open>Properties of calls through the cluster\<close>

text \<open>A call through the cluster never dereferences a null client: unless a sum of \<^verbatim>\<open>Next\<close> overflows it
  does nothing exactly when no server is known, otherwise it runs on a server of the list, and the
  list stays the same.\<close>

theorem cluster_call_uses_a_member:
  "case cluster_call rr_next fn elems of
     None \<Rightarrow> rr_next elems = None \<or> (\<exists>c elems1. rr_next elems = Some (Some c, elems1) \<and> rr_next elems1 = None)
   | Some (r, elems') \<Rightarrow> rr_members elems' = rr_members elems
       \<and> (case r of None \<Rightarrow> elems = [] | Some x \<Rightarrow> elems \<noteq> [] \<and> x \<in> fn ` set (rr_members elems))"
proof -
  have "rr_members elems = [] \<longleftrightarrow> elems = []" by (simp add: rr_members_def)
  then show ?thesis using rr.call_undefined [of fn elems] rr.call_safe [of fn elems]
    by (auto split: option.splits)
qed

text \<open>The balancer is asked twice per call, so with two servers of equal weight every call goes to the
  second one: the call leaves the balancer as it was.\<close>

theorem equal_servers_starve_the_first:
  assumes "0 < w" and "w < 2 ^ 30"
    and "elems = [\<lparr>el_client = a, el_weight = w, el_current = 0\<rparr>, \<lparr>el_client = b, el_weight = w, el_current = 0\<rparr>]"
  shows "cluster_call rr_next fn elems = Some (Some (fn (b, w)), elems)"
  using assms(1,2)
  by (simp add: assms(3) cluster_call_def rr_next_def rr_loop_def rr_visit_def upt_rec Let_def numeral_2_eq_2
      checked_int_def in_int32_def)

lemma equal_servers_starve_the_first_witness:
  "let elems = [\<lparr>el_client = ''a'', el_weight = 1, el_current = 0\<rparr>, \<lparr>el_client = ''b'', el_weight = 1, el_current = 0\<rparr>]
   in cluster_call rr_next fst elems = Some (Some ''b'', elems)"
  using equal_servers_starve_the_first [of 1 _ "''a''" "''b''" fst, OF _ _ refl] by simp

text \<open>The reference: raise every current weight, take the first of the largest, lower it by the total.\<close>

definition rr_reference :: "'c round_robin \<Rightarrow> ('c \<times> int) option \<times> 'c round_robin" where
  "rr_reference elems =
     (let raised = map bump elems;
          m = Max (set (map el_current raised));
          p = length (takeWhile (\<lambda>e. el_current e \<noteq> m) raised);
          e = raised ! p
      in (Some (el_client e, el_weight e), raised[p := e\<lparr>el_current := m - rr_total elems\<rparr>]))"

lemma first_max_unique:
  assumes "first_max xs p"
  shows "Max (set xs) = xs ! p" and "length (takeWhile (\<lambda>x. x \<noteq> xs ! p) xs) = p"
proof -
  have p: "p < length xs" "\<And>j. j < length xs \<Longrightarrow> xs ! j \<le> xs ! p" "\<And>j. j < p \<Longrightarrow> xs ! j < xs ! p"
    using assms by (auto simp: first_max_def)
  show "Max (set xs) = xs ! p"
    using p(1,2) by (intro Max_eqI) (auto simp: in_set_conv_nth)
  have "xs = take p xs @ xs ! p # drop (Suc p) xs" using p(1) by (rule id_take_nth_drop)
  moreover have "\<forall>x \<in> set (take p xs). x \<noteq> xs ! p" using p(1,3) by (fastforce simp: in_set_conv_nth)
  moreover from this have "takeWhile (\<lambda>x. x \<noteq> xs ! p) (take p xs @ xs ! p # drop (Suc p) xs) = take p xs"
    by (subst takeWhile_append2) auto
  ultimately have "takeWhile (\<lambda>x. x \<noteq> xs ! p) xs = take p xs" by simp
  then show "length (takeWhile (\<lambda>x. x \<noteq> xs ! p) xs) = p" using p(1) by simp
qed

lemma next_int_reference:
  assumes "2 \<le> length elems"
  shows "next_int elems = rr_reference elems"
proof -
  let ?xs = "map (el_current \<circ> bump) elems"
  obtain p where p: "first_max ?xs p"
    and nx: "next_int elems = (Some (el_client (elems ! p), el_weight (elems ! p)),
        (map bump elems)[p := (bump (elems ! p))\<lparr>el_current := el_current (bump (elems ! p)) - rr_total elems\<rparr>])"
    using next_int_step [OF assms] by blast
  have len: "p < length elems" using p by (simp add: first_max_def)
  have comp: "map el_current (map bump elems) = ?xs" by simp
  have m: "Max (set (map el_current (map bump elems))) = el_current (bump (elems ! p))"
    unfolding comp using first_max_unique(1) [OF p] len by simp
  have "map el_current (takeWhile (\<lambda>e. el_current e \<noteq> ?xs ! p) (map bump elems))
      = takeWhile (\<lambda>x. x \<noteq> ?xs ! p) ?xs"
    unfolding comp [symmetric] by (simp only: takeWhile_map o_def)
  then have "length (takeWhile (\<lambda>e. el_current e \<noteq> ?xs ! p) (map bump elems)) = p"
    using first_max_unique(2) [OF p] by (metis length_map)
  then have "length (takeWhile (\<lambda>e. el_current e \<noteq> el_current (bump (elems ! p))) (map bump elems)) = p"
    using len by simp
  then show ?thesis unfolding rr_reference_def Let_def m using len by (simp add: nx bump_def [of "elems ! p"])
qed

text \<open>C38. The loop of \<^verbatim>\<open>Next\<close>, which keeps a pointer to the best element while it raises the weights one
  after the other, computes the reference: all weights raised first, then the first maximum. For two
  or more elements it does so exactly when the sums it makes are \<^verbatim>\<open>int\<close>s: the total and its partial
  sums, the raised weights, and the largest of them lowered by the total; otherwise one overflows.\<close>

theorem next_equals_reference:
  assumes "2 \<le> length elems"
  shows "rr_next elems =
    (if (\<forall>k \<le> length elems. in_int32 (\<Sum>e\<leftarrow>take k elems. el_weight e))
        \<and> (\<forall>e \<in> set elems. in_int32 (el_current e + el_weight e))
        \<and> in_int32 (Max (set (map (\<lambda>e. el_current e + el_weight e) elems)) - rr_total elems)
     then Some (rr_reference elems) else None)"
  using rr_next_checked [OF assms] next_int_reference [OF assms] by (simp add: rr_fits_def)

lemma next_equals_reference_witness:
  "rr_next three_servers = Some (rr_reference three_servers)
    \<and> rr_next [\<lparr>el_client = ''a'', el_weight = 2 ^ 31 - 1, el_current = 0\<rparr>,
         \<lparr>el_client = ''b'', el_weight = 2 ^ 31 - 1, el_current = 0\<rparr>] = None"
proof
  have "in_int32 (\<Sum>e\<leftarrow>take k three_servers. el_weight e)" if "k \<le> 3" for k
  proof -
    have "k = 0 \<or> k = 1 \<or> k = 2 \<or> k = 3" using that by auto
    then show ?thesis by (elim disjE) (simp_all add: three_servers_def in_int32_def)
  qed
  then show "rr_next three_servers = Some (rr_reference three_servers)"
    using next_equals_reference [of three_servers] by (simp add: three_servers_def in_int32_def rr_total_def)
  let ?two = "[\<lparr>el_client = ''a'', el_weight = 2 ^ 31 - 1, el_current = 0\<rparr>,
         \<lparr>el_client = ''b'', el_weight = 2 ^ 31 - 1, el_current = 0\<rparr>]"
  have "\<not> in_int32 (\<Sum>e\<leftarrow>take 2 ?two. el_weight e)" "2 \<le> length ?two" by (simp_all add: in_int32_def)
  then show "rr_next ?two = None" using next_equals_reference [of ?two] by auto
qed

section \<open>Many calls through the cluster\<close>

text \<open>Consecutive calls of \<^verbatim>\<open>RpcCluster::call\<close> and the servers they go to.\<close>

fun cluster_calls :: "nat \<Rightarrow> 'c round_robin \<Rightarrow> (('c \<times> int) option list \<times> 'c round_robin) option" where
  "cluster_calls 0 elems = Some ([], elems)"
| "cluster_calls (Suc n) elems =
     Option.bind (cluster_call rr_next id elems)
       (\<lambda>(r, elems1). map_option (\<lambda>(rs, elems2). (r # rs, elems2)) (cluster_calls n elems1))"

text \<open>Every other element of a list, from the first and from the second on.\<close>

fun firsts :: "'a list \<Rightarrow> 'a list" and seconds :: "'a list \<Rightarrow> 'a list" where
  "firsts [] = []"
| "firsts (x # xs) = x # seconds xs"
| "seconds [] = []"
| "seconds (x # xs) = firsts xs"

lemma firsts_seconds_count: "count_list (firsts xs) y + count_list (seconds xs) y = count_list xs y"
  by (induction xs) auto

lemma firsts_seconds_append:
  "firsts (xs @ ys) = firsts xs @ (if even (length xs) then firsts ys else seconds ys)"
  "seconds (xs @ ys) = seconds xs @ (if even (length xs) then seconds ys else firsts ys)"
  by (induction xs) auto

lemma calls_int_length: "length (fst (calls_int n elems)) = n"
  by (induction n arbitrary: elems) (simp_all add: Let_def split_beta)

lemma calls_int_add:
  "calls_int (m + n) elems = (fst (calls_int m elems) @ fst (calls_int n (snd (calls_int m elems))),
     snd (calls_int n (snd (calls_int m elems))))"
  by (induction m arbitrary: elems) (simp_all add: Let_def split_beta)

lemma cluster_call_two:
  assumes "elems \<noteq> []" and "rr_inv elems \<and> rr_small elems \<or> length elems < 2"
  shows "cluster_call rr_next id elems = Some (next_int (snd (next_int elems)))"
proof -
  have "snd (next_int elems) \<noteq> []" using next_int_keeps [of elems] assms(1) by (auto simp: rr_members_def)
  then have "fst (next_int elems) \<noteq> None" "fst (next_int (snd (next_int elems))) \<noteq> None"
    using assms(1) by (simp_all add: next_int_none)
  then show ?thesis
    using small_kept(1) [OF assms(2)] small_kept(1) [OF small_kept(2) [OF assms(2)]]
    by (cases "next_int elems"; cases "next_int (snd (next_int elems))") (auto simp: cluster_call_def)
qed

lemma cluster_calls_seconds:
  "elems \<noteq> [] \<Longrightarrow> rr_inv elems \<and> rr_small elems \<or> length elems < 2 \<Longrightarrow> cluster_calls n elems
    = Some (seconds (fst (calls_int (2 * n) elems)), snd (calls_int (2 * n) elems))"
proof (induction n arbitrary: elems)
  case (Suc n)
  let ?e = "snd (next_int (snd (next_int elems)))"
  have "rr_members ?e = rr_members elems" by (simp add: next_int_keeps)
  then have "?e \<noteq> []" using Suc.prems(1) by (auto simp: rr_members_def)
  from Suc.IH [OF this small_kept(2) [OF small_kept(2) [OF Suc.prems(2)]]] show ?case
    by (simp add: cluster_call_two [OF Suc.prems] Let_def split_beta)
qed simp

lemma odd_totals_fair:
  assumes "distinct (map el_client elems)"
    and "\<forall>e \<in> set elems. 0 \<le> el_weight e \<and> el_current e = 0" and "0 < rr_total elems" and "odd (rr_total elems)"
    and "rr_small elems"
  shows "\<exists>rs. cluster_calls (nat (rr_total elems)) elems = Some (rs, elems)
    \<and> (\<forall>e \<in> set elems. int (count_list rs (Some (el_client e, el_weight e))) = el_weight e)"
proof -
  let ?N = "nat (rr_total elems)" and ?xs = "fst (calls_int (nat (rr_total elems)) elems)"
  note fair = rr_fair [OF assms(1-3)]
  have ne: "elems \<noteq> []" using assms(3) by (auto simp: rr_total_def)
  have odd: "odd (length ?xs)" using assms(3,4) by (simp add: calls_int_length even_nat_iff)
  have "calls_int (2 * ?N) elems = (?xs @ ?xs, elems)"
    using calls_int_add [of ?N ?N elems] fair by (simp add: mult_2)
  then have calls: "cluster_calls ?N elems = Some (seconds ?xs @ firsts ?xs, elems)"
    using cluster_calls_seconds [OF ne level_start [OF assms(2,3,5)], of ?N] odd by (simp add: firsts_seconds_append)
  have "count_list (seconds ?xs @ firsts ?xs) y = count_list ?xs y" for y
    using firsts_seconds_count [of ?xs y] by simp
  then show ?thesis using calls fair by (simp add: rr_count_def)
qed

end
