(* ===== verification/Registry.thy ===== *)
theory Registry
  imports Cluster
begin

text \<open>
  Service discovery: \<^verbatim>\<open>ZkClient::Append\<close> and \<^verbatim>\<open>ZkClient::GetData\<close> (\<^verbatim>\<open>gdrpc/rpc/zkClient.cpp\<close>),
  what \<^verbatim>\<open>RpcServer::Run\<close> publishes with the one, and what the constructor of \<^verbatim>\<open>RpcCluster\<close>
  (\<^verbatim>\<open>clusterCli.hpp\<close>) makes of the other.

  The ZooKeeper client library is not part of the repository. Its four calls are the fields of
  a \<open>zk_api\<close>, functions on the state \<open>'z\<close> of the service; a lemma that needs the documented
  behaviour of the calls, with no other client in between, has \<open>zk_laws\<close> as a hypothesis.
  Undefined behaviour of the code is the value \<open>None\<close>.
\<close>

section \<open>The calls of the library\<close>

record 'z zk_api =
  zoo_exists :: "string \<Rightarrow> 'z \<Rightarrow> int \<times> 'z"
  zoo_create :: "string \<Rightarrow> string \<Rightarrow> int \<Rightarrow> 'z \<Rightarrow> int \<times> 'z"
  zoo_get :: "string \<Rightarrow> nat \<Rightarrow> 'z \<Rightarrow> (int \<times> string) \<times> 'z"
  zoo_set :: "string \<Rightarrow> string \<Rightarrow> 'z \<Rightarrow> int \<times> 'z"

abbreviation ZOK :: int where "ZOK \<equiv> 0"
abbreviation ZNONODE :: int where "ZNONODE \<equiv> - 101"

text \<open>The documented behaviour, where \<open>view\<close> reads the nodes off the state.\<close>

definition zk_laws :: "'z zk_api \<Rightarrow> ('z \<Rightarrow> string \<Rightarrow> string option) \<Rightarrow> bool" where
  "zk_laws api view \<longleftrightarrow>
     (\<forall>path z. zoo_exists api path z = (if view z path = None then ZNONODE else ZOK, z))
   \<and> (\<forall>path data state z. view z path = None \<longrightarrow>
        (\<exists>z'. zoo_create api path data state z = (ZOK, z') \<and> view z' = (view z)(path \<mapsto> data)))
   \<and> (\<forall>path n z d. view z path = Some d \<longrightarrow> zoo_get api path n z = ((ZOK, take n d), z))
   \<and> (\<forall>path data z. view z path \<noteq> None \<longrightarrow>
        (\<exists>z'. zoo_set api path data z = (ZOK, z') \<and> view z' = (view z)(path \<mapsto> data)))"

section \<open>Append and GetData\<close>

definition zk_append :: "'z zk_api \<Rightarrow> string \<Rightarrow> string \<Rightarrow> int \<Rightarrow> 'z \<Rightarrow> int \<times> 'z" where
  "zk_append api path data state z =
     (let (flag, z) = zoo_exists api path z;
          (flag, z) = (if ZNONODE = flag then zoo_create api path data state z else (flag, z))
      in if flag = ZOK then
           let ((flag, s), z) = zoo_get api path 1024 z in zoo_set api path (s @ data) z
         else (flag, z))"

text \<open>The buffer is returned as a C string: up to the first 0 of what the call wrote and of the
  \<open>junk\<close> that lies behind it.\<close>

definition GetData :: "'z zk_api \<Rightarrow> string \<Rightarrow> string \<Rightarrow> 'z \<Rightarrow> string" where
  "GetData api junk path z =
     (let ((flag, buffer), z) = zoo_get api path 1024 z
      in if flag \<noteq> ZOK then '''' else takeWhile (\<lambda>c. c \<noteq> CHR 0x00) (buffer @ junk))"

section \<open>What a server publishes\<close>

definition show_int :: "int \<Rightarrow> string" where
  "show_int i = (if i < 0 then CHR ''-'' # show_nat (nat (- i)) else show_nat (nat i))"

text \<open>\<^verbatim>\<open>sprintf\<close> into \<^verbatim>\<open>char data[32]\<close>: more than 31 characters overrun the array.\<close>

definition publish_data :: "string \<Rightarrow> int \<Rightarrow> int \<Rightarrow> string option" where
  "publish_data ip port weight =
     (let s = takeWhile (\<lambda>c. c \<noteq> CHR 0x00) ip @ '' '' @ show_int port @ '' '' @ show_int weight @ [CHR 0x0A]
      in if length s < 32 then Some s else None)"

definition ZOO_EPHEMERAL :: int where "ZOO_EPHEMERAL = 1"

fun publish_services :: "'z zk_api \<Rightarrow> string \<Rightarrow> int \<Rightarrow> int \<Rightarrow> string list \<Rightarrow> 'z \<Rightarrow> 'z option" where
  "publish_services api ip port weight [] z = Some z"
| "publish_services api ip port weight (sp # services) z =
     (case publish_data ip port weight of
        None \<Rightarrow> None
      | Some data \<Rightarrow> publish_services api ip port weight services
                       (snd (zk_append api (CHR ''/'' # sp) data ZOO_EPHEMERAL z)))"

section \<open>What a cluster reads\<close>

text \<open>\<^verbatim>\<open>std::views::split\<close>: no piece of an empty range, and an empty last piece behind a
  separator at the end.\<close>

definition views_split :: "char \<Rightarrow> string \<Rightarrow> string list" where
  "views_split sep s = (if s = [] then [] else split_at sep s)"

text \<open>The pieces a loop of \<^verbatim>\<open>std::getline\<close> reads: no empty last piece.\<close>

definition getlines :: "char \<Rightarrow> string \<Rightarrow> string list" where
  "getlines sep s = (let ts = split_at sep s in if last ts = [] then butlast ts else ts)"

definition is_space :: "char \<Rightarrow> bool" where
  "is_space c \<longleftrightarrow> c = CHR '' '' \<or> (9 :: nat) \<le> of_char c \<and> of_char c \<le> (13 :: nat)"

definition atoi :: "string \<Rightarrow> int" where
  "atoi s =
     (case dropWhile is_space s of
        [] \<Rightarrow> 0
      | c # r \<Rightarrow>
          (if c = CHR ''-'' then - int (read_digits (takeWhile is_digit r))
           else if c = CHR ''+'' then int (read_digits (takeWhile is_digit r))
           else int (read_digits (takeWhile is_digit (c # r)))))"

record cluster =
  clientMap :: "string \<Rightarrow> (inet_address \<times> int) option"
  loadBalence :: "inet_address round_robin"

text \<open>
  \<open>current\<close> is the \<^verbatim>\<open>currentWeight_\<close> of a new element, the member the balancer needs and \<^verbatim>\<open>Client\<close>, whose
  constructor sets the weight and the client, does not declare: whatever its value would be.
\<close>

definition add_endpoint :: "(string \<Rightarrow> byte \<times> byte \<times> byte \<times> byte) \<Rightarrow> int \<Rightarrow> string \<Rightarrow> cluster \<Rightarrow> cluster option" where
  "add_endpoint other current endpoint cl =
     (let tmp = getlines (CHR '' '') endpoint in
      if length tmp < 3 then None
      else let key = tmp ! 0 @ '':'' @ tmp ! 1;
               address = new_inet other (of_int (atoi (tmp ! 0))) (tmp ! 1);
               cli = (address, atoi (tmp ! 2))
           in Some (cl\<lparr>loadBalence := rr_add \<lparr>el_client = address, el_weight = atoi (tmp ! 2), el_current = current\<rparr> (loadBalence cl),
                       clientMap := (clientMap cl)(key \<mapsto> cli)\<rparr>))"

fun add_endpoints :: "(string \<Rightarrow> byte \<times> byte \<times> byte \<times> byte) \<Rightarrow> int \<Rightarrow> string list \<Rightarrow> cluster \<Rightarrow> cluster option" where
  "add_endpoints other current [] cl = Some cl"
| "add_endpoints other current (e # es) cl =
     (case add_endpoint other current e cl of None \<Rightarrow> None | Some cl \<Rightarrow> add_endpoints other current es cl)"

definition new_cluster :: "(string \<Rightarrow> byte \<times> byte \<times> byte \<times> byte) \<Rightarrow> int \<Rightarrow> string \<Rightarrow> cluster option" where
  "new_cluster other current str =
     add_endpoints other current (views_split (CHR 0x0A) str) \<lparr>clientMap = Map.empty, loadBalence = []\<rparr>"

section \<open>Lemmas\<close>

lemma split_at_not_empty [simp]: "split_at s xs \<noteq> []"
  by (induction xs) (auto split: list.splits)

lemma split_at_snoc: "split_at s (xs @ [s]) = split_at s xs @ [[]]"
  by (induction xs) (auto split: list.splits)

lemma add_endpoints_append:
  "add_endpoints other current (es @ es') cl =
     (case add_endpoints other current es cl of None \<Rightarrow> None | Some cl \<Rightarrow> add_endpoints other current es' cl)"
  by (induction es arbitrary: cl) (auto split: option.splits)

lemma add_empty_endpoint [simp]: "add_endpoint other current [] cl = None"
  by (simp add: add_endpoint_def getlines_def)

lemma new_cluster_trailing_newline: "new_cluster other current (str @ [CHR 0x0A]) = None"
  by (simp add: new_cluster_def views_split_def split_at_snoc add_endpoints_append split: option.splits)

lemma publish_data_newline:
  "publish_data ip port weight = Some d \<Longrightarrow> \<exists>d'. d = d' @ [CHR 0x0A]"
  by (auto simp: publish_data_def Let_def split: if_splits)

lemma zk_append_contents:
  assumes laws: "zk_laws api view"
    and short: "length (case view z path of None \<Rightarrow> data | Some d \<Rightarrow> d) \<le> 1024"
  shows "\<exists>z'. zk_append api path data state z = (ZOK, z')
    \<and> view z' = (view z)(path \<mapsto> (case view z path of None \<Rightarrow> data | Some d \<Rightarrow> d) @ data)"
proof (cases "view z path")
  case None
  then obtain z1 where z1: "zoo_create api path data state z = (ZOK, z1)" "view z1 = (view z)(path \<mapsto> data)"
    using laws unfolding zk_laws_def by blast
  then obtain z2 where z2: "zoo_set api path (data @ data) z1 = (ZOK, z2)"
    "view z2 = (view z1)(path \<mapsto> data @ data)"
    using laws unfolding zk_laws_def by (metis fun_upd_same option.distinct(1))
  have "zoo_get api path 1024 z1 = ((ZOK, data), z1)"
    using laws z1(2) short None unfolding zk_laws_def by simp
  moreover have "zoo_exists api path z = (ZNONODE, z)" using laws None unfolding zk_laws_def by simp
  ultimately show ?thesis using z1 z2 None by (simp add: zk_append_def Let_def)
next
  case (Some d)
  then obtain z2 where z2: "zoo_set api path (d @ data) z = (ZOK, z2)" "view z2 = (view z)(path \<mapsto> d @ data)"
    using laws unfolding zk_laws_def by (metis option.distinct(1))
  have "zoo_get api path 1024 z = ((ZOK, d), z)"
    using laws short Some unfolding zk_laws_def by simp
  moreover have "zoo_exists api path z = (ZOK, z)" using laws Some unfolding zk_laws_def by simp
  ultimately show ?thesis using z2 Some by (simp add: zk_append_def Let_def)
qed

lemma show_int_chars: "c \<in> set (show_int i) \<Longrightarrow> is_digit c \<or> c = CHR ''-''"
  by (auto simp: show_int_def dest: show_nat_digits split: if_splits)

lemma publish_data_chars:
  assumes "publish_data ip port weight = Some d"
  shows "CHR 0x00 \<notin> set d \<and> length d < 32"
proof -
  have "CHR 0x00 \<notin> set (show_int i)" for i
    using show_int_chars [of "CHR 0x00" i] by (auto simp: is_digit_def)
  moreover have "CHR 0x00 \<notin> set (takeWhile (\<lambda>c. c \<noteq> CHR 0x00) ip)"
    using set_takeWhileD [of _ "\<lambda>c. c \<noteq> CHR 0x00" ip] by blast
  ultimately show ?thesis using assms by (auto simp: publish_data_def Let_def split: if_splits)
qed

text \<open>What the node of a service holds once a server has published it.\<close>

definition node_after :: "string option \<Rightarrow> string \<Rightarrow> string" where
  "node_after old d = (case old of None \<Rightarrow> d | Some s \<Rightarrow> s) @ d"

lemma publish_services_contents:
  assumes laws: "zk_laws api view"
    and "publish_data ip port weight = Some d"
    and "publish_services api ip port weight services z = Some z'"
    and "distinct services"
    and "\<forall>sp \<in> set services. \<forall>s. view z (CHR ''/'' # sp) = Some s \<longrightarrow> length s \<le> 1024"
  shows "(\<forall>sp \<in> set services. view z' (CHR ''/'' # sp) = Some (node_after (view z (CHR ''/'' # sp)) d))
    \<and> (\<forall>p. p \<notin> (#) (CHR ''/'') ` set services \<longrightarrow> view z' p = view z p)"
  using assms(3-)
proof (induction services arbitrary: z)
  case Nil
  then show ?case by simp
next
  case (Cons sp services)
  let ?p = "CHR ''/'' # sp"
  have "length (case view z ?p of None \<Rightarrow> d | Some s \<Rightarrow> s) \<le> 1024"
    using Cons.prems(3) publish_data_chars [OF assms(2)] by (auto split: option.splits)
  then obtain z1 where z1: "zk_append api ?p d ZOO_EPHEMERAL z = (ZOK, z1)"
    "view z1 = (view z)(?p \<mapsto> node_after (view z ?p) d)"
    using zk_append_contents [OF laws] unfolding node_after_def by blast
  have run: "publish_services api ip port weight services z1 = Some z'"
    using Cons.prems(1) assms(2) z1(1) by simp
  have other: "view z1 (CHR ''/'' # s) = view z (CHR ''/'' # s)" if "s \<in> set services" for s
    using that Cons.prems(2) z1(2) by auto
  have "sp \<notin> set services" "distinct services" using Cons.prems(2) by simp_all
  moreover have "\<forall>s \<in> set services. \<forall>c. view z1 (CHR ''/'' # s) = Some c \<longrightarrow> length c \<le> 1024"
    using Cons.prems(3) other by simp
  ultimately have "(\<forall>s \<in> set services. view z' (CHR ''/'' # s) = Some (node_after (view z1 (CHR ''/'' # s)) d))
    \<and> (\<forall>p. p \<notin> (#) (CHR ''/'') ` set services \<longrightarrow> view z' p = view z1 p)"
    using Cons.IH [OF run] by blast
  moreover have "?p \<notin> (#) (CHR ''/'') ` set services" using \<open>sp \<notin> set services\<close> by blast
  ultimately show ?case using other z1(2) by auto
qed

section \<open>Properties of discovery\<close>


text \<open>A service that keeps its nodes in a map.\<close>

definition map_zk :: "(string \<Rightarrow> string option) zk_api" where
  "map_zk =
     \<lparr>zoo_exists = (\<lambda>path z. (if z path = None then ZNONODE else ZOK, z)),
      zoo_create = (\<lambda>path data state z. (ZOK, z(path \<mapsto> data))),
      zoo_get = (\<lambda>path n z. case z path of None \<Rightarrow> ((ZNONODE, ''''), z) | Some d \<Rightarrow> ((ZOK, take n d), z)),
      zoo_set = (\<lambda>path data z. (ZOK, z(path \<mapsto> data)))\<rparr>"

lemma zk_laws_map: "zk_laws map_zk (\<lambda>z. z)"
  by (simp add: zk_laws_def map_zk_def)

definition echo_data :: string where
  "echo_data = ''10.0.0.7 9000 1'' @ [CHR 0x0A]"

lemma publish_echo: "publish_data ''10.0.0.7'' 9000 1 = Some echo_data"
  by (simp add: publish_data_def show_int_def show_nat.simps digit_def echo_data_def char_of_def bit_Suc_0_iff)


text \<open>What would be discovered: lines of a port, an address and a weight, between newlines.\<close>

definition endpoint_text :: "16 word \<times> (byte \<times> byte \<times> byte \<times> byte) \<times> nat \<Rightarrow> string" where
  "endpoint_text = (\<lambda>(port, q, w).
     show_nat (unat port) @ CHR '' '' # inet_ntop q @ CHR '' '' # show_nat w)"

fun unlines :: "string list \<Rightarrow> string" where
  "unlines [] = ''''"
| "unlines [l] = l"
| "unlines (l # ls) = l @ CHR 0x0A # unlines ls"

lemma show_nat_no [simp]: "\<not> is_digit c \<Longrightarrow> c \<notin> set (show_nat n)"
  using show_nat_digits by blast

lemma inet_ntop_chars: "c \<in> set (inet_ntop q) \<Longrightarrow> is_digit c \<or> c = CHR ''.''"
  by (cases q) (auto simp: inet_ntop_def show_byte_def dest: show_nat_digits)

lemma separators_not_digits [simp]: "\<not> is_digit (CHR '' '')" "\<not> is_digit (CHR 0x0A)"
  "\<not> is_digit (CHR ''-'')" "\<not> is_digit (CHR ''+'')"
  by (simp_all add: is_digit_def)

lemma inet_ntop_no [simp]: "CHR '' '' \<notin> set (inet_ntop q)" "CHR 0x0A \<notin> set (inet_ntop q)"
  by (auto dest: inet_ntop_chars)

lemma digit_not_space: "is_digit c \<Longrightarrow> \<not> is_space c"
  by (auto simp: is_digit_def is_space_def)

lemma atoi_show_nat [simp]: "atoi (show_nat n) = int n"
proof -
  obtain c r where s: "show_nat n = c # r" by (cases "show_nat n") auto
  have all: "\<forall>x \<in> set (show_nat n). is_digit x" using show_nat_digits by blast
  then have "is_digit c" "takeWhile is_digit (c # r) = c # r" using s by (simp_all add: takeWhile_eq_all_conv)
  moreover from this have "c \<noteq> CHR ''-''" "c \<noteq> CHR ''+''" by auto
  ultimately show ?thesis using read_show [of n] digit_not_space [of c] s
    by (simp add: atoi_def takeWhile_eq_all_conv [THEN iffD2])
qed

lemma split_unlines:
  "ls \<noteq> [] \<Longrightarrow> \<forall>l \<in> set ls. CHR 0x0A \<notin> set l \<Longrightarrow> split_at (CHR 0x0A) (unlines ls) = ls"
  by (induction ls rule: unlines.induct) (auto simp: split_at_no_sep split_at_append)

lemma endpoint_words: "getlines (CHR '' '') (endpoint_text (port, q, w)) = [show_nat (unat port), inet_ntop q, show_nat w]"
  by (simp add: getlines_def endpoint_text_def split_at_append split_at_no_sep)

lemma endpoint_no_newline: "CHR 0x0A \<notin> set (endpoint_text e)"
  by (cases e) (auto simp: endpoint_text_def)

lemma endpoint_not_empty: "endpoint_text e \<noteq> []"
  by (cases e) (simp add: endpoint_text_def)

lemma unlines_not_empty: "ls \<noteq> [] \<Longrightarrow> \<forall>l \<in> set ls. l \<noteq> [] \<Longrightarrow> unlines ls \<noteq> []"
  by (induction ls rule: unlines.induct) auto

definition endpoint_client :: "16 word \<times> (byte \<times> byte \<times> byte \<times> byte) \<times> nat \<Rightarrow> inet_address \<times> int" where
  "endpoint_client = (\<lambda>(port, q, w). (\<lparr>sin_port = htons port, sin_addr = q\<rparr>, int w))"

definition endpoint_key :: "16 word \<times> (byte \<times> byte \<times> byte \<times> byte) \<times> nat \<Rightarrow> string" where
  "endpoint_key = (\<lambda>(port, q, w). show_nat (unat port) @ '':'' @ inet_ntop q)"

definition endpoint_element :: "int \<Rightarrow> 16 word \<times> (byte \<times> byte \<times> byte \<times> byte) \<times> nat \<Rightarrow> inet_address element" where
  "endpoint_element current e =
     \<lparr>el_client = fst (endpoint_client e), el_weight = snd (endpoint_client e), el_current = current\<rparr>"

lemma add_endpoint_text:
  "add_endpoint other current (endpoint_text e) cl =
     Some (cl\<lparr>loadBalence := rr_add (endpoint_element current e) (loadBalence cl),
              clientMap := (clientMap cl)(endpoint_key e \<mapsto> endpoint_client e)\<rparr>)"
  by (cases e) (simp add: add_endpoint_def endpoint_words Let_def endpoint_element_def endpoint_client_def endpoint_key_def
      new_inet_def inet_addr_def)

lemma rr_add_current:
  "(\<forall>e \<in> set (rr_add (endpoint_element current x) lb). el_current e = current) \<longleftrightarrow> (\<forall>e \<in> set lb. el_current e = current)"
  by (auto simp: rr_add_def endpoint_element_def)

lemma add_endpoint_texts:
  "\<exists>cl'. add_endpoints other current (map endpoint_text es) cl = Some cl'
    \<and> rr_members (loadBalence cl') = rr_members (loadBalence cl) @ map endpoint_client es
    \<and> ((\<forall>e \<in> set (loadBalence cl). el_current e = current) \<longrightarrow> (\<forall>e \<in> set (loadBalence cl'). el_current e = current))
    \<and> (\<forall>e \<in> set es. clientMap cl' (endpoint_key e) \<in> Some ` endpoint_client ` set es)
    \<and> (\<forall>k. k \<notin> endpoint_key ` set es \<longrightarrow> clientMap cl' k = clientMap cl k)"
proof (induction es arbitrary: cl)
  case Nil
  then show ?case by simp
next
  case (Cons e es)
  let ?cl = "cl\<lparr>loadBalence := rr_add (endpoint_element current e) (loadBalence cl),
      clientMap := (clientMap cl)(endpoint_key e \<mapsto> endpoint_client e)\<rparr>"
  obtain cl' where cl': "add_endpoints other current (map endpoint_text es) ?cl = Some cl'"
    "rr_members (loadBalence cl') = rr_members (loadBalence ?cl) @ map endpoint_client es"
    "(\<forall>e \<in> set (loadBalence ?cl). el_current e = current) \<longrightarrow> (\<forall>e \<in> set (loadBalence cl'). el_current e = current)"
    "\<forall>e \<in> set es. clientMap cl' (endpoint_key e) \<in> Some ` endpoint_client ` set es"
    "\<forall>k. k \<notin> endpoint_key ` set es \<longrightarrow> clientMap cl' k = clientMap ?cl k"
    using Cons.IH [of ?cl] by blast
  have "clientMap cl' (endpoint_key e) \<in> Some ` endpoint_client ` set (e # es)"
  proof (cases "endpoint_key e \<in> endpoint_key ` set es")
    case True
    then show ?thesis using cl'(4) by fastforce
  next
    case False
    then show ?thesis using cl'(5) by simp
  qed
  moreover have "rr_members (loadBalence cl') = rr_members (loadBalence cl) @ map endpoint_client (e # es)"
    using cl'(2) by (simp add: rr.add_law endpoint_element_def)
  moreover have "(\<forall>e \<in> set (loadBalence cl). el_current e = current) \<longrightarrow> (\<forall>e \<in> set (loadBalence cl'). el_current e = current)"
    using cl'(3) by (simp add: rr_add_current)
  moreover have "add_endpoints other current (map endpoint_text (e # es)) cl = Some cl'"
    using cl'(1) by (simp only: list.map add_endpoints.simps add_endpoint_text option.case)
  moreover have "\<forall>x \<in> set es. clientMap cl' (endpoint_key x) \<in> Some ` endpoint_client ` set (e # es)"
    using cl'(4) by fastforce
  moreover have "\<forall>k. k \<notin> endpoint_key ` set (e # es) \<longrightarrow> clientMap cl' k = clientMap cl k"
    using cl'(5) by simp
  ultimately show ?case by (intro exI [of _ cl']) simp
qed

lemma new_cluster_texts:
  "\<exists>cl. new_cluster other current (unlines (map endpoint_text es)) = Some cl
    \<and> rr_members (loadBalence cl) = map endpoint_client es
    \<and> (\<forall>e \<in> set (loadBalence cl). el_current e = current)
    \<and> dom (clientMap cl) = endpoint_key ` set es"
proof -
  let ?init = "\<lparr>clientMap = Map.empty, loadBalence = []\<rparr>"
  have split: "views_split (CHR 0x0A) (unlines (map endpoint_text es)) = map endpoint_text es"
  proof (cases "es = []")
    case False
    then show ?thesis
      using unlines_not_empty [of "map endpoint_text es"] endpoint_not_empty endpoint_no_newline
      by (simp add: views_split_def split_unlines)
  qed (simp add: views_split_def)
  obtain cl where cl: "add_endpoints other current (map endpoint_text es) ?init = Some cl"
    "rr_members (loadBalence cl) = map endpoint_client es" "\<forall>e \<in> set (loadBalence cl). el_current e = current"
    "\<forall>e \<in> set es. clientMap cl (endpoint_key e) \<in> Some ` endpoint_client ` set es"
    "\<forall>k. k \<notin> endpoint_key ` set es \<longrightarrow> clientMap cl k = None"
    using add_endpoint_texts [of other current es ?init] by (auto simp: rr_members_def)
  have "dom (clientMap cl) = endpoint_key ` set es" using cl(4,5) by (auto simp: dom_def)
  then show ?thesis using cl(1,2,3) split by (simp add: new_cluster_def)
qed


end
