(* ===== verification/ZkSession.thy ===== *)
theory ZkSession
  imports Prelude
begin

text \<open>
  The session of \<^verbatim>\<open>ZkClient\<close> (\<^verbatim>\<open>gdrpc/rpc/zkClient.cpp\<close>): constructor, destructor, \<^verbatim>\<open>Start\<close> and
  \<^verbatim>\<open>global_watcher\<close>, which the library calls in a thread of its own.

  \<^verbatim>\<open>Start\<close> takes four steps between which events of the session may arrive: it opens the session,
  initialises the semaphore in its frame, hands its address to the library, waits. The handle is
  seen as null or not, the context as null or the address of that semaphore, and the semaphore
  as its value while it is initialised and the frame of \<^verbatim>\<open>Start\<close> exists. Undefined behaviour of
  the watcher is \<open>None\<close>.
\<close>

section \<open>The client and its watcher\<close>

abbreviation ZOO_SESSION_EVENT :: int where "ZOO_SESSION_EVENT \<equiv> - 1"
abbreviation ZOO_CONNECTED_STATE :: int where "ZOO_CONNECTED_STATE \<equiv> 3"

datatype start_pc = NotStarted | SemInit | SetContext | SemWait | Started | ExitFailure

record zk_session =
  zk_pc :: start_pc
  zkHandle :: bool
  zk_open :: bool
  zk_context :: bool
  zk_sem :: "nat option"

definition new_session :: zk_session where
  "new_session = \<lparr>zk_pc = NotStarted, zkHandle = False, zk_open = False, zk_context = False, zk_sem = None\<rparr>"

text \<open>One step of \<^verbatim>\<open>Start\<close>. \<open>handle\<close> tells whether \<^verbatim>\<open>zookeeper_init\<close> returned one; \<^verbatim>\<open>sem_wait\<close>
  blocks while the semaphore is 0, and the semaphore goes with the frame.\<close>

definition start_step :: "bool \<Rightarrow> zk_session \<Rightarrow> zk_session" where
  "start_step handle s =
     (case zk_pc s of
        NotStarted \<Rightarrow> if handle then s\<lparr>zk_pc := SemInit, zkHandle := True, zk_open := True\<rparr>
                      else s\<lparr>zk_pc := ExitFailure\<rparr>
      | SemInit \<Rightarrow> s\<lparr>zk_pc := SetContext, zk_sem := Some 0\<rparr>
      | SetContext \<Rightarrow> s\<lparr>zk_pc := SemWait, zk_context := True\<rparr>
      | SemWait \<Rightarrow> (case zk_sem s of Some (Suc n) \<Rightarrow> s\<lparr>zk_pc := Started, zk_sem := None\<rparr> | _ \<Rightarrow> s)
      | _ \<Rightarrow> s)"

definition global_watcher :: "int \<Rightarrow> int \<Rightarrow> zk_session \<Rightarrow> zk_session option" where
  "global_watcher type state s =
     (if type = ZOO_SESSION_EVENT then
        if state = ZOO_CONNECTED_STATE then
          (if zk_context s
           then case zk_sem s of None \<Rightarrow> None | Some n \<Rightarrow> Some (s\<lparr>zk_sem := Some (n + 1)\<rparr>)
           else None)
        else Some s
      else Some s)"

definition close_session :: "zk_session \<Rightarrow> zk_session" where
  "close_session s = (if zkHandle s then s\<lparr>zk_open := False\<rparr> else s)"

section \<open>What can happen\<close>

text \<open>The steps of the thread in \<^verbatim>\<open>Start\<close>, events while the session is open, and the destructor
  in that thread, before \<^verbatim>\<open>Start\<close> or after it.\<close>

datatype session_op = StartStep bool | Notify int int | DestroyClient

inductive session_trace :: "session_op list \<Rightarrow> zk_session \<Rightarrow> bool" where
  fresh: "session_trace [] new_session"
| step: "session_trace tr s \<Longrightarrow> start_step handle s \<noteq> s
    \<Longrightarrow> session_trace (tr @ [StartStep handle]) (start_step handle s)"
| notify: "session_trace tr s \<Longrightarrow> zk_open s \<Longrightarrow> global_watcher type state s = Some s'
    \<Longrightarrow> session_trace (tr @ [Notify type state]) s'"
| destroy: "session_trace tr s \<Longrightarrow> zk_pc s = NotStarted \<or> zk_pc s = Started
    \<Longrightarrow> session_trace (tr @ [DestroyClient]) (close_session s)"

abbreviation Connected :: session_op where
  "Connected \<equiv> Notify ZOO_SESSION_EVENT ZOO_CONNECTED_STATE"

definition session_ok :: "session_op list \<Rightarrow> zk_session \<Rightarrow> bool" where
  "session_ok tr s \<longleftrightarrow>
     (zk_context s \<longleftrightarrow> zk_pc s = SemWait \<or> zk_pc s = Started)
   \<and> (zkHandle s \<longleftrightarrow> zk_pc s \<noteq> NotStarted \<and> zk_pc s \<noteq> ExitFailure)
   \<and> (zk_open s \<longrightarrow> zkHandle s)
   \<and> zk_sem s = (if zk_pc s = SetContext \<or> zk_pc s = SemWait then Some (count_list tr Connected) else None)
   \<and> (Connected \<in> set tr \<longrightarrow> zk_pc s = SemWait \<or> zk_pc s = Started)
   \<and> (zk_pc s = Started \<longrightarrow> Connected \<in> set tr)"

lemma new_session_ok: "session_ok [] new_session"
  by (simp add: session_ok_def new_session_def)

lemma in_set_count: "x \<in> set tr \<longleftrightarrow> count_list tr x \<noteq> 0"
  by (induction tr) auto

lemma start_step_ok:
  "session_ok tr s \<Longrightarrow> session_ok (tr @ [StartStep handle]) (start_step handle s)"
  by (cases "zk_pc s"; cases "count_list tr Connected")
    (auto simp: session_ok_def start_step_def in_set_count)

lemma watcher_ok:
  "session_ok tr s \<Longrightarrow> zk_open s \<Longrightarrow> global_watcher type state s = Some s'
    \<Longrightarrow> session_ok (tr @ [Notify type state]) s'"
  by (auto simp: session_ok_def global_watcher_def split: if_splits option.splits)

lemma session_trace_ok: "session_trace tr s \<Longrightarrow> session_ok tr s"
proof (induction rule: session_trace.induct)
  case (destroy tr s)
  then show ?case by (auto simp: session_ok_def close_session_def)
qed (simp_all add: new_session_ok start_step_ok watcher_ok)

section \<open>Properties of the session\<close>

text \<open>C28. The window of the watcher. Whatever the interleaving of \<^verbatim>\<open>Start\<close>, events and destruction:
  \<^verbatim>\<open>Start\<close> returns only after the session has connected, and returns at its next step once it
  waits and the session has connected. But while the session is open, an event that it has
  connected is undefined behaviour except while \<^verbatim>\<open>Start\<close> waits: before, the watcher posts to a
  null context; after \<^verbatim>\<open>Start\<close> has returned, when the session reconnects, to its dead semaphore.\<close>

theorem connected_only_while_waiting:
  assumes "session_trace tr s"
  shows "(zk_pc s = Started \<longrightarrow> Connected \<in> set tr)
    \<and> (zk_pc s = SemWait \<longrightarrow> (zk_pc (start_step h s) = Started \<longleftrightarrow> Connected \<in> set tr))
    \<and> (zk_open s \<longrightarrow> (global_watcher ZOO_SESSION_EVENT ZOO_CONNECTED_STATE s = None \<longleftrightarrow> zk_pc s \<noteq> SemWait))"
  using session_trace_ok [OF assms]
  by (cases "count_list tr Connected")
    (auto simp: session_ok_def start_step_def global_watcher_def in_set_count split: option.splits)

definition started_session :: zk_session where
  "started_session = \<lparr>zk_pc = Started, zkHandle = True, zk_open = True, zk_context = True, zk_sem = None\<rparr>"

lemma started_session_trace:
  "session_trace [StartStep True, StartStep True, StartStep True, Connected, StartStep True] started_session"
proof -
  note go = session_trace.step [where handle = True, simplified start_step_def]
  have "session_trace [StartStep True] \<lparr>zk_pc = SemInit, zkHandle = True, zk_open = True, zk_context = False, zk_sem = None\<rparr>"
    using go [OF session_trace.fresh] by (simp add: new_session_def)
  from go [OF this]
  have "session_trace [StartStep True, StartStep True]
      \<lparr>zk_pc = SetContext, zkHandle = True, zk_open = True, zk_context = False, zk_sem = Some 0\<rparr>" by simp
  from go [OF this]
  have "session_trace [StartStep True, StartStep True, StartStep True]
      \<lparr>zk_pc = SemWait, zkHandle = True, zk_open = True, zk_context = True, zk_sem = Some 0\<rparr>" by simp
  from session_trace.notify [OF this, of ZOO_SESSION_EVENT ZOO_CONNECTED_STATE]
  have "session_trace [StartStep True, StartStep True, StartStep True, Connected]
      \<lparr>zk_pc = SemWait, zkHandle = True, zk_open = True, zk_context = True, zk_sem = Some 1\<rparr>"
    by (simp add: global_watcher_def)
  from go [OF this] show ?thesis by (simp add: started_session_def)
qed

lemma connected_only_while_waiting_witness:
  "session_trace [StartStep True, StartStep True, StartStep True, Connected, StartStep True] started_session
    \<and> zk_open started_session
    \<and> global_watcher ZOO_SESSION_EVENT ZOO_CONNECTED_STATE started_session = None"
  using started_session_trace connected_only_while_waiting [OF started_session_trace, of True]
  by (simp add: started_session_def)

end
