(* ===== verification/Codec.thy ===== *)
theory Codec
  imports TcpConn
begin

text \<open>
  \<^verbatim>\<open>ProtocolCodec\<close> (\<^verbatim>\<open>gdrpc/protocol/protocol.hpp\<close>, \<^verbatim>\<open>protocol.cpp\<close>) on the connection of \<open>TcpConn\<close>,
  and the header message of \<^verbatim>\<open>rpcHeader.proto\<close>.

  The code that protobuf generates for the messages is not part of the repository: its
  serializer is the parameter \<open>ser\<close>, and \<^verbatim>\<open>ParseFromArray\<close>, which reads from a pointer and a
  length into a message that exists, the parameter \<open>parse\<close>. \<^verbatim>\<open>messageCallback_\<close> is \<open>cb\<close>: it may change
  the connection and the state \<open>'s\<close> of the server or channel that owns the codec.

  The loop of \<^verbatim>\<open>onMessage\<close> may run forever: it is a \<open>partial_function\<close>, and not returning is
  the value \<open>None\<close>. A null pointer dereferenced or a read behind the end of a string is
  \<open>Undefined\<close>. Machine integers are little-endian, as on the platforms the code is built for.
\<close>

section \<open>The header message\<close>

datatype message_type = Request | Response | Cancel | Heartbeat

datatype error_code = NO_ERROR | WRONG_PROTO | NO_SERVICE | NO_METHOD | INVALID_REQUEST
  | INVALID_RESPONSE | TIMEOUT

record rpc_header =
  msg_id :: "32 word"
  version :: string
  service_name :: string
  method_name :: string
  message_type :: message_type
  error_code :: error_code
  extendInfo_len :: "32 word"
  payload_len :: "32 word"

definition default_header :: rpc_header where
  "default_header = \<lparr>msg_id = 0, version = '''', service_name = '''', method_name = '''',
     message_type = Request, error_code = NO_ERROR, extendInfo_len = 0, payload_len = 0\<rparr>"

section \<open>Integers in memory\<close>

definition put_int :: "int \<Rightarrow> bytes" where
  "put_int i = (let w = word_of_int i :: 32 word
                in [ucast w, ucast (drop_bit 8 w), ucast (drop_bit 16 w), ucast (drop_bit 24 w)])"

definition get_int :: "bytes \<Rightarrow> int" where
  "get_int d = sint (ucast (d ! 0) OR push_bit 8 (ucast (d ! 1)) OR push_bit 16 (ucast (d ! 2))
                 OR push_bit 24 (ucast (d ! 3)) :: 32 word)"

definition size_t :: "int \<Rightarrow> nat" where
  "size_t i = nat (i mod 2 ^ 64)"

section \<open>The codec\<close>

definition kHeaderLen :: nat where "kHeaderLen = 4"
definition kChecksumLen :: nat where "kChecksumLen = 4"
definition codec_tag :: string where "codec_tag = ''v1.0''"
definition kMinMessageLen :: nat where "kMinMessageLen = length codec_tag + kChecksumLen"

definition frame :: "bytes \<Rightarrow> bytes \<Rightarrow> bytes" where
  "frame head payload = put_int (int (length head + length payload)) @ head @ payload"

definition codec_send :: "(rpc_header \<Rightarrow> bytes) \<Rightarrow> bool \<Rightarrow> write_result \<Rightarrow> rpc_header \<Rightarrow> bytes \<Rightarrow> conn \<Rightarrow> conn" where
  "codec_send ser in_loop wr header payload c = conn_send in_loop (frame (ser header) payload) wr c"

datatype 's codec_result = Returned 's conn | Undefined

text \<open>\<open>fresh\<close> is what \<^verbatim>\<open>RpcHeaderPtr header;\<close> points to; a string ends in a 0 that may be read.\<close>

partial_function (option) codec_loop :: "(bytes \<Rightarrow> int \<Rightarrow> rpc_header \<Rightarrow> rpc_header) \<Rightarrow> rpc_header option
    \<Rightarrow> (rpc_header \<Rightarrow> bytes \<Rightarrow> 's \<times> conn \<Rightarrow> 's \<times> conn) \<Rightarrow> 's \<Rightarrow> conn \<Rightarrow> 's codec_result option" where
  "codec_loop parse fresh cb s c =
     (let buf = tryRead c; len = length buf in
      if kMinMessageLen + kHeaderLen \<le> len then
        let headerLen = get_int buf in
        if size_t (int kHeaderLen + headerLen) \<le> len then
          case fresh of
            None \<Rightarrow> Some Undefined
          | Some h \<Rightarrow>
              (let header = parse (drop 4 buf) headerLen h;
                   payloadLen = unat (payload_len header) in
               if 4 + kHeaderLen + payloadLen > len + 1 then Some Undefined
               else
                 let payload = take payloadLen (drop (4 + kHeaderLen) (buf @ [0])) in
                 if size_t (int kHeaderLen + headerLen + int payloadLen) \<le> len
                 then
                   let (s', c') = cb header payload (s, c)
                   in codec_loop parse fresh cb s' (snd (conn_retrieve (kHeaderLen + len + payloadLen) c'))
                 else codec_loop parse fresh cb s c)
        else Some (Returned s c)
      else Some (Returned s c))"

text \<open>The pointer is not initialised with a header: it is null.\<close>

definition codec_onMessage :: "(bytes \<Rightarrow> int \<Rightarrow> rpc_header \<Rightarrow> rpc_header)
    \<Rightarrow> (rpc_header \<Rightarrow> bytes \<Rightarrow> 's \<times> conn \<Rightarrow> 's \<times> conn) \<Rightarrow> 's \<Rightarrow> conn \<Rightarrow> 's codec_result option" where
  "codec_onMessage parse cb s c = codec_loop parse None cb s c"

section \<open>Lemmas\<close>

lemma length_put_int [simp]: "length (put_int i) = 4"
  by (simp add: put_int_def Let_def)

lemma get_put_int: "- (2 ^ 31) \<le> i \<Longrightarrow> i < 2 ^ 31 \<Longrightarrow> get_int (put_int i @ d) = i"
proof -
  assume i: "- (2 ^ 31) \<le> i" "i < 2 ^ 31"
  have w: "ucast (ucast w :: byte) OR push_bit 8 (ucast (ucast (drop_bit 8 w) :: byte))
      OR push_bit 16 (ucast (ucast (drop_bit 16 w) :: byte))
      OR push_bit 24 (ucast (ucast (drop_bit 24 w) :: byte)) = w" for w :: "32 word"
  proof (rule bit_word_eqI)
    fix n assume "n < LENGTH(32)"
    then show "bit (ucast (ucast w :: byte) OR push_bit 8 (ucast (ucast (drop_bit 8 w) :: byte))
      OR push_bit 16 (ucast (ucast (drop_bit 16 w) :: byte))
      OR push_bit 24 (ucast (ucast (drop_bit 24 w) :: byte)) :: 32 word) n = bit w n"
      by (cases "n < 8"; cases "n < 16"; cases "n < 24") (auto simp: bit_simps)
  qed
  have "get_int (put_int i @ d) = sint (word_of_int i :: 32 word)"
    unfolding get_int_def put_int_def Let_def using w by (simp add: numeral_2_eq_2 numeral_3_eq_3)
  also have "\<dots> = i" using i signed_take_bit_int_eq_self [of 31 i] by (simp add: signed_of_int)
  finally show ?thesis .
qed

lemma codec_step_null:
  "codec_onMessage parse cb s c =
     Some (if kMinMessageLen + kHeaderLen \<le> length (tryRead c)
              \<and> size_t (int kHeaderLen + get_int (tryRead c)) \<le> length (tryRead c)
           then Undefined else Returned s c)"
  by (simp add: codec_onMessage_def codec_loop.simps Let_def)

section \<open>Properties of the codec\<close>

text \<open>No message gets through. When a frame that \<^verbatim>\<open>send\<close> made has arrived whole, with \<open>rest\<close>
  behind it, \<^verbatim>\<open>onMessage\<close> dereferences a null pointer if there are 8 bytes or more behind the
  length, whatever the callback and the parser; with fewer bytes the frame stays in the buffer
  and nothing is called.\<close>

theorem sent_frame_is_never_delivered:
  assumes "tryRead c = frame head payload @ rest" and "length head + length payload < 2 ^ 31"
  shows "codec_onMessage parse cb s c =
    Some (if 8 \<le> length head + length payload + length rest then Undefined else Returned s c)"
proof -
  let ?n = "length head + length payload"
  have len: "length (tryRead c) = 4 + ?n + length rest" using assms(1) by (simp add: frame_def)
  have "get_int (tryRead c) = int ?n"
    using get_put_int [of "int ?n"] assms by (simp add: frame_def)
  moreover have "size_t (int kHeaderLen + int ?n) = 4 + ?n"
    using assms(2) by (simp add: size_t_def kHeaderLen_def nat_add_distrib)
  ultimately show ?thesis
    unfolding codec_step_null len by (auto simp: kMinMessageLen_def kHeaderLen_def kChecksumLen_def codec_tag_def)
qed
definition received_conn :: "bytes \<Rightarrow> conn" where
  "received_conn d = (new_conn ''s1'' (new_channel 9 100) new_poller False False)
     \<lparr>inputBuffer := append_bytes d (new_buffer kInitialSize)\<rparr>"

lemma tryRead_received: "tryRead (received_conn d) = d"
  by (simp add: tryRead_def received_conn_def readable_append_bytes)

lemma sent_frame_is_never_delivered_witness:
  "codec_onMessage (\<lambda>_ _ h. h) (\<lambda>_ _ x. x) () (received_conn (frame [8, 0, 18, 1] [1, 2, 3, 4])) = Some Undefined
    \<and> codec_onMessage (\<lambda>_ _ h. h) (\<lambda>_ _ x. x) () (received_conn (frame [8, 0] []))
      = Some (Returned () (received_conn (frame [8, 0] [])))"
  using sent_frame_is_never_delivered
      [of "received_conn (frame [8, 0, 18, 1] [1, 2, 3, 4])" "[8, 0, 18, 1]" "[1, 2, 3, 4]" "[]"
        "\<lambda>_ _ h. h" "\<lambda>_ _ x. x" "()"]
    sent_frame_is_never_delivered [of "received_conn (frame [8, 0] [])" "[8, 0]" "[]" "[]"
        "\<lambda>_ _ h. h" "\<lambda>_ _ x. x" "()"]
  by (simp add: tryRead_received)

text \<open>What keeps the loop going.\<close>

definition codec_stuck :: "(bytes \<Rightarrow> int \<Rightarrow> rpc_header \<Rightarrow> rpc_header) \<Rightarrow> rpc_header option
    \<Rightarrow> (rpc_header \<Rightarrow> bytes \<Rightarrow> 's \<times> conn \<Rightarrow> 's \<times> conn) \<Rightarrow> conn \<Rightarrow> bool" where
  "codec_stuck parse fresh cb c \<longleftrightarrow>
     (let data = tryRead c in
      buffer_wf (inputBuffer c) \<and> 12 \<le> length data \<and> size_t (4 + get_int data) \<le> length data
      \<and> (\<exists>h. fresh = Some h \<and> 7 + unat (payload_len (parse (drop 4 data) (get_int data) h)) \<le> length data)
      \<and> (\<forall>h p s c. inputBuffer (snd (cb h p (s, c))) = inputBuffer c))"

lemma stuck_same_input: "inputBuffer c' = inputBuffer c \<Longrightarrow> codec_stuck parse fresh cb c' = codec_stuck parse fresh cb c"
  by (simp add: codec_stuck_def tryRead_def)

lemma stuck_retrieve:
  assumes "codec_stuck parse fresh cb c"
  shows "codec_stuck parse fresh cb (snd (conn_retrieve (4 + length (tryRead c) + p) (snd (cb h d (s, c)))))"
proof -
  have "buffer_wf (inputBuffer c)" "inputBuffer (snd (cb h d (s, c))) = inputBuffer c"
    using assms by (simp_all add: codec_stuck_def Let_def)
  then have "inputBuffer (snd (conn_retrieve (4 + length (tryRead c) + p) (snd (cb h d (s, c))))) = inputBuffer c"
    using retrieve_too_much [of "inputBuffer c" "4 + length (tryRead c) + p"]
    by (simp add: conn_retrieve_def tryRead_def split_beta)
  then show ?thesis using assms stuck_same_input by blast
qed

lemma codec_stuck_loop:
  assumes "codec_loop parse fresh cb s c = Some r"
  shows "\<not> codec_stuck parse fresh cb c"
proof (rule codec_loop.raw_induct [of "\<lambda>parse fresh cb s c r. \<not> codec_stuck parse fresh cb c"], goal_cases)
  case (1 loop parse fresh cb s c r)
  show ?case
  proof
    assume st: "codec_stuck parse fresh cb c"
    then obtain h where "fresh = Some h" by (auto simp: codec_stuck_def Let_def)
    moreover have "loop parse fresh cb s' c \<noteq> Some r" for s' using 1(1) st by blast
    moreover have "loop parse fresh cb s' (snd (conn_retrieve (4 + length (tryRead c) + p) (snd (cb h' d (s, c))))) \<noteq> Some r"
      for p h' d s'
      using 1(1) stuck_retrieve [OF st] by blast
    ultimately show False using 1(2) st
      by (auto simp: codec_stuck_def Let_def kMinMessageLen_def kHeaderLen_def kChecksumLen_def codec_tag_def
          split_beta split: if_splits)
  qed
qed (rule assms)

text \<open>Nor would an allocated header help: \<^verbatim>\<open>retrieve\<close> is asked for the length of the whole buffer
  and more, refuses, and the loop calls the callback on the same bytes forever. This holds for
  every buffer of 12 bytes or more that passes the length test and whose header claims no more
  payload than was received, if the callback leaves the input buffer alone.\<close>

theorem allocated_header_loops_forever:
  assumes "buffer_wf (inputBuffer c)" and "12 \<le> length (tryRead c)"
    and "size_t (4 + get_int (tryRead c)) \<le> length (tryRead c)"
    and "7 + unat (payload_len (parse (drop 4 (tryRead c)) (get_int (tryRead c)) h)) \<le> length (tryRead c)"
    and "\<And>h p s c. inputBuffer (snd (cb h p (s, c))) = inputBuffer c"
  shows "codec_loop parse (Some h) cb s c = None"
proof (cases "codec_loop parse (Some h) cb s c")
  case (Some r)
  then show ?thesis using codec_stuck_loop [OF Some] assms by (simp add: codec_stuck_def Let_def)
qed

lemma allocated_header_loops_forever_witness:
  "codec_loop (\<lambda>_ _ h. h) (Some default_header) (\<lambda>_ _ x. x) () (received_conn (frame [8, 0, 18, 1] [1, 2, 3, 4])) = None"
proof (rule allocated_header_loops_forever)
  let ?d = "frame [8, 0, 18, 1] [1, 2, 3, 4]"
  have "get_int ?d = 8" using get_put_int [of 8] by (simp add: frame_def)
  then show "size_t (4 + get_int (tryRead (received_conn ?d))) \<le> length (tryRead (received_conn ?d))"
    by (simp add: tryRead_received frame_def size_t_def)
  show "buffer_wf (inputBuffer (received_conn ?d))"
    by (simp add: received_conn_def wf_append_bytes)
qed (simp_all add: tryRead_received frame_def default_header_def)

end
