(* ===== verification/Rpc.thy ===== *)
theory Rpc
  imports Codec InetAddress
begin

text \<open>
  The two ends of a remote call: \<^verbatim>\<open>RpcServer\<close> (\<^verbatim>\<open>gdrpc/rpc/rpcServer.cpp\<close>) and
  \<^verbatim>\<open>rpcChannelCli\<close> (\<^verbatim>\<open>gdrpc/rpc/rpcChannelCli.cpp\<close>), above the codec: a handler gets a header and
  a payload, and what it sends is a header with a serialized message.

  Services, their methods and the messages are user code and generated code, so they are
  parameters: a \<open>service\<close> finds a method by its name and parses the bytes of a request; \<open>ser\<close>
  and \<open>parse\<close> are the (de)serializer of the messages. A message or closure that is reached
  through a pointer is a natural number; \<open>heap\<close> holds the messages that have not been deleted.
\<close>

section \<open>The server\<close>

record ('meth, 'm) service =
  full_name :: string
  FindMethodByName :: "string \<Rightarrow> 'meth option"
  ParseRequest :: "'meth \<Rightarrow> bytes \<Rightarrow> 'm option"

text \<open>A closure made by \<^verbatim>\<open>NewCallback\<close>, in the hands of the service until it runs it.\<close>

record ('meth, 'm) pending_call =
  pc_conn :: nat
  pc_id :: int
  pc_method :: 'meth
  pc_request :: 'm

record ('meth, 'm) rpc_server =
  services :: "string \<Rightarrow> ('meth, 'm) service option"
  pendings :: "('meth, 'm) pending_call list"
  responses :: nat
  s_sent :: "(nat \<times> rpc_header \<times> bytes) list"

definition new_rpc_server :: "('meth, 'm) rpc_server" where
  "new_rpc_server = \<lparr>services = Map.empty, pendings = [], responses = 0, s_sent = []\<rparr>"

definition RegisterService :: "('meth, 'm) service \<Rightarrow> ('meth, 'm) rpc_server \<Rightarrow> ('meth, 'm) rpc_server" where
  "RegisterService svc s = s\<lparr>services := (services s)(full_name svc \<mapsto> svc)\<rparr>"

text \<open>The local \<^verbatim>\<open>error\<close> of a request is computed for nothing: the code that would send it is
  commented out.\<close>

definition server_onRpcHeader :: "nat \<Rightarrow> rpc_header \<Rightarrow> bytes \<Rightarrow> ('meth, 'm) rpc_server
    \<Rightarrow> ('meth, 'm) rpc_server" where
  "server_onRpcHeader conn message payload s =
     (if message_type message = Request then
        (case services s (service_name message) of
           None \<Rightarrow> s
         | Some service \<Rightarrow>
             (case FindMethodByName service (method_name message) of
                None \<Rightarrow> s
              | Some method \<Rightarrow>
                  (case ParseRequest service method payload of
                     None \<Rightarrow> s
                   | Some request \<Rightarrow>
                       s\<lparr>responses := Suc (responses s),
                         pendings := pendings s @ [\<lparr>pc_conn = conn, pc_id = uint (msg_id message),
                                                    pc_method = method, pc_request = request\<rparr>]\<rparr>)))
      else s)"

definition SendRpcResponse :: "bytes \<Rightarrow> int \<Rightarrow> nat \<Rightarrow> ('meth, 'm) rpc_server \<Rightarrow> ('meth, 'm) rpc_server" where
  "SendRpcResponse response i conn s =
     (let header = default_header\<lparr>message_type := Response, msg_id := word_of_int i\<rparr>
      in s\<lparr>s_sent := s_sent s @ [(conn, header, response)]\<rparr>)"

text \<open>The service runs a closure it holds: the callback deletes itself.\<close>

definition run_done :: "('meth \<Rightarrow> 'm \<Rightarrow> bytes) \<Rightarrow> nat \<Rightarrow> ('meth, 'm) rpc_server \<Rightarrow> ('meth, 'm) rpc_server" where
  "run_done reply i s =
     (if i < length (pendings s) then
        let pc = pendings s ! i
        in SendRpcResponse (reply (pc_method pc) (pc_request pc)) (pc_id pc) (pc_conn pc)
             (s\<lparr>pendings := take i (pendings s) @ drop (Suc i) (pendings s)\<rparr>)
      else s)"

datatype ('meth, 'm) server_op = Register "('meth, 'm) service" | Receive nat rpc_header bytes | Done nat

fun server_apply :: "('meth \<Rightarrow> 'm \<Rightarrow> bytes) \<Rightarrow> ('meth, 'm) server_op \<Rightarrow> ('meth, 'm) rpc_server
    \<Rightarrow> ('meth, 'm) rpc_server" where
  "server_apply reply (Register svc) s = RegisterService svc s"
| "server_apply reply (Receive conn message payload) s = server_onRpcHeader conn message payload s"
| "server_apply reply (Done i) s = run_done reply i s"

section \<open>The client\<close>

record outstanding =
  o_response :: "nat option"
  o_done :: "nat option"

record 'm rpc_client =
  next_id :: int
  outstandings :: "int \<Rightarrow> outstanding option"
  heap :: "nat \<Rightarrow> 'm option"
  runs :: "(nat \<times> 'm) list"
  c_requests :: "(rpc_header \<times> bytes) list"

definition new_rpc_client :: "(nat \<Rightarrow> 'm option) \<Rightarrow> 'm rpc_client" where
  "new_rpc_client h = \<lparr>next_id = 0, outstandings = Map.empty, heap = h, runs = [], c_requests = []\<rparr>"

definition CallMethod :: "string \<Rightarrow> string \<Rightarrow> bytes \<Rightarrow> nat option \<Rightarrow> nat option \<Rightarrow> 'm rpc_client \<Rightarrow> 'm rpc_client" where
  "CallMethod service method request response don c =
     (let message = default_header\<lparr>message_type := Request, msg_id := word_of_int (next_id c),
                      service_name := service, method_name := method\<rparr>
      in c\<lparr>outstandings := (outstandings c)(next_id c \<mapsto> \<lparr>o_response = response, o_done = don\<rparr>),
           c_requests := c_requests c @ [(message, request)]\<rparr>)"

text \<open>\<open>None\<close>: a deleted message is parsed into or deleted again.\<close>

definition complete :: "(bytes \<Rightarrow> 'm \<Rightarrow> 'm) \<Rightarrow> bytes \<Rightarrow> outstanding \<Rightarrow> 'm rpc_client \<Rightarrow> 'm rpc_client option" where
  "complete parse payload out c =
     (case o_response out of
        None \<Rightarrow> Some c
      | Some r \<Rightarrow>
          (case heap c r of
             None \<Rightarrow> None
           | Some m \<Rightarrow>
               (let m' = parse payload m;
                    c1 = (case o_done out of None \<Rightarrow> c | Some d \<Rightarrow> c\<lparr>runs := runs c @ [(d, m')]\<rparr>)
                in Some (c1\<lparr>heap := (heap c1)(r := None)\<rparr>))))"

definition client_onRpcHeader :: "(bytes \<Rightarrow> 'm \<Rightarrow> 'm) \<Rightarrow> rpc_header \<Rightarrow> bytes \<Rightarrow> 'm rpc_client \<Rightarrow> 'm rpc_client option" where
  "client_onRpcHeader parse message payload c =
     (if message_type message = Response then
        let i = uint (msg_id message) in
        case outstandings c i of
          None \<Rightarrow> complete parse payload \<lparr>o_response = None, o_done = None\<rparr> c
        | Some out \<Rightarrow> complete parse payload out (c\<lparr>outstandings := (outstandings c)(i := None)\<rparr>)
      else Some c)"

text \<open>The destructor deletes the responses that never came.\<close>

definition delete_client :: "'m rpc_client \<Rightarrow> 'm rpc_client" where
  "delete_client c =
     c\<lparr>heap := (\<lambda>r. if \<exists>out \<in> ran (outstandings c). o_response out = Some r then None else heap c r)\<rparr>"

section \<open>Lemmas\<close>

definition answer_key :: "nat \<times> rpc_header \<times> bytes \<Rightarrow> nat \<times> int \<times> bytes" where
  "answer_key = (\<lambda>(conn, header, response). (conn, uint (msg_id header), response))"

definition call_key :: "('meth \<Rightarrow> 'm \<Rightarrow> bytes) \<Rightarrow> ('meth, 'm) pending_call \<Rightarrow> nat \<times> int \<times> bytes" where
  "call_key reply pc = (pc_conn pc, pc_id pc, reply (pc_method pc) (pc_request pc))"

text \<open>What one operation accepts: the answer it will have to give.\<close>

fun accepts :: "('meth \<Rightarrow> 'm \<Rightarrow> bytes) \<Rightarrow> ('meth, 'm) server_op \<Rightarrow> ('meth, 'm) rpc_server \<Rightarrow> (nat \<times> int \<times> bytes) list" where
  "accepts reply (Receive conn message payload) s =
     (if message_type message = Request then
        (case services s (service_name message) of
           None \<Rightarrow> []
         | Some service \<Rightarrow>
             (case FindMethodByName service (method_name message) of
                None \<Rightarrow> []
              | Some method \<Rightarrow>
                  (case ParseRequest service method payload of
                     None \<Rightarrow> []
                   | Some request \<Rightarrow> [(conn, uint (msg_id message), reply method request)])))
      else [])"
| "accepts reply _ s = []"

fun server_run :: "('meth \<Rightarrow> 'm \<Rightarrow> bytes) \<Rightarrow> ('meth, 'm) server_op list \<Rightarrow> ('meth, 'm) rpc_server
    \<Rightarrow> ('meth, 'm) rpc_server \<times> (nat \<times> int \<times> bytes) list" where
  "server_run reply [] s = (s, [])"
| "server_run reply (op # ops) s =
     (let (s', acc) = server_run reply ops (server_apply reply op s) in (s', accepts reply op s @ acc))"

definition pending_ids_ok :: "('meth, 'm) rpc_server \<Rightarrow> bool" where
  "pending_ids_ok s \<longleftrightarrow> (\<forall>pc \<in> set (pendings s). 0 \<le> pc_id pc \<and> pc_id pc < 2 ^ 32)"

definition answers :: "('meth \<Rightarrow> 'm \<Rightarrow> bytes) \<Rightarrow> ('meth, 'm) rpc_server \<Rightarrow> (nat \<times> int \<times> bytes) multiset" where
  "answers reply s = mset (map answer_key (s_sent s)) + mset (map (call_key reply) (pendings s))"

lemma uint_id: "0 \<le> i \<Longrightarrow> i < 2 ^ 32 \<Longrightarrow> uint (word_of_int i :: 32 word) = i"
  by (simp add: uint_word_of_int)

lemma uint_msg_range: "0 \<le> uint (w :: 32 word) \<and> uint w < 2 ^ 32"
  using uint_lt2p [of w] by simp

lemma take_drop_mset:
  "i < length xs \<Longrightarrow> mset xs = add_mset (xs ! i) (mset (take i xs @ drop (Suc i) xs))"
  using id_take_nth_drop [of i xs] by (metis mset.simps(2) mset_append union_mset_add_mset_right)

lemma run_done_props:
  assumes "pending_ids_ok s"
  shows "pending_ids_ok (run_done reply i s) \<and> answers reply (run_done reply i s) = answers reply s
    \<and> responses (run_done reply i s) = responses s"
proof (cases "i < length (pendings s)")
  case True
  have "uint (word_of_int (pc_id (pendings s ! i)) :: 32 word) = pc_id (pendings s ! i)"
    using assms True by (intro uint_id) (simp_all add: pending_ids_ok_def)
  moreover have "mset (map (call_key reply) (pendings s)) = add_mset (call_key reply (pendings s ! i))
      (mset (map (call_key reply) (take i (pendings s) @ drop (Suc i) (pendings s))))"
    using take_drop_mset [OF True] by simp
  moreover have "set (take i (pendings s) @ drop (Suc i) (pendings s)) \<subseteq> set (pendings s)"
    by (auto dest: in_set_takeD in_set_dropD)
  ultimately show ?thesis using assms True
    by (auto simp: run_done_def SendRpcResponse_def answers_def answer_key_def call_key_def Let_def
        pending_ids_ok_def)
qed (use assms in \<open>simp add: run_done_def\<close>)

lemma receive_props:
  assumes "pending_ids_ok s"
  shows "pending_ids_ok (server_onRpcHeader conn message payload s)
    \<and> answers reply (server_onRpcHeader conn message payload s)
       = answers reply s + mset (accepts reply (Receive conn message payload) s)
    \<and> responses (server_onRpcHeader conn message payload s)
       = responses s + length (accepts reply (Receive conn message payload) s)"
  using assms uint_msg_range [of "msg_id message"]
  by (auto simp: server_onRpcHeader_def pending_ids_ok_def answers_def call_key_def
      split: option.splits)

lemma server_apply_props:
  assumes "pending_ids_ok s"
  shows "pending_ids_ok (server_apply reply op s)
    \<and> answers reply (server_apply reply op s) = answers reply s + mset (accepts reply op s)
    \<and> responses (server_apply reply op s) = responses s + length (accepts reply op s)"
proof (cases op)
  case (Register svc)
  then show ?thesis using assms by (simp add: RegisterService_def pending_ids_ok_def answers_def)
next
  case (Receive conn message payload)
  then show ?thesis using receive_props [OF assms] by (simp del: accepts.simps)
next
  case (Done i)
  then show ?thesis using run_done_props [OF assms] by simp
qed

lemma server_run_props:
  "pending_ids_ok s \<Longrightarrow> server_run reply ops s = (s', acc) \<Longrightarrow>
    pending_ids_ok s' \<and> answers reply s' = answers reply s + mset acc \<and> responses s' = responses s + length acc"
proof (induction ops arbitrary: s acc)
  case (Cons op ops)
  obtain acc' where r: "server_run reply ops (server_apply reply op s) = (s', acc')" "acc = accepts reply op s @ acc'"
    using Cons.prems(2) by (auto simp: Let_def split: prod.splits simp del: accepts.simps server_apply.simps)
  then show ?case
    using Cons.IH [OF _ r(1)] server_apply_props [OF Cons.prems(1), of reply op]
    by (simp del: accepts.simps server_apply.simps)
qed simp

lemma new_server_ok: "pending_ids_ok new_rpc_server" "answers reply new_rpc_server = {#}"
  "responses new_rpc_server = 0"
  by (simp_all add: new_rpc_server_def pending_ids_ok_def answers_def)

lemma server_sent_type:
  "\<forall>a \<in> set (s_sent s). message_type (fst (snd a)) = Response \<Longrightarrow>
   \<forall>a \<in> set (s_sent (server_apply reply op s)). message_type (fst (snd a)) = Response"
  by (cases op)
    (auto simp: RegisterService_def run_done_def SendRpcResponse_def Let_def server_onRpcHeader_def
       split: option.splits)

lemma server_run_type:
  "\<forall>a \<in> set (s_sent s). message_type (fst (snd a)) = Response \<Longrightarrow>
   \<forall>a \<in> set (s_sent (fst (server_run reply ops s))). message_type (fst (snd a)) = Response"
proof (induction ops arbitrary: s)
  case (Cons op ops)
  show ?case using Cons.IH [OF server_sent_type [OF Cons.prems]]
    by (simp add: Let_def split_beta del: server_apply.simps)
qed simp

section \<open>Properties of remote calls\<close>

text \<open>C22. Every accepted call is answered once. Whatever services are registered, headers received
  on whatever connections, and closures run by the services in whatever order: the answers sent
  and those still owed are together exactly the answers to the requests that named a known
  service and method and could be parsed, each for the connection and the id of its request;
  a response object has been allocated for each and none is ever deleted.\<close>

theorem accepted_calls_answered_once:
  assumes "server_run reply ops new_rpc_server = (s, accepted)"
  shows "mset (map answer_key (s_sent s)) + mset (map (call_key reply) (pendings s)) = mset accepted
    \<and> (\<forall>(conn, header, response) \<in> set (s_sent s). message_type header = Response)
    \<and> responses s = length accepted"
  using server_run_props [OF new_server_ok(1) assms] new_server_ok
    server_run_type [of new_rpc_server reply ops] assms
  by (auto simp: answers_def new_rpc_server_def)

definition echo_service :: "(string, bytes) service" where
  "echo_service = \<lparr>full_name = ''Echo'', FindMethodByName = (\<lambda>m. if m = ''Say'' then Some m else None),
     ParseRequest = (\<lambda>m d. if d = [] then None else Some d)\<rparr>"

definition echo_request :: "32 word \<Rightarrow> string \<Rightarrow> rpc_header" where
  "echo_request i m = default_header\<lparr>msg_id := i, service_name := ''Echo'', method_name := m\<rparr>"

lemma accepted_calls_answered_once_witness:
  "\<exists>s. server_run (\<lambda>m d. d @ d)
      [Register echo_service, Receive 7 (echo_request 4 ''Say'') [1], Receive 8 (echo_request 5 ''Say'') [2],
       Receive 8 (echo_request 6 ''Shout'') [3], Receive 8 (echo_request 9 ''Say'') [], Done 1] new_rpc_server
      = (s, [(7, 4, [1, 1]), (8, 5, [2, 2])])
    \<and> map answer_key (s_sent s) = [(8, 5, [2, 2])] \<and> length (pendings s) = 1 \<and> responses s = 2"
proof -
  let ?ops = "[Register echo_service, Receive 7 (echo_request 4 ''Say'') [1], Receive 8 (echo_request 5 ''Say'') [2],
       Receive 8 (echo_request 6 ''Shout'') [3], Receive 8 (echo_request 9 ''Say'') [], Done 1]"
  obtain s where s: "server_run (\<lambda>m d. d @ d) ?ops new_rpc_server = (s, [(7, 4, [1, 1]), (8, 5, [2, 2])])"
    by (simp add: new_rpc_server_def RegisterService_def server_onRpcHeader_def echo_service_def
        echo_request_def default_header_def)
  have "map answer_key (s_sent s) = [(8, 5, [2, 2])] \<and> length (pendings s) = 1"
    using s by (auto simp: new_rpc_server_def RegisterService_def server_onRpcHeader_def echo_service_def
        echo_request_def default_header_def run_done_def SendRpcResponse_def Let_def answer_key_def)
  then show ?thesis using s accepted_calls_answered_once [OF s] by simp
qed

text \<open>Calls in flight are confused. The id of a channel is never incremented, so a second call made
  before the first is answered takes over its entry: the first answer to arrive, whichever it is,
  is parsed into the second caller's response and runs the second caller's closure, the other
  answer is dropped, and the first caller never hears anything.\<close>

theorem second_call_takes_over:
  assumes "outstandings c = Map.empty" and "0 \<le> next_id c" and "next_id c < 2 ^ 32"
    and "heap c r2 = Some m2"
    and "c' = CallMethod svc2 meth2 request2 (Some r2) (Some d2) (CallMethod svc1 meth1 request1 (Some r1) (Some d1) c)"
    and "answer = default_header\<lparr>message_type := Response, msg_id := msg_id (fst (last (c_requests c')))\<rparr>"
  shows "\<exists>c1. client_onRpcHeader parse answer payload c' = Some c1
    \<and> runs c1 = runs c @ [(d2, parse payload m2)]
    \<and> client_onRpcHeader parse answer payload' c1 = Some c1
    \<and> map (msg_id \<circ> fst) (c_requests c') = map (msg_id \<circ> fst) (c_requests c)
        @ [word_of_int (next_id c), word_of_int (next_id c)]"
proof -
  have "uint (word_of_int (next_id c) :: 32 word) = next_id c" using assms(2,3) by (rule uint_id)
  then show ?thesis using assms
    by (simp add: CallMethod_def client_onRpcHeader_def complete_def Let_def)
qed

lemma second_call_takes_over_witness:
  "\<exists>c1. client_onRpcHeader (\<lambda>b _. b) (default_header\<lparr>message_type := Response\<rparr>) [9]
      (CallMethod ''Echo'' ''B'' [2] (Some 5) (Some 6) (CallMethod ''Echo'' ''A'' [1] (Some 3) (Some 4)
        (new_rpc_client [3 \<mapsto> [], 5 \<mapsto> []]))) = Some c1
    \<and> runs c1 = [(6, [9])]"
  using second_call_takes_over [of "new_rpc_client [3 \<mapsto> [], 5 \<mapsto> []]" 5 "[]" _ "''Echo''" "''B''" "[2]" 6
      "''Echo''" "''A''" "[1]" 3 4 "default_header\<lparr>message_type := Response\<rparr>" "\<lambda>b _. b" "[9]" "[]", OF _ _ _ _ refl]
  by (auto simp: new_rpc_client_def CallMethod_def Let_def default_header_def)

section \<open>The controller\<close>

text \<open>\<^verbatim>\<open>RpcController\<close> (\<^verbatim>\<open>gdrpc/rpc/rpcController.cpp\<close>): what a caller reads of a call's outcome.\<close>

record rpc_controller =
  ctl_error_code :: int
  ctl_error_info :: string
  ctl_msg_id :: string
  ctl_failed :: bool
  ctl_cancled :: bool
  ctl_local_addr :: inet_address
  ctl_peer_addr :: inet_address
  ctl_timeout :: int

definition new_controller :: "inet_address \<Rightarrow> rpc_controller" where
  "new_controller any = \<lparr>ctl_error_code = 0, ctl_error_info = '''', ctl_msg_id = '''', ctl_failed = False,
     ctl_cancled = False, ctl_local_addr = any, ctl_peer_addr = any, ctl_timeout = 1000\<rparr>"

definition ctl_Reset :: "rpc_controller \<Rightarrow> rpc_controller" where
  "ctl_Reset k = k\<lparr>ctl_error_code := 0, ctl_error_info := '''', ctl_msg_id := '''', ctl_failed := False,
     ctl_cancled := False, ctl_timeout := 1000\<rparr>"

definition ctl_StartCancel :: "rpc_controller \<Rightarrow> rpc_controller" where
  "ctl_StartCancel k = k\<lparr>ctl_cancled := True\<rparr>"

definition ctl_SetFailed :: "string \<Rightarrow> rpc_controller \<Rightarrow> rpc_controller" where
  "ctl_SetFailed reason k = k\<lparr>ctl_error_info := reason\<rparr>"

definition ctl_SetError :: "int \<Rightarrow> string \<Rightarrow> rpc_controller \<Rightarrow> rpc_controller" where
  "ctl_SetError code info k = k\<lparr>ctl_error_code := code, ctl_error_info := info, ctl_failed := True\<rparr>"

definition ctl_SetMsgId :: "string \<Rightarrow> rpc_controller \<Rightarrow> rpc_controller" where
  "ctl_SetMsgId i k = k\<lparr>ctl_msg_id := i\<rparr>"

definition ctl_SetTimeout :: "int \<Rightarrow> rpc_controller \<Rightarrow> rpc_controller" where
  "ctl_SetTimeout t k = k\<lparr>ctl_timeout := t\<rparr>"

definition ctl_SetLocalAddr :: "inet_address \<Rightarrow> rpc_controller \<Rightarrow> rpc_controller" where
  "ctl_SetLocalAddr a k = k\<lparr>ctl_local_addr := a\<rparr>"

definition ctl_SetPeerAddr :: "inet_address \<Rightarrow> rpc_controller \<Rightarrow> rpc_controller" where
  "ctl_SetPeerAddr a k = k\<lparr>ctl_peer_addr := a\<rparr>"

datatype controller_op = CReset | CCancel | CFail string | CError int string | CMsgId string | CTimeout int
  | CLocal inet_address | CPeer inet_address

fun ctl_apply :: "controller_op \<Rightarrow> rpc_controller \<Rightarrow> rpc_controller" where
  "ctl_apply CReset = ctl_Reset" | "ctl_apply CCancel = ctl_StartCancel"
| "ctl_apply (CFail r) = ctl_SetFailed r" | "ctl_apply (CError e i) = ctl_SetError e i"
| "ctl_apply (CMsgId i) = ctl_SetMsgId i" | "ctl_apply (CTimeout t) = ctl_SetTimeout t"
| "ctl_apply (CLocal a) = ctl_SetLocalAddr a" | "ctl_apply (CPeer a) = ctl_SetPeerAddr a"

lemmas ctl_defs = ctl_Reset_def ctl_StartCancel_def ctl_SetFailed_def ctl_SetError_def ctl_SetMsgId_def
  ctl_SetTimeout_def ctl_SetLocalAddr_def ctl_SetPeerAddr_def

fun is_set_error :: "controller_op \<Rightarrow> bool" where
  "is_set_error (CError e i) = True"
| "is_set_error _ = False"

text \<open>Whether a call failed is told by \<^verbatim>\<open>SetError\<close> since the last \<^verbatim>\<open>Reset\<close> alone: \<^verbatim>\<open>SetFailed\<close>, through
  which protobuf reports a failure, leaves \<^verbatim>\<open>Failed\<close> as it was; and \<^verbatim>\<open>Reset\<close> keeps the two addresses.\<close>

fun last_peer :: "controller_op list \<Rightarrow> inet_address \<Rightarrow> inet_address" where
  "last_peer [] a = a"
| "last_peer (CPeer b # ops) a = last_peer ops b"
| "last_peer (_ # ops) a = last_peer ops a"

lemma failed_only_by_set_error:
  "CReset \<notin> set ops \<Longrightarrow>
   ctl_failed (fold ctl_apply ops (ctl_Reset k)) = list_ex is_set_error ops"
proof (induction ops rule: rev_induct)
  case (snoc op ops)
  then show ?case by (cases op) (simp_all add: ctl_defs)
qed (simp add: ctl_Reset_def)

lemma reset_keeps_addresses:
  "ctl_peer_addr (fold ctl_apply ops k) = last_peer ops (ctl_peer_addr k)"
proof (induction ops arbitrary: k)
  case (Cons op ops)
  then show ?case by (cases op) (simp_all add: ctl_defs)
qed simp

end
