(* ===== verification/RpcEnds.thy ===== *)
theory RpcEnds
  imports Rpc
begin

text \<open>
  The ends of a remote call as the code wires them to connections: \<^verbatim>\<open>RpcServer::Run\<close>,
  \<^verbatim>\<open>onConnection\<close> and \<^verbatim>\<open>onMessage\<close> (\<^verbatim>\<open>gdrpc/rpc/rpcServer.cpp\<close>), the constructor of
  \<^verbatim>\<open>rpcChannelCli\<close>, \<^verbatim>\<open>setConnection\<close> and its \<^verbatim>\<open>onMessage\<close> (\<^verbatim>\<open>gdrpc/rpc/rpcChannelCli.cpp\<close>,
  \<^verbatim>\<open>rpcChannelCli.hpp\<close>), around the handlers of \<open>Rpc\<close>, the codec and the connections.

  A node is what both have in common: connections made by a \<^verbatim>\<open>TcpServer\<close> or \<^verbatim>\<open>TcpClient\<close>, each
  with its message callback, an owner told of UP and DOWN by the connection callback, and what
  has become of the process: an empty \<^verbatim>\<open>std::function\<close> that is called throws, which nothing
  catches, and undefined behaviour ends it too (\<open>Crashed\<close>); a handler may never return (\<open>Hung\<close>).
  A server has sub-loops, in which its connections live: \<open>nd_closing\<close> counts the close callbacks that
  queued their functor in the base loop, \<open>nd_removed\<close> those of them that the base loop has run.
\<close>

section \<open>Connections and their owner\<close>

datatype message_cb = NoCallback | OnMessage | UserCallback

datatype fate = Running | Crashed | Hung

record end_conn =
  ec_conn :: conn
  ec_message :: message_cb

record 's node =
  nd_owner :: 's
  nd_conns :: "end_conn list"
  nd_messageCallback :: message_cb
  nd_fate :: fate
  nd_subloops :: nat
  nd_closing :: nat
  nd_removed :: nat

abbreviation conn_at :: "'s node \<Rightarrow> nat \<Rightarrow> conn" where
  "conn_at nd i \<equiv> ec_conn (nd_conns nd ! i)"

definition on_conn :: "nat \<Rightarrow> (conn \<Rightarrow> conn) \<Rightarrow> 's node \<Rightarrow> 's node" where
  "on_conn i f nd = nd\<lparr>nd_conns := (nd_conns nd)[i := (nd_conns nd ! i)\<lparr>ec_conn := f (conn_at nd i)\<rparr>]\<rparr>"

definition conn_does :: "(nat \<Rightarrow> 's node \<Rightarrow> 's node) \<Rightarrow> nat \<Rightarrow> (conn \<Rightarrow> conn) \<Rightarrow> 's node \<Rightarrow> 's node" where
  "conn_does onConnection i f nd =
     (let nd' = on_conn i f nd
      in if connection_told (conn_at nd i) (conn_at nd' i) then onConnection i nd' else nd')"

text \<open>\<^verbatim>\<open>messageCallback_\<close>, the last thing \<^verbatim>\<open>handleRead\<close> does when it has received something.\<close>

type_synonym 's on_message = "nat \<Rightarrow> 's \<Rightarrow> conn \<Rightarrow> 's codec_result option"

definition message_callback :: "'s on_message \<Rightarrow> (conn \<Rightarrow> conn) \<Rightarrow> nat \<Rightarrow> 's node \<Rightarrow> 's node" where
  "message_callback onMessage user i nd =
     (case ec_message (nd_conns nd ! i) of
        NoCallback \<Rightarrow> nd\<lparr>nd_fate := Crashed\<rparr>
      | UserCallback \<Rightarrow> on_conn i user nd
      | OnMessage \<Rightarrow>
          (case onMessage i (nd_owner nd) (conn_at nd i) of
             None \<Rightarrow> nd\<lparr>nd_fate := Hung\<rparr>
           | Some Undefined \<Rightarrow> nd\<lparr>nd_fate := Crashed\<rparr>
           | Some (Returned s c) \<Rightarrow> (on_conn i (\<lambda>_. c) nd)\<lparr>nd_owner := s\<rparr>))"

definition node_handler :: "'s on_message \<Rightarrow> (conn \<Rightarrow> conn) \<Rightarrow> (nat \<Rightarrow> 's node \<Rightarrow> 's node)
    \<Rightarrow> read_result \<Rightarrow> write_result \<Rightarrow> nat \<Rightarrow> event_cb \<Rightarrow> 's node \<Rightarrow> 's node" where
  "node_handler onMessage user onConnection rd wr i cb nd =
     (if nd_fate nd \<noteq> Running then nd
      else let nd' = conn_does onConnection i (conn_handler rd wr cb) nd
           in if cb = ReadCb \<and> fst (readFd rd (inputBuffer (conn_at nd i))) > 0
              then message_callback onMessage user i nd' else nd')"

definition node_report :: "'s on_message \<Rightarrow> (conn \<Rightarrow> conn) \<Rightarrow> (nat \<Rightarrow> 's node \<Rightarrow> 's node)
    \<Rightarrow> event_mask \<Rightarrow> read_result \<Rightarrow> write_result \<Rightarrow> nat \<Rightarrow> 's node \<Rightarrow> 's node" where
  "node_report onMessage user onConnection r rd wr i nd =
     handleEvent True (\<lambda>nd. c_channel (conn_at nd i)) (node_handler onMessage user onConnection rd wr i)
       (on_conn i (\<lambda>c. c\<lparr>c_channel := set_revents r (c_channel c)\<rparr>) nd)"

text \<open>A connection is made with the callbacks of its \<^verbatim>\<open>TcpServer\<close> or \<^verbatim>\<open>TcpClient\<close>; then what can
  happen to a connection happens.\<close>

datatype node_op = NewConn string nat fd poller bool bool | OnConn nat conn_op

fun node_apply :: "'s on_message \<Rightarrow> (conn \<Rightarrow> conn) \<Rightarrow> (nat \<Rightarrow> 's node \<Rightarrow> 's node) \<Rightarrow> node_op
    \<Rightarrow> 's node \<Rightarrow> 's node" where
  "node_apply onMessage user onConnection (NewConn name a f p wc hw) nd =
     nd\<lparr>nd_conns := nd_conns nd @ [\<lparr>ec_conn = new_conn name (new_channel a f) p wc hw,
                                    ec_message = nd_messageCallback nd\<rparr>]\<rparr>"
| "node_apply onMessage user onConnection (OnConn i op) nd =
     (if i < length (nd_conns nd) then
        case op of
          Report r rd wr \<Rightarrow> if conn_registered (conn_at nd i)
                            then node_report onMessage user onConnection r rd wr i nd else nd
        | _ \<Rightarrow> conn_does onConnection i (conn_apply op) nd
      else nd)"

section \<open>The server\<close>

definition rpc_server_Run :: "('meth, 'm) rpc_server \<Rightarrow> ('meth, 'm) rpc_server node" where
  "rpc_server_Run s = \<lparr>nd_owner = s, nd_conns = [], nd_messageCallback = NoCallback, nd_fate = Running,
     nd_subloops = 15, nd_closing = 0, nd_removed = 0\<rparr>"

definition server_onConnection :: "nat \<Rightarrow> 's node \<Rightarrow> 's node" where
  "server_onConnection i nd =
     (if connected (conn_at nd i)
      then nd\<lparr>nd_conns := (nd_conns nd)[i := (nd_conns nd ! i)\<lparr>ec_message := OnMessage\<rparr>]\<rparr> else nd)"

definition server_onMessage :: "(bytes \<Rightarrow> int \<Rightarrow> rpc_header \<Rightarrow> rpc_header) \<Rightarrow> ('meth, 'm) rpc_server on_message" where
  "server_onMessage parse i s c =
     codec_onMessage parse (\<lambda>header payload (s, c). (server_onRpcHeader i header payload s, c)) s c"

text \<open>A service runs the \<open>k\<close>-th closure it holds: the answer goes to the connection of the request.\<close>

definition send_response :: "(rpc_header \<Rightarrow> bytes) \<Rightarrow> ('meth \<Rightarrow> 'm \<Rightarrow> bytes) \<Rightarrow> nat \<Rightarrow> bool \<Rightarrow> write_result
    \<Rightarrow> ('meth, 'm) rpc_server node \<Rightarrow> ('meth, 'm) rpc_server node" where
  "send_response ser reply k in_loop wr nd =
     (if k < length (pendings (nd_owner nd)) then
        let s = run_done reply k (nd_owner nd); (i, header, response) = last (s_sent s)
        in on_conn i (codec_send ser in_loop wr header response) (nd\<lparr>nd_owner := s\<rparr>)
      else nd)"

text \<open>
  The close callback of a connection of a sub-loop queues a functor in the base loop that holds a
  reference to a local variable of \<^verbatim>\<open>handleClose\<close> (\<^verbatim>\<open>gdrpc/net/tcpServer.cpp\<close>, line 77): undefined
  behaviour when the base loop comes to it after \<^verbatim>\<open>handleClose\<close> has returned. \<open>frame_alive\<close> says
  whether it has not.
\<close>

definition count_closing :: "'s node \<Rightarrow> 's node \<Rightarrow> 's node" where
  "count_closing nd nd' =
     (if 0 < nd_subloops nd'
      then nd'\<lparr>nd_closing := nd_closing nd' + (sum_list (map (closes \<circ> ec_conn) (nd_conns nd'))
                 - sum_list (map (closes \<circ> ec_conn) (nd_conns nd)))\<rparr>
      else nd')"

definition base_removes :: "bool \<Rightarrow> 's node \<Rightarrow> 's node" where
  "base_removes frame_alive nd =
     (if nd_removed nd < nd_closing nd
      then nd\<lparr>nd_removed := Suc (nd_removed nd), nd_fate := (if frame_alive then nd_fate nd else Crashed)\<rparr>
      else nd)"

datatype server_node_op = ServerNode node_op | Respond nat bool write_result | BaseRemoves bool

fun server_node_apply :: "(bytes \<Rightarrow> int \<Rightarrow> rpc_header \<Rightarrow> rpc_header) \<Rightarrow> (rpc_header \<Rightarrow> bytes)
    \<Rightarrow> ('meth \<Rightarrow> 'm \<Rightarrow> bytes) \<Rightarrow> server_node_op \<Rightarrow> ('meth, 'm) rpc_server node \<Rightarrow> ('meth, 'm) rpc_server node" where
  "server_node_apply parse ser reply (ServerNode op) nd =
     (if nd_fate nd = Running
      then count_closing nd (node_apply (server_onMessage parse) (\<lambda>c. c) server_onConnection op nd) else nd)"
| "server_node_apply parse ser reply (Respond k in_loop wr) nd =
     (if nd_fate nd = Running then send_response ser reply k in_loop wr nd else nd)"
| "server_node_apply parse ser reply (BaseRemoves frame_alive) nd =
     (if nd_fate nd = Running then base_removes frame_alive nd else nd)"

section \<open>The client\<close>

record 'm rpc_channel =
  rc_calls :: "'m rpc_client"
  rc_conn :: "nat option"

text \<open>The constructor sets the connection callback of its \<^verbatim>\<open>TcpClient\<close>; the message callback stays
  as it is, whatever the user gave it.\<close>

definition new_rpc_channel :: "(nat \<Rightarrow> 'm option) \<Rightarrow> message_cb \<Rightarrow> 'm rpc_channel node" where
  "new_rpc_channel h cb = \<lparr>nd_owner = \<lparr>rc_calls = new_rpc_client h, rc_conn = None\<rparr>, nd_conns = [],
     nd_messageCallback = cb, nd_fate = Running, nd_subloops = 0, nd_closing = 0, nd_removed = 0\<rparr>"

definition setConnection :: "nat \<Rightarrow> 'm rpc_channel node \<Rightarrow> 'm rpc_channel node" where
  "setConnection i nd = nd\<lparr>nd_owner := (nd_owner nd)\<lparr>rc_conn := Some i\<rparr>\<rparr>"

definition channel_onMessage :: "(bytes \<Rightarrow> int \<Rightarrow> rpc_header \<Rightarrow> rpc_header) \<Rightarrow> (bytes \<Rightarrow> 'm \<Rightarrow> 'm)
    \<Rightarrow> 'm rpc_channel on_message" where
  "channel_onMessage parse parse_msg i ch c =
     (case codec_onMessage parse
             (\<lambda>header payload (calls, c). (Option.bind calls (client_onRpcHeader parse_msg header payload), c))
             (Some (rc_calls ch)) c of
        None \<Rightarrow> None
      | Some Undefined \<Rightarrow> Some Undefined
      | Some (Returned None c) \<Rightarrow> Some Undefined
      | Some (Returned (Some calls) c) \<Rightarrow> Some (Returned (ch\<lparr>rc_calls := calls\<rparr>) c))"

text \<open>\<^verbatim>\<open>CallMethod\<close> down to the connection: \<^verbatim>\<open>conn_\<close> is null before the first UP.\<close>

definition channel_call :: "(rpc_header \<Rightarrow> bytes) \<Rightarrow> string \<Rightarrow> string \<Rightarrow> bytes \<Rightarrow> nat option \<Rightarrow> nat option
    \<Rightarrow> bool \<Rightarrow> write_result \<Rightarrow> 'm rpc_channel node \<Rightarrow> 'm rpc_channel node" where
  "channel_call ser svc meth request response don in_loop wr nd =
     (let calls = CallMethod svc meth request response don (rc_calls (nd_owner nd));
          message = fst (last (c_requests calls));
          nd' = nd\<lparr>nd_owner := (nd_owner nd)\<lparr>rc_calls := calls\<rparr>\<rparr>
      in case rc_conn (nd_owner nd) of
           None \<Rightarrow> nd'\<lparr>nd_fate := Crashed\<rparr>
         | Some i \<Rightarrow> on_conn i (codec_send ser in_loop wr message request) nd')"

datatype channel_op = ChannelNode node_op
  | CallRemote string string bytes "nat option" "nat option" bool write_result

fun channel_apply :: "(bytes \<Rightarrow> int \<Rightarrow> rpc_header \<Rightarrow> rpc_header) \<Rightarrow> (bytes \<Rightarrow> 'm \<Rightarrow> 'm)
    \<Rightarrow> (rpc_header \<Rightarrow> bytes) \<Rightarrow> (conn \<Rightarrow> conn) \<Rightarrow> channel_op \<Rightarrow> 'm rpc_channel node \<Rightarrow> 'm rpc_channel node" where
  "channel_apply parse parse_msg ser user (ChannelNode op) nd =
     (if nd_fate nd = Running
      then node_apply (channel_onMessage parse parse_msg) user setConnection op nd else nd)"
| "channel_apply parse parse_msg ser user (CallRemote svc meth request response don in_loop wr) nd =
     (if nd_fate nd = Running then channel_call ser svc meth request response don in_loop wr nd else nd)"

section \<open>What reaches the input of a connection\<close>

definition read_data :: "event_cb \<Rightarrow> read_result \<Rightarrow> bytes" where
  "read_data cb rd = (if cb = ReadCb then case rd of ReadBytes d \<Rightarrow> d | ReadError e \<Rightarrow> [] else [])"

fun quiet_input :: "conn_op \<Rightarrow> bool" where
  "quiet_input (Report r rd wr) = False"
| "quiet_input (UserRetrieve n) = False"
| "quiet_input op = True"

lemma close_input [simp]:
  "c_received (handleClose c) = c_received c" "c_taken (handleClose c) = c_taken c"
  "c_received (shutdownInLoop c) = c_received c" "c_taken (shutdownInLoop c) = c_taken c"
  "c_received (connectDestroyed c) = c_received c" "c_taken (connectDestroyed c) = c_taken c"
  by (simp_all add: handleClose_def connectionCallback_def shutdownInLoop_def connectDestroyed_def Let_def)

lemma handler_input:
  "c_received (conn_handler rd wr cb c) = c_received c @ read_data cb rd"
  "c_taken (conn_handler rd wr cb c) = c_taken c"
  by (cases cb; auto simp: conn_handler_def read_data_def handleRead_def handleError_def handleWrite_def
      split_beta Let_def split: read_result.splits)+

lemma send_input [simp]:
  "c_received (sendInLoop s wr c) = c_received c" "c_taken (sendInLoop s wr c) = c_taken c"
  by (cases wr; simp add: sendInLoop_def send_direct_def send_rest_def Let_def)+

lemma conn_send_input [simp]:
  "c_received (conn_send in_loop s wr c) = c_received c" "c_taken (conn_send in_loop s wr c) = c_taken c"
  by (simp_all add: conn_send_def)

lemma functor_input:
  "c_received (run_functor f wr c) = c_received c \<and> c_taken (run_functor f wr c) = c_taken c"
  by (cases f) (simp_all add: run_functor_def forceCloseInLoop_def)

lemma apply_input:
  "quiet_input op \<Longrightarrow> c_received (conn_apply op c) = c_received c \<and> c_taken (conn_apply op c) = c_taken c"
  using functor_input [of _ _ "c\<lparr>c_queue := _\<rparr>"]
  by (cases op) (auto simp: connectEstablished_def connectionCallback_def shutdown_def forceClose_def
      Let_def split: list.splits)

lemma readFd_positive:
  "buffer_wf b \<Longrightarrow> 0 < fst (readFd rd b) \<longleftrightarrow> read_data ReadCb rd \<noteq> []"
  using readFd_spec by (cases rd) (auto simp: read_data_def readFd_def)

section \<open>Nodes\<close>

lemma on_conn_sel [simp]:
  "nd_owner (on_conn i f nd) = nd_owner nd" "nd_fate (on_conn i f nd) = nd_fate nd"
  "nd_messageCallback (on_conn i f nd) = nd_messageCallback nd"
  "length (nd_conns (on_conn i f nd)) = length (nd_conns nd)"
  "i < length (nd_conns nd) \<Longrightarrow> nd_conns (on_conn i f nd) ! i = (nd_conns nd ! i)\<lparr>ec_conn := f (conn_at nd i)\<rparr>"
  "j \<noteq> i \<Longrightarrow> nd_conns (on_conn i f nd) ! j = nd_conns nd ! j"
  by (simp_all add: on_conn_def)

lemma node_report_props:
  assumes "\<And>cb nd. P nd \<Longrightarrow> P (node_handler onMessage user onConnection rd wr i cb nd)"
    and "P (on_conn i (\<lambda>c. c\<lparr>c_channel := set_revents r (c_channel c)\<rparr>) nd)"
  shows "P (node_report onMessage user onConnection r rd wr i nd)"
  using guard_props [where P = P, OF assms] by (simp add: node_report_def handleEvent_def assms(2))

definition frame_complete :: "bytes \<Rightarrow> bool" where
  "frame_complete d \<longleftrightarrow> kMinMessageLen + kHeaderLen \<le> length d
     \<and> size_t (int kHeaderLen + get_int d) \<le> length d"

section \<open>A node whose messages go nowhere\<close>

text \<open>What the owner's \<^verbatim>\<open>onMessage\<close> turns out to do with the codec as it is: nothing, or undefined
  behaviour once a complete frame has arrived.\<close>

locale message_sink =
  fixes onMessage :: "nat \<Rightarrow> 's \<Rightarrow> conn \<Rightarrow> 's codec_result option"
    and whole :: "bytes \<Rightarrow> bool"
  assumes sink: "onMessage i s c = Some (if whole (tryRead c) then Undefined else Returned s c)"
    and nothing_whole: "\<not> whole []"

definition waiting_end :: "(bytes \<Rightarrow> bool) \<Rightarrow> bool \<Rightarrow> end_conn \<Rightarrow> bool" where
  "waiting_end whole running e \<longleftrightarrow>
     conn_ok (ec_conn e) \<and> c_taken (ec_conn e) = []
   \<and> (if c_state (ec_conn e) = KConnecting
      then c_queue (ec_conn e) = [] \<and> ch_state (c_channel (ec_conn e)) \<noteq> KAdded
      else ec_message e = OnMessage)
   \<and> (running \<longrightarrow> \<not> whole (c_received (ec_conn e)))"

definition waiting_node :: "(bytes \<Rightarrow> bool) \<Rightarrow> 's \<Rightarrow> 's node \<Rightarrow> bool" where
  "waiting_node whole s0 nd \<longleftrightarrow> nd_owner nd = s0 \<and> nd_fate nd \<noteq> Hung
     \<and> (\<forall>e \<in> set (nd_conns nd). waiting_end whole (nd_fate nd = Running) e)
     \<and> (nd_fate nd = Crashed \<longrightarrow> 0 < nd_closing nd \<or> (\<exists>e \<in> set (nd_conns nd). whole (c_received (ec_conn e))))"

lemma waiting_update:
  assumes "\<forall>e \<in> set (nd_conns nd). waiting_end whole True e"
    and "nd_conns nd' = (nd_conns nd)[i := e']" and "waiting_end whole (nd_fate nd' = Running) e'"
  shows "\<forall>e \<in> set (nd_conns nd'). waiting_end whole (nd_fate nd' = Running) e"
proof
  fix e assume "e \<in> set (nd_conns nd')"
  then have "e = e' \<or> e \<in> set (nd_conns nd)"
    using set_update_subset_insert [of "nd_conns nd" i e'] assms(2) by auto
  then show "waiting_end whole (nd_fate nd' = Running) e"
    using assms(1,3) by (auto simp: waiting_end_def)
qed

lemma waiting_on_conn:
  assumes "waiting_node whole s0 nd" and "nd_fate nd = Running"
    and "waiting_end whole True ((nd_conns nd ! i)\<lparr>ec_conn := f (conn_at nd i)\<rparr>)"
  shows "waiting_node whole s0 (on_conn i f nd)"
  using assms waiting_update [of nd whole "on_conn i f nd" i] by (simp add: waiting_node_def on_conn_def)

lemma waiting_at:
  assumes "waiting_node whole s0 nd" and "nd_fate nd = Running" and "i < length (nd_conns nd)"
  shows "waiting_end whole True (nd_conns nd ! i)"
  using assms by (simp add: waiting_node_def)

lemma waiting_input: "waiting_end whole b e \<Longrightarrow> tryRead (ec_conn e) = c_received (ec_conn e)"
  by (auto simp: waiting_end_def conn_ok_def tryRead_def)

lemma onConnection_idle:
  assumes "i < length (nd_conns nd)" and "ec_message (nd_conns nd ! i) = OnMessage"
  shows "conn_does server_onConnection i f nd = on_conn i f nd"
proof -
  have "(nd_conns (on_conn i f nd))[i := (nd_conns (on_conn i f nd) ! i)\<lparr>ec_message := OnMessage\<rparr>]
      = nd_conns (on_conn i f nd)"
    using assms by (intro list_update_same_conv [THEN iffD2]) simp_all
  then show ?thesis by (simp add: conn_does_def server_onConnection_def Let_def)
qed

context message_sink
begin

lemma message_waits:
  assumes "waiting_node whole s0 nd" and "nd_fate nd = Running" and "i < length (nd_conns nd)"
    and "ec_message (nd_conns nd ! i) = OnMessage"
    and "waiting_end whole False ((nd_conns nd ! i)\<lparr>ec_conn := f (conn_at nd i)\<rparr>)"
  shows "waiting_node whole s0 (message_callback onMessage user i (on_conn i f nd))"
proof -
  let ?nd = "on_conn i f nd"
  let ?e = "(nd_conns nd ! i)\<lparr>ec_conn := f (conn_at nd i)\<rparr>"
  have read: "tryRead (f (conn_at nd i)) = c_received (f (conn_at nd i))"
    using waiting_input [OF assms(5)] by simp
  show ?thesis
  proof (cases "whole (c_received (f (conn_at nd i)))")
    case True
    then have "message_callback onMessage user i ?nd = ?nd\<lparr>nd_fate := Crashed\<rparr>"
      using assms(3,4) read by (simp add: message_callback_def sink)
    moreover have "?e \<in> set (nd_conns ?nd)" using assms(3) by (simp add: on_conn_def set_update_memI)
    ultimately show ?thesis
      using assms True waiting_update [of nd whole "?nd\<lparr>nd_fate := Crashed\<rparr>" i ?e]
      by (auto simp: waiting_node_def on_conn_def intro: bexI [of _ ?e])
  next
    case False
    then have "message_callback onMessage user i ?nd = on_conn i (\<lambda>_. f (conn_at nd i)) ?nd\<lparr>nd_owner := nd_owner nd\<rparr>"
      using assms(3,4) read by (simp add: message_callback_def sink)
    also have "\<dots> = ?nd" using assms(3) by (simp add: on_conn_def)
    finally have "message_callback onMessage user i ?nd = ?nd" .
    moreover have "waiting_end whole True ?e" using assms(5) False by (auto simp: waiting_end_def)
    ultimately show ?thesis using waiting_on_conn [OF assms(1,2), where i = i and f = f] by simp
  qed
qed

lemma handler_waits:
  assumes "waiting_node whole s0 nd" and "i < length (nd_conns nd)"
    and "c_state (conn_at nd i) \<noteq> KConnecting"
  shows "waiting_node whole s0 (node_handler onMessage user server_onConnection rd wr i cb nd)
    \<and> i < length (nd_conns (node_handler onMessage user server_onConnection rd wr i cb nd))
    \<and> c_state (conn_at (node_handler onMessage user server_onConnection rd wr i cb nd) i) \<noteq> KConnecting"
proof (cases "nd_fate nd = Running")
  case True
  let ?h = "conn_handler rd wr cb" and ?c = "conn_at nd i"
  have e: "waiting_end whole True (nd_conns nd ! i)" using waiting_at [OF assms(1) True assms(2)] .
  then have msg: "ec_message (nd_conns nd ! i) = OnMessage" and wf: "buffer_wf (inputBuffer ?c)"
    using assms(3) by (simp_all add: waiting_end_def conn_ok_def)
  have state: "c_state (?h ?c) \<noteq> KConnecting" using assms(3) handler_state [of rd wr cb ?c] by auto
  have weak: "waiting_end whole False ((nd_conns nd ! i)\<lparr>ec_conn := ?h ?c\<rparr>)"
    using e conn_handler_props [of ?c rd wr cb] state msg by (simp add: waiting_end_def handler_input)
  show ?thesis
  proof (cases "cb = ReadCb \<and> 0 < fst (readFd rd (inputBuffer ?c))")
    case msgs: True
    have "message_callback onMessage user i (on_conn i ?h nd) \<in>
        {(on_conn i ?h nd)\<lparr>nd_fate := Crashed\<rparr>, (on_conn i (\<lambda>_. ?h ?c) (on_conn i ?h nd))\<lparr>nd_owner := nd_owner nd\<rparr>}"
      using assms(2) msg by (simp add: message_callback_def sink)
    then show ?thesis
      using True msgs message_waits [OF assms(1) True assms(2) msg, where f = ?h, OF weak] assms(2) state
      by (auto simp: node_handler_def onConnection_idle msg Let_def)
  next
    case False
    then have "read_data cb rd = []"
      using readFd_positive [OF wf, of rd] by (auto simp: read_data_def)
    then have "waiting_end whole True ((nd_conns nd ! i)\<lparr>ec_conn := ?h ?c\<rparr>)"
      using weak e state by (simp add: waiting_end_def handler_input)
    then show ?thesis
      using True False waiting_on_conn [OF assms(1) True, where i = i and f = ?h] assms(2) state
      by (auto simp: node_handler_def onConnection_idle msg Let_def)
  qed
qed (use assms in \<open>simp add: node_handler_def\<close>)

end


text \<open>The owner is the only user of its connections and takes nothing off their input itself.\<close>

fun owner_reads :: "node_op \<Rightarrow> bool" where
  "owner_reads (OnConn i (UserRetrieve n)) = True"
| "owner_reads op = False"

lemma waiting_new_end:
  assumes "\<not> whole []"
  shows "waiting_end whole b \<lparr>ec_conn = new_conn name (new_channel a f) p wc hw, ec_message = m\<rparr>"
proof -
  have "\<not> isWriting (new_channel a f)" by (simp add: new_channel_def isWriting_def)
  from new_conn_ok [OF this] show ?thesis
    using assms by (simp add: waiting_end_def) (simp add: new_conn_def new_channel_def)
qed

lemma waiting_established:
  assumes "waiting_node whole s0 nd" and "nd_fate nd = Running" and "i < length (nd_conns nd)"
    and "c_state (conn_at nd i) = KConnecting"
  shows "waiting_node whole s0 (conn_does server_onConnection i (conn_apply Establish) nd)"
proof -
  let ?c = "conn_at nd i"
  let ?nd = "conn_does server_onConnection i (conn_apply Establish) nd"
  let ?e = "\<lparr>ec_conn = conn_apply Establish ?c, ec_message = OnMessage\<rparr>"
  have e: "waiting_end whole True (nd_conns nd ! i)" using waiting_at [OF assms(1-3)] .
  have "connected (connectEstablished ?c)" by (simp add: connected_def established_state)
  then have "nd_conns ?nd = (nd_conns nd)[i := (nd_conns nd ! i)\<lparr>ec_conn := connectEstablished ?c, ec_message := OnMessage\<rparr>]"
    "nd_fate ?nd = Running" "nd_owner ?nd = nd_owner nd"
    using assms(2-4) established_told [of ?c]
    by (simp_all add: conn_does_def server_onConnection_def Let_def) (simp add: on_conn_def)
  moreover have "(nd_conns nd ! i)\<lparr>ec_conn := connectEstablished ?c, ec_message := OnMessage\<rparr> = ?e"
    using assms(4) by (cases "nd_conns nd ! i") simp
  moreover have "waiting_end whole True ?e"
    using e assms(4) conn_apply_props [of ?c Establish] apply_input [of Establish ?c] established_state [of ?c]
    by (simp add: waiting_end_def)
  ultimately show ?thesis
    using assms(1,2) waiting_update [of nd whole ?nd i ?e] by (simp add: waiting_node_def)
qed

lemma waiting_quiet:
  assumes "waiting_node whole s0 nd" and "nd_fate nd = Running" and "i < length (nd_conns nd)"
    and "quiet_input op" and "op \<noteq> Establish \<or> c_state (conn_at nd i) \<noteq> KConnecting"
  shows "waiting_node whole s0 (conn_does server_onConnection i (conn_apply op) nd)"
proof -
  let ?c = "conn_at nd i"
  have e: "waiting_end whole True (nd_conns nd ! i)" using waiting_at [OF assms(1-3)] .
  show ?thesis
  proof (cases "c_state ?c = KConnecting")
    case True
    have same: "waiting_end whole True ((nd_conns nd ! i)\<lparr>ec_conn := conn_apply op ?c\<rparr>)
        \<and> c_log (conn_apply op ?c) = c_log ?c"
    proof (cases "op = OwnerDestroysInLoop")
      case inline: True
      have "ch_state (c_channel (connectDestroyed ?c)) \<noteq> KAdded" "c_queue (connectDestroyed ?c) = []"
        "c_state (connectDestroyed ?c) = KConnecting" "c_log (connectDestroyed ?c) = c_log ?c"
        using e True by (simp_all add: connectDestroyed_def removeChannel_def waiting_end_def split_beta Let_def)
      then show ?thesis
        using e True conn_apply_props [of ?c op] apply_input [OF assms(4), of ?c]
        by (simp add: waiting_end_def inline)
    next
      case False
      then have "conn_apply op ?c = ?c"
        using e True assms(4,5) by (intro connecting_stays) (auto simp: waiting_end_def)
      then show ?thesis using e by simp
    qed
    have "conn_does server_onConnection i (conn_apply op) nd = on_conn i (conn_apply op) nd"
      using same assms(3) by (simp add: conn_does_def connection_told_def)
    then show ?thesis using waiting_on_conn [OF assms(1,2), where i = i and f = "conn_apply op"] same by simp
  next
    case False
    have "waiting_end whole True ((nd_conns nd ! i)\<lparr>ec_conn := conn_apply op ?c\<rparr>)"
      using e False established_forever [OF False, of op] conn_apply_props [of ?c op] apply_input [OF assms(4), of ?c]
      by (simp add: waiting_end_def)
    moreover have "ec_message (nd_conns nd ! i) = OnMessage" using e False by (simp add: waiting_end_def)
    ultimately show ?thesis
      using waiting_on_conn [OF assms(1,2), where i = i and f = "conn_apply op"] onConnection_idle [OF assms(3)] by simp
  qed
qed

context message_sink
begin

lemma report_waits:
  assumes "waiting_node whole s0 nd" and "nd_fate nd = Running" and "i < length (nd_conns nd)"
    and "conn_registered (conn_at nd i)"
  shows "waiting_node whole s0 (node_report onMessage user server_onConnection r rd wr i nd)"
proof -
  let ?P = "\<lambda>nd. waiting_node whole s0 nd \<and> i < length (nd_conns nd) \<and> c_state (conn_at nd i) \<noteq> KConnecting"
  let ?f = "\<lambda>c. c\<lparr>c_channel := set_revents r (c_channel c)\<rparr>"
  have e: "waiting_end whole True (nd_conns nd ! i)" using waiting_at [OF assms(1-3)] .
  then have state: "c_state (conn_at nd i) \<noteq> KConnecting"
    using assms(4) by (auto simp: waiting_end_def conn_registered_def split: if_splits)
  have "waiting_end whole True ((nd_conns nd ! i)\<lparr>ec_conn := ?f (conn_at nd i)\<rparr>)"
    using e state same_streams_ok [OF same_streams_simps(6), of "conn_at nd i" r]
    by (simp add: waiting_end_def)
  then have "waiting_node whole s0 (on_conn i ?f nd)"
    using assms(1,2) by (intro waiting_on_conn)
  then have "?P (on_conn i ?f nd)" using assms(3) state by simp
  from node_report_props [where P = ?P, OF _ this] show ?thesis using handler_waits by blast
qed

lemma node_waits:
  assumes "waiting_node whole s0 nd" and "nd_fate nd = Running" and "\<not> owner_reads op"
  shows "waiting_node whole s0 (node_apply onMessage user server_onConnection op nd)"
proof (cases op)
  case (NewConn name a f p wc hw)
  then show ?thesis
    using assms(1,2) waiting_new_end [of whole, OF nothing_whole] by (simp add: waiting_node_def)
next
  case (OnConn i cop)
  show ?thesis
  proof (cases "i < length (nd_conns nd)")
    case i: True
    show ?thesis
    proof (cases "cop = Establish \<and> c_state (conn_at nd i) = KConnecting")
      case True
      then show ?thesis using OnConn i waiting_established [OF assms(1,2) i] by simp
    next
      case False
      then show ?thesis
        using OnConn i assms report_waits [OF assms(1,2) i] waiting_quiet [OF assms(1,2) i, of cop]
        by (cases cop) (simp_all del: conn_apply.simps)
    qed
  qed (use OnConn assms in simp)
qed

end


section \<open>Properties of the ends\<close>

interpretation server_sink: message_sink "server_onMessage parse" frame_complete for parse
  by unfold_locales (simp_all add: server_onMessage_def codec_step_null frame_complete_def kMinMessageLen_def
      kHeaderLen_def)

interpretation channel_sink: message_sink "channel_onMessage parse parse_msg" frame_complete for parse parse_msg
  by unfold_locales (simp_all add: channel_onMessage_def codec_step_null frame_complete_def kMinMessageLen_def
      kHeaderLen_def)

fun server_reads :: "server_node_op \<Rightarrow> bool" where
  "server_reads (ServerNode op) = owner_reads op"
| "server_reads (Respond k in_loop wr) = False"
| "server_reads (BaseRemoves frame_alive) = False"

lemma waiting_count: "waiting_node whole s0 nd' \<Longrightarrow> waiting_node whole s0 (count_closing nd nd')"
  by (auto simp: waiting_node_def count_closing_def)

lemma waiting_removes: "waiting_node whole s0 nd \<Longrightarrow> waiting_node whole s0 (base_removes frame_alive nd)"
  by (auto simp: waiting_node_def base_removes_def waiting_end_def)

lemma server_node_waits:
  assumes "waiting_node frame_complete s0 nd" and "pendings s0 = []" and "\<not> server_reads op"
  shows "waiting_node frame_complete s0 (server_node_apply parse ser reply op nd)"
proof -
  have owner: "nd_owner nd = s0" using assms(1) by (simp add: waiting_node_def)
  show ?thesis
  proof (cases op)
    case (ServerNode nop)
    then show ?thesis
      using assms(1,3) waiting_count [OF server_sink.node_waits [OF assms(1)]] by simp
  next
    case (Respond k in_loop wr)
    then show ?thesis using assms(1,2) owner by (simp add: send_response_def)
  next
    case (BaseRemoves frame_alive)
    then show ?thesis using assms(1) waiting_removes [OF assms(1)] by simp
  qed
qed

lemma server_run_waits:
  assumes "pendings s0 = []"
  shows "waiting_node frame_complete s0 nd \<Longrightarrow> \<forall>op \<in> set ops. \<not> server_reads op
    \<Longrightarrow> waiting_node frame_complete s0 (fold (server_node_apply parse ser reply) ops nd)"
  using server_node_waits [OF _ assms] by (induction ops arbitrary: nd) simp_all

text \<open>C14. No request is dispatched. Whatever connections an \<^verbatim>\<open>RpcServer\<close> accepts and whatever is
  received on them, in whatever pieces, with other events and closing in between: its state stays
  the one \<^verbatim>\<open>Run\<close> was called in, no service is asked and no answer sent. A connection that has received a
  complete frame, that is 12 bytes or more of which the first four, read as an integer, do not
  announce more than has come, has ended the process; and as long as no close callback has queued its
  functor in the base loop, nothing else has. After a close in one of the 15 sub-loops the reference
  of that functor may end it too.\<close>

theorem no_request_is_dispatched:
  assumes "pendings s0 = []" and "\<forall>op \<in> set ops. \<not> server_reads op"
    and "nd = fold (server_node_apply parse ser reply) ops (rpc_server_Run s0)"
  shows "nd_owner nd = s0 \<and> nd_fate nd \<noteq> Hung
    \<and> ((\<exists>e \<in> set (nd_conns nd). frame_complete (c_received (ec_conn e))) \<longrightarrow> nd_fate nd = Crashed)
    \<and> (nd_closing nd = 0 \<longrightarrow> nd_fate nd
        = (if \<exists>e \<in> set (nd_conns nd). frame_complete (c_received (ec_conn e)) then Crashed else Running))"
proof -
  have "waiting_node frame_complete s0 (rpc_server_Run s0)" by (simp add: rpc_server_Run_def waiting_node_def)
  from server_run_waits [OF assms(1) this assms(2), of parse ser reply]
  show ?thesis unfolding assms(3) by (cases "nd_fate (fold (server_node_apply parse ser reply) ops (rpc_server_Run s0))")
      (auto simp: waiting_node_def waiting_end_def)
qed

definition echo_node :: "bytes \<Rightarrow> (string, bytes) rpc_server node" where
  "echo_node d = fold (server_node_apply (\<lambda>_ _ h. h) (\<lambda>_. []) (\<lambda>m d. d @ d))
     [ServerNode (NewConn ''c'' 1 7 new_poller False False), ServerNode (OnConn 0 Establish),
      ServerNode (OnConn 0 (Report EPOLLIN (ReadBytes d) (Wrote 0)))] (rpc_server_Run new_rpc_server)"

lemma established_input [simp]:
  "c_received (connectEstablished c) = c_received c" "inputBuffer (connectEstablished c) = inputBuffer c"
  by (simp_all add: connectEstablished_def connectionCallback_def Let_def)

lemma handler_cbs:
  "ch_cbs (c_channel (connectEstablished c)) = ch_cbs (c_channel c)" "ch_tied (c_channel (connectEstablished c))"
  by (simp_all add: connectEstablished_def connectionCallback_def Let_def channel_ops tie_def)

lemma new_conn_sel:
  "c_state (new_conn name ch p wc hw) = KConnecting" "c_received (new_conn name ch p wc hw) = []"
  "inputBuffer (new_conn name ch p wc hw) = new_buffer kInitialSize"
  "ch_cbs (c_channel (new_conn name ch p wc hw)) = [ReadCb, WriteCb, CloseCb, ErrorCb]"
  "ch_state (c_channel (new_conn name ch p wc hw)) = ch_state ch"
  by (simp_all add: new_conn_def)

lemma established_new_registered:
  "conn_registered (connectEstablished (new_conn name (new_channel a f) new_poller wc hw))"
  by (simp add: conn_registered_def connectEstablished_def connectionCallback_def Let_def channel_ops
      updateChannel_def tie_def new_conn_def new_channel_def hasChannel_def new_poller_def poller_update_def)

lemma echo_closes [simp]:
  "closes (connectEstablished c) = closes c" "closes (new_conn name ch p wc hw) = 0"
  "closes (c\<lparr>c_channel := ch\<rparr>) = closes c"
  "0 < fst (readFd rd (inputBuffer c)) \<Longrightarrow> closes (conn_handler rd wr ReadCb c) = closes c"
proof -
  show "0 < fst (readFd rd (inputBuffer c)) \<Longrightarrow> closes (conn_handler rd wr ReadCb c) = closes c"
    by (simp add: conn_handler_def handleRead_def split_beta Let_def closes_def log_event_def)
  show "closes (connectEstablished c) = closes c"
    by (simp add: connectEstablished_def connectionCallback_def Let_def closes_def)
qed (simp_all add: closes_def new_conn_def)

definition one_conn :: "conn \<Rightarrow> message_cb \<Rightarrow> 's node \<Rightarrow> 's node" where
  "one_conn c m nd = nd\<lparr>nd_conns := [\<lparr>ec_conn = c, ec_message = m\<rparr>]\<rparr>"

lemma count_none:
  "sum_list (map (closes \<circ> ec_conn) (nd_conns nd')) = sum_list (map (closes \<circ> ec_conn) (nd_conns nd))
    \<Longrightarrow> count_closing nd nd' = nd'"
  by (simp add: count_closing_def)

lemma one_conn_made:
  "server_node_apply parse ser reply (ServerNode (NewConn name a f p wc hw)) (rpc_server_Run s)
    = one_conn (new_conn name (new_channel a f) p wc hw) NoCallback (rpc_server_Run s)"
  by (simp add: rpc_server_Run_def one_conn_def count_closing_def)

lemma one_conn_established:
  assumes "c_state c = KConnecting"
  shows "server_node_apply parse ser reply (ServerNode (OnConn 0 Establish)) (one_conn c NoCallback (rpc_server_Run s))
    = one_conn (connectEstablished c) OnMessage (rpc_server_Run s)"
proof -
  have "connected (connectEstablished c)" by (simp add: connected_def established_state)
  then have "conn_does server_onConnection 0 (conn_apply Establish) (one_conn c NoCallback (rpc_server_Run s))
      = one_conn (connectEstablished c) OnMessage (rpc_server_Run s)"
    using assms established_told by (simp add: one_conn_def conn_does_def on_conn_def server_onConnection_def Let_def)
  then show ?thesis by (subst server_node_apply.simps)
      (simp add: one_conn_def rpc_server_Run_def count_closing_def del: conn_apply.simps)
qed

lemma one_conn_reads:
  assumes "conn_registered c" and "[ReadCb, WriteCb, CloseCb, ErrorCb] = ch_cbs (c_channel c)"
    and "0 < fst (readFd (ReadBytes d) (inputBuffer c))" and "closes c = 0" and "c_received c = []"
  shows "\<exists>e. nd_conns (server_node_apply parse ser reply (ServerNode (OnConn 0 (Report EPOLLIN (ReadBytes d) wr)))
        (one_conn c OnMessage (rpc_server_Run s))) = [e] \<and> c_received (ec_conn e) = d
    \<and> nd_closing (server_node_apply parse ser reply (ServerNode (OnConn 0 (Report EPOLLIN (ReadBytes d) wr)))
        (one_conn c OnMessage (rpc_server_Run s))) = 0"
proof -
  let ?c = "c\<lparr>c_channel := set_revents EPOLLIN (c_channel c)\<rparr>"
  let ?nd = "one_conn c OnMessage (rpc_server_Run s)"
  let ?n = "node_report (server_onMessage parse) (\<lambda>c. c) server_onConnection EPOLLIN (ReadBytes d) wr 0 ?nd"
  let ?x = "node_handler (server_onMessage parse) (\<lambda>c. c) server_onConnection (ReadBytes d) wr 0 ReadCb
      (one_conn ?c OnMessage (rpc_server_Run s))"
  have "conn_does server_onConnection 0 (conn_handler (ReadBytes d) wr ReadCb) (one_conn ?c OnMessage (rpc_server_Run s))
      = one_conn (conn_handler (ReadBytes d) wr ReadCb ?c) OnMessage (rpc_server_Run s)"
    by (subst onConnection_idle) (simp_all add: one_conn_def rpc_server_Run_def on_conn_def)
  then have x: "?x = message_callback (server_onMessage parse) (\<lambda>c. c) 0
      (one_conn (conn_handler (ReadBytes d) wr ReadCb ?c) OnMessage (rpc_server_Run s))"
    using assms(3) by (simp add: node_handler_def) (simp add: one_conn_def rpc_server_Run_def)
  also have "\<dots> = (one_conn (conn_handler (ReadBytes d) wr ReadCb ?c) OnMessage (rpc_server_Run s))
      \<lparr>nd_fate := if frame_complete (tryRead (conn_handler (ReadBytes d) wr ReadCb ?c)) then Crashed else Running\<rparr>"
    by (simp add: message_callback_def server_sink.sink one_conn_def rpc_server_Run_def on_conn_def)
  finally have x: "?x = \<dots>" .
  have ch: "c_channel (conn_handler (ReadBytes d) wr ReadCb ?c) = set_revents EPOLLIN (c_channel c)"
    using assms(3) by (simp add: conn_handler_def handleRead_def split_beta Let_def)
  have "?n = ?x"
  proof -
    have "on_conn 0 (\<lambda>c. c\<lparr>c_channel := set_revents EPOLLIN (c_channel c)\<rparr>) ?nd = one_conn ?c OnMessage (rpc_server_Run s)"
      by (simp add: on_conn_def one_conn_def)
    moreover have "c_channel (conn_at (one_conn ?c OnMessage (rpc_server_Run s)) 0) = set_revents EPOLLIN (c_channel c)"
      "c_channel (conn_at ?x 0) = set_revents EPOLLIN (c_channel c)"
      using ch by (simp_all add: x) (simp_all add: one_conn_def)
    ultimately show ?thesis
      using assms(2) [symmetric]
      by (simp add: node_report_def handleEvent_def handleEventWithGuard_def set_revents_def event_masks Let_def)
  qed
  with x have n: "?n = (one_conn (conn_handler (ReadBytes d) wr ReadCb ?c) OnMessage (rpc_server_Run s))
      \<lparr>nd_fate := if frame_complete (tryRead (conn_handler (ReadBytes d) wr ReadCb ?c)) then Crashed else Running\<rparr>"
    by simp
  then have "nd_conns ?n = [\<lparr>ec_conn = conn_handler (ReadBytes d) wr ReadCb ?c, ec_message = OnMessage\<rparr>]" "nd_closing ?n = 0"
    by (auto simp: one_conn_def rpc_server_Run_def)
  moreover have "closes (conn_handler (ReadBytes d) wr ReadCb ?c) = 0" using assms(3,4) by simp
  moreover have "server_node_apply parse ser reply (ServerNode (OnConn 0 (Report EPOLLIN (ReadBytes d) wr))) ?nd = count_closing ?nd ?n"
    using assms(1) by (simp add: one_conn_def rpc_server_Run_def)
  ultimately show ?thesis
    using assms(4,5) by (simp add: count_none one_conn_def handler_input read_data_def)
qed

lemma echo_node_receives:
  assumes "d \<noteq> []"
  shows "\<exists>e. nd_conns (echo_node d) = [e] \<and> c_received (ec_conn e) = d \<and> nd_closing (echo_node d) = 0"
proof -
  have read: "0 < fst (readFd (ReadBytes d) (new_buffer kInitialSize))"
    using readFd_positive [OF wf_new_buffer, of "ReadBytes d"] assms by (simp add: read_data_def)
  show ?thesis
    unfolding echo_node_def fold.simps o_apply id_apply one_conn_made one_conn_established [OF new_conn_sel(1)]
    by (rule one_conn_reads) (simp_all add: read new_conn_sel established_new_registered handler_cbs)
qed

lemma frame_complete_iff:
  "length head + length payload < 2 ^ 31 \<Longrightarrow>
    frame_complete (frame head payload) \<longleftrightarrow> 8 \<le> length head + length payload"
  using get_put_int [of "int (length head + length payload)"]
  by (simp add: frame_complete_def frame_def size_t_def kHeaderLen_def kMinMessageLen_def kChecksumLen_def
      codec_tag_def nat_add_distrib)

lemma no_request_is_dispatched_witness:
  "nd_fate (echo_node (frame [8, 0, 18, 1] [1, 2, 3, 4])) = Crashed
    \<and> nd_fate (echo_node (frame [8, 0] [])) = Running"
proof -
  have ops: "pendings (new_rpc_server :: (string, bytes) rpc_server) = []"
    "\<forall>op \<in> set [ServerNode (NewConn ''c'' 1 7 new_poller False False), ServerNode (OnConn 0 Establish),
      ServerNode (OnConn 0 (Report EPOLLIN (ReadBytes d) (Wrote 0)))]. \<not> server_reads op" for d
    by (simp_all add: new_rpc_server_def)
  have nonempty: "frame head payload \<noteq> []" for head payload
    using length_put_int by (auto simp: frame_def simp flip: length_0_conv)
  have "nd_fate (echo_node (frame head payload))
      = (if frame_complete (frame head payload) then Crashed else Running)" for head payload
    using no_request_is_dispatched [OF ops echo_node_def [of "frame head payload"]]
      echo_node_receives [OF nonempty [of head payload]] by auto
  then show ?thesis by (simp add: frame_complete_iff)
qed

section \<open>The client\<close>

definition silent_end :: "message_cb \<Rightarrow> bool \<Rightarrow> end_conn \<Rightarrow> bool" where
  "silent_end cb running e \<longleftrightarrow> ec_message e = cb
     \<and> (cb = NoCallback \<longrightarrow> conn_ok (ec_conn e) \<and> (running \<longrightarrow> c_received (ec_conn e) = []))"

definition silent_node :: "message_cb \<Rightarrow> (nat \<Rightarrow> 'm option) \<Rightarrow> 'm rpc_channel node \<Rightarrow> bool" where
  "silent_node cb h nd \<longleftrightarrow> runs (rc_calls (nd_owner nd)) = [] \<and> heap (rc_calls (nd_owner nd)) = h
     \<and> nd_fate nd \<noteq> Hung \<and> nd_messageCallback nd = cb
     \<and> (\<forall>e \<in> set (nd_conns nd). silent_end cb (nd_fate nd = Running) e)"

lemma setConnection_sel [simp]:
  "rc_calls (nd_owner (setConnection i nd)) = rc_calls (nd_owner nd)" "nd_conns (setConnection i nd) = nd_conns nd"
  "nd_fate (setConnection i nd) = nd_fate nd" "nd_messageCallback (setConnection i nd) = nd_messageCallback nd"
  by (simp_all add: setConnection_def)

lemma does_sel [simp]:
  "rc_calls (nd_owner (conn_does setConnection i f nd)) = rc_calls (nd_owner nd)"
  "nd_conns (conn_does setConnection i f nd) = nd_conns (on_conn i f nd)"
  "nd_fate (conn_does setConnection i f nd) = nd_fate nd"
  "nd_messageCallback (conn_does setConnection i f nd) = nd_messageCallback nd"
  by (simp_all add: conn_does_def Let_def)

lemma silent_update:
  assumes "silent_node cb h nd" and "nd_conns nd' = nd_conns (on_conn i f nd)"
    and "rc_calls (nd_owner nd') = rc_calls (nd_owner nd)" "nd_messageCallback nd' = nd_messageCallback nd"
    and "nd_fate nd = Running" "nd_fate nd' \<noteq> Hung"
    and "silent_end cb True (nd_conns nd ! i) \<Longrightarrow>
      silent_end cb (nd_fate nd' = Running) ((nd_conns nd ! i)\<lparr>ec_conn := f (conn_at nd i)\<rparr>)"
    and "i < length (nd_conns nd)"
  shows "silent_node cb h nd'"
proof -
  let ?e = "(nd_conns nd ! i)\<lparr>ec_conn := f (conn_at nd i)\<rparr>"
  have "silent_end cb (nd_fate nd' = Running) e" if "e \<in> set (nd_conns nd')" for e
  proof -
    have "e = ?e \<or> e \<in> set (nd_conns nd)"
      using set_update_subset_insert [of "nd_conns nd" i ?e] that assms(2) by (auto simp: on_conn_def)
    then show ?thesis using assms(1,5,7,8) by (auto simp: silent_node_def silent_end_def)
  qed
  then show ?thesis using assms by (simp add: silent_node_def)
qed

lemma silent_input:
  "silent_end cb True e \<Longrightarrow>
    (cb = NoCallback \<Longrightarrow> conn_ok (ec_conn e) \<Longrightarrow> conn_ok c' \<and> c_received c' = c_received (ec_conn e))
    \<Longrightarrow> silent_end cb b (e\<lparr>ec_conn := c'\<rparr>)"
  by (simp add: silent_end_def)

lemma silent_at: "silent_node cb h nd \<Longrightarrow> nd_fate nd = Running \<Longrightarrow> i < length (nd_conns nd)
    \<Longrightarrow> silent_end cb True (nd_conns nd ! i)"
  by (simp add: silent_node_def)

lemma silent_does:
  assumes "silent_node cb h nd" and "nd_fate nd = Running" and "i < length (nd_conns nd)"
    and "cb = NoCallback \<Longrightarrow> conn_ok (conn_at nd i) \<Longrightarrow>
      conn_ok (f (conn_at nd i)) \<and> c_received (f (conn_at nd i)) = c_received (conn_at nd i)"
  shows "silent_node cb h (conn_does setConnection i f nd)" and "silent_node cb h (on_conn i f nd)"
proof -
  have "silent_end cb True ((nd_conns nd ! i)\<lparr>ec_conn := f (conn_at nd i)\<rparr>)"
    using silent_input [OF silent_at [OF assms(1-3)] assms(4)] .
  then show "silent_node cb h (conn_does setConnection i f nd)" "silent_node cb h (on_conn i f nd)"
    using silent_update [OF assms(1) _ _ _ assms(2) _ _ assms(3)] assms(2) by simp_all
qed

lemma silent_handler:
  assumes "silent_node cb h nd" and "i < length (nd_conns nd)" and "cb \<noteq> OnMessage"
  shows "silent_node cb h (node_handler onMessage user setConnection rd wr i ev nd)
    \<and> i < length (nd_conns (node_handler onMessage user setConnection rd wr i ev nd))"
proof (cases "nd_fate nd = Running")
  case True
  let ?h = "conn_handler rd wr ev" and ?c = "conn_at nd i"
  let ?nd = "conn_does setConnection i ?h nd"
  have e: "silent_end cb True (nd_conns nd ! i)" using silent_at [OF assms(1) True assms(2)] .
  have ok: "cb = NoCallback \<Longrightarrow> conn_ok ?c \<and> conn_ok (?h ?c)"
    using e conn_handler_props [of ?c rd wr ev] by (simp add: silent_end_def)
  show ?thesis
  proof (cases "ev = ReadCb \<and> 0 < fst (readFd rd (inputBuffer ?c))")
    case msg: True
    have "ec_message (nd_conns ?nd ! i) = cb" using e assms(2) by (simp add: silent_end_def)
    then have r: "message_callback onMessage user i ?nd
        = (if cb = NoCallback then ?nd\<lparr>nd_fate := Crashed\<rparr> else on_conn i user ?nd)"
      using assms(3) by (cases cb) (simp_all add: message_callback_def)
    have "silent_node cb h (message_callback onMessage user i ?nd)"
    proof (cases "cb = NoCallback")
      case nocb: True
      show ?thesis unfolding r using nocb ok e assms(2)
        by (intro silent_update [OF assms(1) _ _ _ True, where f = ?h and i = i]) (simp_all add: silent_end_def)
    next
      case False
      have "silent_node cb h ?nd" using False by (intro silent_does [OF assms(1) True assms(2)]) simp
      then show ?thesis
        unfolding r using False True assms(2) silent_does(2) [of cb h ?nd i user] by simp
    qed
    moreover have "i < length (nd_conns (message_callback onMessage user i ?nd))"
      unfolding r using assms(2) by simp
    ultimately show ?thesis using True msg by (simp add: node_handler_def Let_def)
  next
    case False
    have "c_received (?h ?c) = c_received ?c" if "cb = NoCallback"
      using False ok [OF that] readFd_positive [of "inputBuffer ?c" rd]
      by (auto simp: handler_input read_data_def conn_ok_def)
    then have "silent_node cb h ?nd" using ok by (intro silent_does [OF assms(1) True assms(2)]) simp
    then show ?thesis using True False assms(2) by (auto simp: node_handler_def Let_def)
  qed
qed (use assms in \<open>simp add: node_handler_def\<close>)

lemma silent_op_input:
  "\<nexists>r rd wr. op = Report r rd wr \<Longrightarrow> c_received (conn_apply op c) = c_received c"
  using apply_input [of op c] by (cases op) (simp_all add: conn_retrieve_def split_beta Let_def)

lemma silent_apply:
  assumes "silent_node cb h nd" and "nd_fate nd = Running" and "cb \<noteq> OnMessage"
  shows "silent_node cb h (node_apply onMessage user setConnection op nd)"
proof (cases op)
  case (NewConn name a f p wc hw)
  have "\<not> isWriting (new_channel a f)" by (simp add: new_channel_def isWriting_def)
  then show ?thesis
    using NewConn assms new_conn_ok by (auto simp: silent_node_def silent_end_def new_conn_sel)
next
  case (OnConn i cop)
  show ?thesis
  proof (cases "i < length (nd_conns nd)")
    case i: True
    show ?thesis
    proof (cases "\<exists>r rd wr. cop = Report r rd wr")
      case True
      then obtain r rd wr where cop: "cop = Report r rd wr" by blast
      let ?P = "\<lambda>nd. silent_node cb h nd \<and> i < length (nd_conns nd)"
      have "?P (on_conn i (\<lambda>c. c\<lparr>c_channel := set_revents r (c_channel c)\<rparr>) nd)"
        using i same_streams_ok [OF same_streams_simps(6), of "conn_at nd i" r]
        by (intro conjI silent_does(2) [OF assms(1,2) i]) simp_all
      from node_report_props [where P = ?P, OF _ this]
      have "?P (node_report onMessage user setConnection r rd wr i nd)"
        using silent_handler [OF _ _ assms(3)] by blast
      then show ?thesis using OnConn cop i assms(1) by simp
    next
      case False
      then have "silent_node cb h (conn_does setConnection i (conn_apply cop) nd)"
        using conn_apply_props [of "conn_at nd i" cop] silent_op_input [of cop]
        by (intro silent_does(1) [OF assms(1,2) i]) simp
      then show ?thesis using OnConn i False by (cases cop) (simp_all del: conn_apply.simps)
    qed
  qed (use OnConn assms in simp)
qed


lemma silent_calls:
  assumes "silent_node cb h nd" and "runs calls = []" and "heap calls = h"
  shows "silent_node cb h (nd\<lparr>nd_owner := (nd_owner nd)\<lparr>rc_calls := calls\<rparr>\<rparr>)"
  using assms by (simp add: silent_node_def)

lemma silent_crash: "silent_node cb h nd \<Longrightarrow> silent_node cb h (nd\<lparr>nd_fate := Crashed\<rparr>)"
  by (auto simp: silent_node_def silent_end_def)

lemma silent_send:
  assumes "silent_node cb h nd" and "nd_fate nd = Running"
  shows "silent_node cb h (on_conn i (codec_send ser in_loop wr message request) nd)"
proof (cases "i < length (nd_conns nd)")
  case True
  have "conn_ok c \<Longrightarrow> conn_ok (codec_send ser in_loop wr message request c)" for c
    using conn_apply_props [of c "UserSend in_loop _ wr"] by (simp add: codec_send_def)
  moreover have "c_received (codec_send ser in_loop wr message request c) = c_received c" for c
    by (simp add: codec_send_def)
  ultimately show ?thesis using silent_does(2) [OF assms True] by simp
next
  case False
  then have "on_conn i (codec_send ser in_loop wr message request) nd = nd"
    by (simp add: on_conn_def list_update_beyond)
  then show ?thesis using assms(1) by simp
qed

lemma silent_channel:
  assumes "silent_node cb h nd" and "cb \<noteq> OnMessage"
  shows "silent_node cb h (channel_apply parse parse_msg ser user op nd)"
proof (cases op)
  case (CallRemote svc meth request response don in_loop wr)
  let ?calls = "CallMethod svc meth request response don (rc_calls (nd_owner nd))"
  let ?nd = "nd\<lparr>nd_owner := (nd_owner nd)\<lparr>rc_calls := ?calls\<rparr>\<rparr>"
  have "runs ?calls = []" "heap ?calls = h"
    using assms(1) by (simp_all add: silent_node_def CallMethod_def Let_def)
  then have "silent_node cb h ?nd" using silent_calls [OF assms(1)] by blast
  then show ?thesis
    using assms silent_crash [of cb h ?nd] silent_send [of cb h ?nd]
    by (simp add: CallRemote channel_call_def Let_def split: option.splits)
qed (use assms silent_apply [OF assms(1) _ assms(2)] in simp)

text \<open>C15. No answer is delivered. The constructor of a channel registers no message callback, and
  \<^verbatim>\<open>onMessage\<close> is private, so that a user of the \<^verbatim>\<open>TcpClient\<close> gave it none or one of its own (the
  hypothesis): whatever calls are made, connections come and go, and bytes arrive, no closure ever
  runs and no response object is written or deleted; and with no callback at all a process that still
  runs has received nothing on any connection: it is gone by the first byte.\<close>

theorem no_answer_is_delivered:
  assumes "cb \<noteq> OnMessage"
    and "nd = fold (channel_apply parse parse_msg ser user) ops (new_rpc_channel h cb)"
  shows "runs (rc_calls (nd_owner nd)) = [] \<and> heap (rc_calls (nd_owner nd)) = h \<and> nd_fate nd \<noteq> Hung
    \<and> (cb = NoCallback \<and> nd_fate nd = Running \<longrightarrow> (\<forall>e \<in> set (nd_conns nd). c_received (ec_conn e) = []))"
proof -
  have "silent_node cb h (fold (channel_apply parse parse_msg ser user) ops nd0)" if "silent_node cb h nd0" for nd0
    using that by (induction ops arbitrary: nd0) (simp_all add: silent_channel [OF _ assms(1)])
  moreover have "silent_node cb h (new_rpc_channel h cb)"
    by (simp add: silent_node_def new_rpc_channel_def new_rpc_client_def)
  ultimately have "silent_node cb h nd" unfolding assms(2) by blast
  then show ?thesis by (auto simp: silent_node_def silent_end_def)
qed

lemma no_answer_is_delivered_witness:
  "let nd = fold (channel_apply (\<lambda>_ _ h. h) (\<lambda>b _. b) (\<lambda>_. []) (\<lambda>c. c))
      [CallRemote ''Echo'' ''Say'' [1] (Some 3) (Some 4) True (Wrote 0)] (new_rpc_channel [3 \<mapsto> []] NoCallback)
   in nd_fate nd = Crashed \<and> runs (rc_calls (nd_owner nd)) = [] \<and> heap (rc_calls (nd_owner nd)) 3 = Some []"
  using no_answer_is_delivered [of NoCallback _ "\<lambda>_ _ h. h" "\<lambda>b _. b" "\<lambda>_. []" "\<lambda>c. c"
      "[CallRemote ''Echo'' ''Say'' [1] (Some 3) (Some 4) True (Wrote 0)]" "[3 \<mapsto> []]", OF _ refl]
  by (simp add: Let_def channel_call_def new_rpc_channel_def)

text \<open>The connection callback does not look whether it is told of UP or DOWN, so when an old connection
  goes down after a new one is up, the channel is left with the old one, and its calls are recorded
  as outstanding but leave every connection as it was.\<close>

lemma late_down_takes_the_channel:
  assumes "nd_fate nd = Running" and "i < length (nd_conns nd)"
    and "c_state (conn_at nd i) = KConnected \<or> c_state (conn_at nd i) = KDisconnecting"
    and "nd' = channel_apply parse parse_msg ser user
           (ChannelNode (OnConn i (RunQueued wr))) nd" and "c_queue (conn_at nd i) = FDestroyed # fs"
  shows "rc_conn (nd_owner nd') = Some i \<and> c_state (conn_at nd' i) = KDisconnected
    \<and> nd_conns (channel_apply parse parse_msg ser user
         (CallRemote svc meth request response don in_loop wr') nd') = nd_conns nd'"
proof -
  let ?c = "(conn_at nd i)\<lparr>c_queue := fs\<rparr>"
  have "connection_told (conn_at nd i) (connectDestroyed ?c)" "c_state (connectDestroyed ?c) = KDisconnected"
    using assms(3) by (auto simp: connectDestroyed_def connectionCallback_def connection_told_def Let_def)
  then have nd': "nd' = setConnection i (on_conn i (conn_apply (RunQueued wr)) nd)"
    "c_state (conn_at nd' i) = KDisconnected"
    using assms by (simp_all add: conn_does_def Let_def run_functor_def setConnection_def)
  have "nd_fate nd' = Running" "rc_conn (nd_owner nd') = Some i"
    using assms(1) nd'(1) by (simp_all add: setConnection_def)
  then show ?thesis
    using nd'(2) by (simp add: channel_call_def Let_def on_conn_def codec_send_def conn_send_def)
qed

end
