(* ===== verification/Timestamp.thy ===== *)
theory Timestamp
  imports Prelude
begin

text \<open>
  \<^verbatim>\<open>Timestamp\<close> (\<^verbatim>\<open>gdrpc/util/timestamp.hpp\<close>, \<^verbatim>\<open>timestamp.cpp\<close>): a point of the system clock, in
  nanoseconds since 1970, from then on. \<^verbatim>\<open>gmtime_r\<close> splits the seconds into the fields of the
  Gregorian calendar; \<^verbatim>\<open>strftime\<close> and \<^verbatim>\<open>put_time\<close> print them.
\<close>

type_synonym timestamp = nat

definition get_ms :: "timestamp \<Rightarrow> nat" where
  "get_ms ts = ts div 10 ^ 6"

definition get_time_t :: "timestamp \<Rightarrow> nat" where
  "get_time_t ts = ts div 10 ^ 9"

section \<open>The calendar\<close>

record tm =
  tm_year :: nat
  tm_mon :: nat
  tm_mday :: nat
  tm_hour :: nat
  tm_min :: nat
  tm_sec :: nat

definition leap :: "nat \<Rightarrow> bool" where
  "leap y \<longleftrightarrow> y mod 4 = 0 \<and> y mod 100 \<noteq> 0 \<or> y mod 400 = 0"

definition year_days :: "nat \<Rightarrow> nat" where
  "year_days y = (if leap y then 366 else 365)"

definition month_days :: "nat \<Rightarrow> nat list" where
  "month_days y = [31, if leap y then 29 else 28, 31, 30, 31, 30, 31, 31, 30, 31, 30, 31]"

function split_year :: "nat \<Rightarrow> nat \<Rightarrow> nat \<times> nat" where
  "split_year d y = (if d < year_days y then (y, d) else split_year (d - year_days y) (Suc y))"
  by pat_completeness auto
termination by (relation "measure fst") (auto simp: year_days_def split: if_splits)

declare split_year.simps [simp del]

fun split_month :: "nat \<Rightarrow> nat list \<Rightarrow> nat \<Rightarrow> nat \<times> nat" where
  "split_month d [] m = (m, d)"
| "split_month d (l # ls) m = (if d < l then (m, d) else split_month (d - l) ls (Suc m))"

definition gmtime :: "nat \<Rightarrow> tm" where
  "gmtime t =
     (let s = t mod 86400;
          (y, yday) = split_year (t div 86400) 1970;
          (m, mday) = split_month yday (month_days y) 1
      in \<lparr>tm_year = y, tm_mon = m, tm_mday = Suc mday, tm_hour = s div 3600,
          tm_min = s mod 3600 div 60, tm_sec = s mod 60\<rparr>)"

definition pad2 :: "nat \<Rightarrow> string" where
  "pad2 n = [digit (n div 10), digit (n mod 10)]"

text \<open>\<^verbatim>\<open>.%Y%m%d-%H%M%S.\<close>\<close>

definition get_time :: "timestamp \<Rightarrow> string" where
  "get_time ts =
     (let tm = gmtime (get_time_t ts) in
      ''.'' @ show_nat (tm_year tm) @ pad2 (tm_mon tm) @ pad2 (tm_mday tm) @ ''-'' @ pad2 (tm_hour tm)
       @ pad2 (tm_min tm) @ pad2 (tm_sec tm) @ ''.'')"

text \<open>\<^verbatim>\<open>setw(6)\<close> with fill 0: numbers below 10 ^ 6 get exactly six digits.\<close>

definition pad6 :: "nat \<Rightarrow> string" where
  "pad6 n = pad2 (n div 10000) @ pad2 (n div 100 mod 100) @ pad2 (n mod 100)"

definition get_time_format_8601 :: "timestamp \<Rightarrow> string" where
  "get_time_format_8601 ts =
     (let tm = gmtime (get_time_t ts) in
      show_nat (tm_year tm) @ pad2 (tm_mon tm) @ pad2 (tm_mday tm) @ '' '' @ pad2 (tm_hour tm) @ '':''
       @ pad2 (tm_min tm) @ '':'' @ pad2 (tm_sec tm) @ ''.'' @ pad6 (ts div 1000 mod 1000000) @ ''Z'')"

section \<open>Lemmas\<close>

text \<open>The number of days before a year, and before a month.\<close>

definition days_before :: "nat \<Rightarrow> nat \<Rightarrow> nat" where
  "days_before y0 y = (\<Sum>k \<in> {y0..<y}. year_days k)"

lemma split_year_correct:
  "split_year d y = (y', r) \<Longrightarrow> y \<le> y' \<and> r < year_days y' \<and> d = days_before y y' + r"
proof (induction d y rule: split_year.induct)
  case (1 d y)
  show ?case
  proof (cases "d < year_days y")
    case True
    then show ?thesis using 1(2) by (simp add: split_year.simps days_before_def)
  next
    case False
    then have "split_year (d - year_days y) (Suc y) = (y', r)" using 1(2) by (simp add: split_year.simps)
    then have ih: "Suc y \<le> y'" "r < year_days y'" "d - year_days y = days_before (Suc y) y' + r"
      using 1(1) False by blast+
    moreover have "days_before y y' = year_days y + days_before (Suc y) y'"
      using ih(1) by (simp add: days_before_def sum.atLeast_Suc_lessThan)
    ultimately show ?thesis using False by simp
  qed
qed

lemma split_month_correct:
  "split_month d ls m = (m', r) \<Longrightarrow> m \<le> m' \<and> m' \<le> m + length ls \<and> d = sum_list (take (m' - m) ls) + r
     \<and> (d < sum_list ls \<longrightarrow> m' < m + length ls \<and> r < ls ! (m' - m))"
proof (induction d ls m rule: split_month.induct)
  case (2 d l ls m)
  show ?case
  proof (cases "d < l")
    case False
    then have ih: "Suc m \<le> m'" "m' \<le> Suc m + length ls" "d - l = sum_list (take (m' - Suc m) ls) + r"
      "d - l < sum_list ls \<longrightarrow> m' < Suc m + length ls \<and> r < ls ! (m' - Suc m)"
      using 2 by simp_all
    moreover from ih(1) have "m' - m = Suc (m' - Suc m)" by simp
    ultimately show ?thesis using False by auto
  qed (use 2 in simp)
qed simp

lemma month_days_sum: "sum_list (month_days y) = year_days y" "length (month_days y) = 12"
  by (simp_all add: month_days_def year_days_def)

lemma month_days_bound: "m < 12 \<Longrightarrow> month_days y ! m \<le> 31"
  by (simp add: month_days_def less_Suc_eq numeral_eq_Suc) (elim disjE; simp)

text \<open>The seconds a broken-down time stands for.\<close>

definition timegm :: "tm \<Rightarrow> nat" where
  "timegm tm =
     (days_before 1970 (tm_year tm) + sum_list (take (tm_mon tm - 1) (month_days (tm_year tm))) + (tm_mday tm - 1)) * 86400
      + tm_hour tm * 3600 + tm_min tm * 60 + tm_sec tm"

lemma gmtime_fields:
  "1970 \<le> tm_year (gmtime t) \<and> tm_mon (gmtime t) \<in> {1..12} \<and> tm_mday (gmtime t) \<in> {1..31}
    \<and> tm_hour (gmtime t) < 24 \<and> tm_min (gmtime t) < 60 \<and> tm_sec (gmtime t) < 60"
  and gmtime_day: "tm_mday (gmtime t) \<le> month_days (tm_year (gmtime t)) ! (tm_mon (gmtime t) - 1)"
  and timegm_gmtime: "timegm (gmtime t) = t"
proof -
  obtain y yday where y: "split_year (t div 86400) 1970 = (y, yday)" by force
  obtain m mday where m: "split_month yday (month_days y) 1 = (m, mday)" by force
  have y': "1970 \<le> y" "yday < year_days y" "t div 86400 = days_before 1970 y + yday"
    using split_year_correct [OF y] by auto
  have m': "1 \<le> m" "m < 13" "yday = sum_list (take (m - 1) (month_days y)) + mday" "mday < month_days y ! (m - 1)"
    using split_month_correct [OF m] y'(2) by (auto simp: month_days_sum)
  have g: "gmtime t = \<lparr>tm_year = y, tm_mon = m, tm_mday = Suc mday, tm_hour = t mod 86400 div 3600,
      tm_min = t mod 86400 mod 3600 div 60, tm_sec = t mod 86400 mod 60\<rparr>"
    by (simp add: gmtime_def y m [simplified] Let_def)
  have "month_days y ! (m - 1) \<le> 31" using m'(1,2) by (intro month_days_bound) simp
  then show "1970 \<le> tm_year (gmtime t) \<and> tm_mon (gmtime t) \<in> {1..12} \<and> tm_mday (gmtime t) \<in> {1..31}
    \<and> tm_hour (gmtime t) < 24 \<and> tm_min (gmtime t) < 60 \<and> tm_sec (gmtime t) < 60"
    using y' m' unfolding g by (auto simp: less_mult_imp_div_less)
  show "tm_mday (gmtime t) \<le> month_days (tm_year (gmtime t)) ! (tm_mon (gmtime t) - 1)"
    using m'(4) unfolding g by simp
  have "s div 3600 * 3600 + s mod 3600 div 60 * 60 + s mod 60 = s" for s :: nat
  proof -
    have "s mod 3600 mod 60 = s mod 60" by (simp add: mod_mod_cancel)
    then show ?thesis using div_mult_mod_eq [of s 3600] div_mult_mod_eq [of "s mod 3600" 60] by linarith
  qed
  from this [of "t mod 86400"]
  have "t mod 86400 div 3600 * 3600 + t mod 86400 mod 3600 div 60 * 60 + t mod 86400 mod 60 = t mod 86400" .
  then show "timegm (gmtime t) = t"
    using y'(3) m'(3) div_mult_mod_eq [of t 86400] unfolding g by (simp add: timegm_def)
qed

text \<open>Printing in fixed width loses nothing.\<close>

lemma digit_inj: "m < 10 \<Longrightarrow> n < 10 \<Longrightarrow> digit m = digit n \<longleftrightarrow> m = n"
  by (metis digit_val_digit)

lemma pad2_inj: "m < 100 \<Longrightarrow> n < 100 \<Longrightarrow> pad2 m = pad2 n \<longleftrightarrow> m = n"
  by (simp add: pad2_def digit_inj less_mult_imp_div_less) (metis div_mult_mod_eq)

lemma length_pad2 [simp]: "length (pad2 n) = 2"
  by (simp add: pad2_def)

definition tm_text :: "tm \<Rightarrow> string" where
  "tm_text tm = pad2 (tm_mon tm) @ pad2 (tm_mday tm) @ ''-'' @ pad2 (tm_hour tm) @ pad2 (tm_min tm)
     @ pad2 (tm_sec tm) @ ''.''"

lemma get_time_text: "get_time ts = ''.'' @ show_nat (tm_year (gmtime (get_time_t ts))) @ tm_text (gmtime (get_time_t ts))"
  by (simp add: get_time_def Let_def tm_text_def)

lemma get_time_determines:
  assumes "get_time ts @ rest = get_time ts' @ rest"
  shows "get_time_t ts = get_time_t ts'"
proof -
  let ?a = "gmtime (get_time_t ts)" and ?b = "gmtime (get_time_t ts')"
  have "show_nat (tm_year ?a) @ tm_text ?a = show_nat (tm_year ?b) @ tm_text ?b"
    using assms by (simp add: get_time_text)
  moreover have "length (tm_text ?a) = length (tm_text ?b)" by (simp add: tm_text_def)
  ultimately have "tm_year ?a = tm_year ?b" "tm_text ?a = tm_text ?b"
    by (simp_all add: append_eq_append_conv show_nat_inj)
  moreover from this(2) have "tm_mon ?a = tm_mon ?b" "tm_mday ?a = tm_mday ?b" "tm_hour ?a = tm_hour ?b"
    "tm_min ?a = tm_min ?b" "tm_sec ?a = tm_sec ?b"
    using gmtime_fields [of "get_time_t ts"] gmtime_fields [of "get_time_t ts'"]
    by (auto simp: tm_text_def pad2_inj)
  ultimately have "?a = ?b" by (intro tm.equality) simp_all
  then show ?thesis using timegm_gmtime by metis
qed

section \<open>Properties of timestamps\<close>

text \<open>C37. Broken-down time is a calendar date: every field is in its range, the day exists in its
  month of that year, and the fields stand for exactly the second they were computed from, so
  that two timestamps print the same only within the same second.\<close>

theorem calendar_time_is_valid:
  "tm_mon (gmtime t) \<in> {1..12} \<and> tm_mday (gmtime t) \<in> {1..31} \<and> tm_hour (gmtime t) < 24
    \<and> tm_min (gmtime t) < 60 \<and> tm_sec (gmtime t) < 60
    \<and> tm_mday (gmtime t) \<le> month_days (tm_year (gmtime t)) ! (tm_mon (gmtime t) - 1)
    \<and> timegm (gmtime t) = t
    \<and> (get_time ts = get_time ts' \<longleftrightarrow> get_time_t ts = get_time_t ts')"
proof -
  have "get_time ts = get_time ts' \<longleftrightarrow> get_time_t ts = get_time_t ts'"
    using get_time_determines [of ts "[]" ts'] by (auto simp: get_time_def)
  then show ?thesis using gmtime_fields [of t] gmtime_day [of t] timegm_gmtime [of t] by simp
qed

end
