(* ===== verification/LogFile.thy ===== *)
theory LogFile
  imports Timestamp
begin

text \<open>
  \<^verbatim>\<open>AsyncLogging::LogFile\<close> (\<^verbatim>\<open>gdrpc/util/async_log.hpp\<close>, \<^verbatim>\<open>async_log.cpp\<close>): the file the log is
  written to and its rolling.

  \<open>lf_fs\<close> is the file system as the stream sees it: opening a file for output empties it. Which
  names can be opened is up to the environment (\<open>le_opens\<close>): after an \<^verbatim>\<open>open\<close> that failed the
  stream is not good and takes nothing until an \<^verbatim>\<open>open\<close> succeeds. A write to a good stream
  succeeds; the stream's own buffering is not visible. \<open>lf_opened\<close> lists the points of time whose
  files have been opened, the current one last; it is not read by the operations. The reading of
  the clock is an argument, and the host name and process number are a \<open>log_env\<close>.

  \<^verbatim>\<open>cur_len_\<close> is an \<^verbatim>\<open>int\<close>, the roll size an \<^verbatim>\<open>off_t\<close>. The sum is written with the wrap-around of
  the machine; the language leaves the overflow undefined, and \<open>rolling_keeps_every_line\<close> asks for
  a roll size and lines with which it never happens.
\<close>

section \<open>State and operations\<close>

record log_env =
  le_host :: "string option"
  le_pid :: nat
  le_opens :: "string \<Rightarrow> bool"

record log_file =
  lf_basename :: string
  rollSize :: int
  lf_flushInterval :: nat
  checkEveryN :: nat
  lf_count :: nat
  lastRoll :: nat
  lastFlush :: nat
  cur_len :: int
  lf_name :: string
  lf_good :: bool
  lf_fs :: "string \<rightharpoonup> string"
  lf_opened :: "timestamp list"

definition getLogFileName :: "log_env \<Rightarrow> string \<Rightarrow> timestamp \<Rightarrow> string" where
  "getLogFileName env basename ts =
     basename @ get_time ts @ (case le_host env of Some h \<Rightarrow> h | None \<Rightarrow> ''unknownhost'')
       @ ''.'' @ show_nat (le_pid env) @ ''.log''"

definition open_file :: "log_env \<Rightarrow> string \<Rightarrow> timestamp \<Rightarrow> log_file \<Rightarrow> log_file" where
  "open_file env name ts f =
     (if le_opens env name
      then f\<lparr>lf_name := name, lf_good := True, lf_fs := (lf_fs f)(name \<mapsto> ''''), lf_opened := lf_opened f @ [ts]\<rparr>
      else f\<lparr>lf_good := False\<rparr>)"

text \<open>The constructor asserts that the base name has no slash: otherwise \<open>None\<close>.\<close>

definition new_log_file :: "log_env \<Rightarrow> string \<Rightarrow> int \<Rightarrow> nat \<Rightarrow> nat \<Rightarrow> (string \<rightharpoonup> string) \<Rightarrow> timestamp \<Rightarrow> log_file option" where
  "new_log_file env basename roll_size flush_interval check_every fs ts =
     (if CHR ''/'' \<in> set basename then None
      else Some (open_file env (getLogFileName env basename ts) ts
        \<lparr>lf_basename = basename, rollSize = roll_size, lf_flushInterval = flush_interval,
         checkEveryN = check_every, lf_count = 0, lastRoll = get_time_t ts, lastFlush = get_time_t ts,
         cur_len = 0, lf_name = '''', lf_good = False, lf_fs = fs, lf_opened = []\<rparr>))"

definition rollFile :: "log_env \<Rightarrow> timestamp \<Rightarrow> log_file \<Rightarrow> bool \<times> log_file" where
  "rollFile env ts f =
     (let now = get_time_t ts in
      if lastRoll f < now
      then (True, open_file env (getLogFileName env (lf_basename f) ts) ts (f\<lparr>lastRoll := now, lastFlush := now\<rparr>))
      else (False, f))"

definition write_file :: "string \<Rightarrow> log_file \<Rightarrow> log_file" where
  "write_file line f =
     (if lf_good f
      then f\<lparr>lf_fs := (lf_fs f)(lf_name f \<mapsto> (case lf_fs f (lf_name f) of None \<Rightarrow> '''' | Some c \<Rightarrow> c) @ line)\<rparr>
      else f)"

text \<open>Addition on \<^verbatim>\<open>int\<close>.\<close>

definition plus_int :: "int \<Rightarrow> int \<Rightarrow> int" where
  "plus_int a b = signed_take_bit 31 (a + b)"

definition lf_append :: "log_env \<Rightarrow> timestamp \<Rightarrow> string \<Rightarrow> log_file \<Rightarrow> log_file" where
  "lf_append env ts line f =
     (let f1 = (write_file line f)\<lparr>cur_len := plus_int (cur_len f) (int (length line))\<rparr> in
      if rollSize f1 < cur_len f1 then (snd (rollFile env ts f1))\<lparr>cur_len := 0\<rparr>
      else let f2 = f1\<lparr>lf_count := Suc (lf_count f1)\<rparr> in
           if checkEveryN f2 \<le> lf_count f2
           then let f3 = f2\<lparr>lf_count := 0\<rparr> in
                if lastFlush f3 + lf_flushInterval f3 < get_time_t ts then f3\<lparr>lastFlush := get_time_t ts\<rparr> else f3
           else f2)"

fun lf_run :: "log_env \<Rightarrow> (timestamp \<times> string) list \<Rightarrow> log_file \<Rightarrow> log_file" where
  "lf_run env [] f = f"
| "lf_run env ((ts, line) # ls) f = lf_run env ls (lf_append env ts line f)"

section \<open>What the files hold\<close>

definition file_names :: "log_env \<Rightarrow> log_file \<Rightarrow> string list" where
  "file_names env f = map (getLogFileName env (lf_basename f)) (lf_opened f)"

definition lf_content :: "log_env \<Rightarrow> log_file \<Rightarrow> string" where
  "lf_content env f = concat (map (the \<circ> lf_fs f) (file_names env f))"

definition opens_succeed :: "log_env \<Rightarrow> bool" where
  "opens_succeed env \<longleftrightarrow> (\<forall>name. le_opens env name)"

definition lf_ok :: "log_env \<Rightarrow> log_file \<Rightarrow> bool" where
  "lf_ok env f \<longleftrightarrow> distinct (file_names env f) \<and> set (file_names env f) \<subseteq> dom (lf_fs f)
     \<and> (\<forall>ts \<in> set (lf_opened f). get_time_t ts \<le> lastRoll f)
     \<and> (lf_good f \<longrightarrow> lf_opened f \<noteq> [] \<and> lf_name f = last (file_names env f))
     \<and> (opens_succeed env \<longrightarrow> lf_good f)"

lemma names_differ:
  "getLogFileName env b ts = getLogFileName env b ts' \<Longrightarrow> get_time_t ts = get_time_t ts'"
  unfolding getLogFileName_def by (rule get_time_determines) (simp add: append_assoc)

lemma content_write:
  assumes "lf_ok env f"
  shows "lf_content env (write_file line f) = lf_content env f @ (if lf_good f then line else '''')"
proof (cases "lf_good f")
  case True
  then obtain ns n where ns: "file_names env f = ns @ [n]"
    using assms by (metis append_butlast_last_id file_names_def lf_ok_def list.map_disc_iff)
  then have n: "lf_name f = n" "n \<notin> set ns" "lf_fs f n \<noteq> None"
    using assms True by (auto simp: lf_ok_def)
  have "file_names env (write_file line f) = ns @ [n]" using ns by (simp add: file_names_def write_file_def)
  moreover have "map (the \<circ> lf_fs (write_file line f)) ns = map (the \<circ> lf_fs f) ns"
    using n(1,2) by (intro map_cong) (auto simp: write_file_def)
  moreover have "the (lf_fs (write_file line f) n) = the (lf_fs f n) @ line"
    using n(1,3) True by (auto simp: write_file_def)
  ultimately show ?thesis unfolding lf_content_def ns by (simp add: True del: map_eq_conv)
qed (simp add: write_file_def)

lemma ok_write: "lf_ok env f \<Longrightarrow> lf_ok env (write_file line f)"
  by (auto simp: lf_ok_def write_file_def file_names_def)

lemma ok_counters:
  "lf_ok env (f\<lparr>lf_count := a\<rparr>) = lf_ok env f" "lf_ok env (f\<lparr>lastFlush := b\<rparr>) = lf_ok env f"
  "lf_ok env (f\<lparr>cur_len := n\<rparr>) = lf_ok env f"
  "lf_content env (f\<lparr>lf_count := a\<rparr>) = lf_content env f" "lf_content env (f\<lparr>lastFlush := b\<rparr>) = lf_content env f"
  "lf_content env (f\<lparr>cur_len := n\<rparr>) = lf_content env f"
  by (simp_all add: lf_ok_def lf_content_def file_names_def)

lemma open_props:
  assumes "lf_ok env f" and now: "lastRoll f < get_time_t ts"
  defines "f' \<equiv> open_file env (getLogFileName env (lf_basename f) ts) ts (f\<lparr>lastRoll := get_time_t ts, lastFlush := get_time_t ts\<rparr>)"
  shows "lf_ok env f' \<and> lf_content env f' = lf_content env f"
proof (cases "le_opens env (getLogFileName env (lf_basename f) ts)")
  case True
  let ?n = "getLogFileName env (lf_basename f) ts"
  have new: "?n \<notin> set (file_names env f)"
  proof
    assume "?n \<in> set (file_names env f)"
    then obtain ts' where ts': "ts' \<in> set (lf_opened f)" "?n = getLogFileName env (lf_basename f) ts'"
      unfolding file_names_def set_map by blast
    have "get_time_t ts' \<le> lastRoll f" using assms ts'(1) unfolding lf_ok_def by blast
    then show False using now names_differ [OF ts'(2)] by linarith
  qed
  have names: "file_names env f' = file_names env f @ [?n]" using True by (simp add: file_names_def open_file_def f'_def)
  have fs: "lf_fs f' = (lf_fs f)(?n \<mapsto> '''')" using True by (simp add: open_file_def f'_def)
  have "map (the \<circ> lf_fs f') (file_names env f) = map (the \<circ> lf_fs f) (file_names env f)"
    unfolding fs using new by (intro map_cong) auto
  then have "lf_content env f' = lf_content env f" unfolding lf_content_def names by (simp add: fs del: map_eq_conv)
  moreover have "lf_ok env f'"
    unfolding lf_ok_def names fs using assms(1) new now True
    by (auto simp: lf_ok_def open_file_def f'_def)
  ultimately show ?thesis by simp
next
  case False
  then have "\<not> opens_succeed env" by (auto simp: opens_succeed_def)
  moreover have "get_time_t ts' \<le> get_time_t ts" if "ts' \<in> set (lf_opened f)" for ts'
    using assms(1) now that unfolding lf_ok_def by (meson less_imp_le_nat le_trans)
  ultimately show ?thesis using assms(1) False
    by (auto simp: f'_def open_file_def lf_ok_def lf_content_def file_names_def)
qed

lemma roll_props:
  assumes "lf_ok env f"
  shows "lf_ok env (snd (rollFile env ts f)) \<and> lf_content env (snd (rollFile env ts f)) = lf_content env f"
  using assms open_props [OF assms, of ts] by (simp add: rollFile_def Let_def)

lemma lf_append_ok:
  assumes "lf_ok env f"
  shows "lf_ok env (lf_append env ts line f)
    \<and> lf_content env (lf_append env ts line f) = lf_content env f @ (if lf_good f then line else '''')"
proof -
  let ?w = "write_file line f"
  let ?f1 = "?w\<lparr>cur_len := plus_int (cur_len f) (int (length line))\<rparr>"
  have w: "lf_ok env ?f1" "lf_content env ?f1 = lf_content env f @ (if lf_good f then line else '''')"
    using ok_write [OF assms] content_write [OF assms] by (simp_all add: ok_counters)
  then show ?thesis
    using roll_props [OF w(1), of ts] by (simp add: lf_append_def Let_def ok_counters)
qed

lemma lf_append_props:
  assumes "lf_ok env f"
  shows "lf_ok env (lf_append env ts line f)"
    and "opens_succeed env \<Longrightarrow> lf_content env (lf_append env ts line f) = lf_content env f @ line"
  using lf_append_ok [OF assms, of ts line] assms by (simp_all add: lf_ok_def)

lemma new_log_file_fields:
  assumes "new_log_file env b rs fi ce fs ts = Some f"
  shows "lf_ok env f \<and> lf_content env f = ''''" and "rollSize f = rs" and "cur_len f = 0"
  using assms
  by (auto simp: new_log_file_def lf_ok_def lf_content_def file_names_def open_file_def opens_succeed_def split: if_splits)

lemmas new_log_file_props = new_log_file_fields(1)

text \<open>The lines appended while the stream was good.\<close>

fun taken_lines :: "log_env \<Rightarrow> (timestamp \<times> string) list \<Rightarrow> log_file \<Rightarrow> string list" where
  "taken_lines env [] f = []"
| "taken_lines env ((ts, line) # ls) f =
     (if lf_good f then [line] else []) @ taken_lines env ls (lf_append env ts line f)"

lemma lf_run_props:
  "lf_ok env f \<Longrightarrow> lf_ok env (lf_run env ls f)
    \<and> lf_content env (lf_run env ls f) = lf_content env f @ concat (taken_lines env ls f)
    \<and> (opens_succeed env \<longrightarrow> taken_lines env ls f = map snd ls)"
proof (induction ls arbitrary: f)
  case (Cons l ls)
  obtain ts line where l: "l = (ts, line)" by fastforce
  have "opens_succeed env \<longrightarrow> lf_good f" using Cons.prems by (simp add: lf_ok_def)
  then show ?case
    using Cons.IH [OF lf_append_props(1) [OF Cons.prems], of ts line] lf_append_ok [OF Cons.prems, of ts line]
    by (auto simp: l)
qed simp

lemma lf_append_counters:
  "lf_opened (lf_append env ts line f)
     = (if rollSize f < plus_int (cur_len f) (int (length line)) \<and> lastRoll f < get_time_t ts
          \<and> le_opens env (getLogFileName env (lf_basename f) ts) then lf_opened f @ [ts] else lf_opened f)"
  "cur_len (lf_append env ts line f)
     = (if rollSize f < plus_int (cur_len f) (int (length line)) then 0 else plus_int (cur_len f) (int (length line)))"
  "lastRoll (lf_append env ts line f)
     = (if rollSize f < plus_int (cur_len f) (int (length line)) \<and> lastRoll f < get_time_t ts then get_time_t ts else lastRoll f)"
  "rollSize (lf_append env ts line f) = rollSize f"
  by (simp_all add: lf_append_def Let_def write_file_def rollFile_def open_file_def)

lemma plus_int_small: "- (2 ^ 31) \<le> a + b \<Longrightarrow> a + b < 2 ^ 31 \<Longrightarrow> plus_int a b = a + b"
  by (simp add: plus_int_def signed_take_bit_int_eq_self)

lemma counter_in_bounds:
  assumes "\<forall>(ts, line) \<in> set ls. rollSize f + int (length line) < 2 ^ 31"
    and "0 \<le> cur_len f" and "cur_len f \<le> rollSize f"
  shows "0 \<le> cur_len (lf_run env ls f) \<and> cur_len (lf_run env ls f) \<le> rollSize f"
  using assms
proof (induction ls arbitrary: f)
  case (Cons l ls)
  obtain ts line where l: "l = (ts, line)" by fastforce
  have "plus_int (cur_len f) (int (length line)) = cur_len f + int (length line)"
    using Cons.prems by (intro plus_int_small) (auto simp: l)
  then show ?case
    using Cons.IH [of "lf_append env ts line f"] Cons.prems by (auto simp: l lf_append_counters)
qed simp

section \<open>Properties of the log file\<close>

text \<open>C26. Rolling loses nothing. Let the roll size and the lines be such that the \<^verbatim>\<open>int\<close> counter cannot
  overflow. Whatever is appended and whatever the clock shows, even when it runs backwards, and
  whichever files cannot be opened: the files opened have pairwise different names, so that none is
  emptied by opening a later one; their contents one after the other are exactly the lines appended
  while the stream was good, which are all of them when every \<^verbatim>\<open>open\<close> succeeds; and the length
  counted for the current file stays between 0 and the roll size.\<close>

theorem rolling_keeps_every_line:
  assumes "new_log_file env basename roll_size flush_interval check_every fs ts = Some f0"
    and "0 \<le> roll_size" and "\<forall>(now, line) \<in> set ls. roll_size + int (length line) < 2 ^ 31"
    and "f = lf_run env ls f0"
  shows "distinct (file_names env f) \<and> set (file_names env f) \<subseteq> dom (lf_fs f)
    \<and> concat (map (the \<circ> lf_fs f) (file_names env f)) = concat (taken_lines env ls f0)
    \<and> ((\<forall>name. le_opens env name) \<longrightarrow> taken_lines env ls f0 = map snd ls)
    \<and> 0 \<le> cur_len f \<and> cur_len f \<le> roll_size"
  using lf_run_props [of env f0 ls] new_log_file_fields [OF assms(1)] assms(2-4) counter_in_bounds [of ls f0 env]
  by (simp add: lf_ok_def lf_content_def opens_succeed_def)

definition test_env :: log_env where
  "test_env = \<lparr>le_host = Some ''h'', le_pid = 7, le_opens = \<lambda>_. True\<rparr>"

lemma test_env_opens: "opens_succeed test_env"
  by (simp add: opens_succeed_def test_env_def)

lemma rolling_keeps_every_line_witness:
  "\<exists>f0. new_log_file test_env ''app'' 3 3 1024 Map.empty 0 = Some f0
    \<and> (let f = lf_run test_env [(0, ''ab''), (10 ^ 9, ''cde''), (2 * 10 ^ 9, ''f'')] f0
       in length (lf_opened f) = 2 \<and> distinct (file_names test_env f)
          \<and> concat (map (the \<circ> lf_fs f) (file_names test_env f)) = ''abcdef'')"
proof -
  let ?ls = "[(0, ''ab''), (10 ^ 9, ''cde''), (2 * 10 ^ 9, ''f'')]"
  obtain f0 where f0: "new_log_file test_env ''app'' 3 3 1024 Map.empty 0 = Some f0"
    by (simp add: new_log_file_def)
  then have "lf_opened f0 = [0]" "cur_len f0 = 0" "lastRoll f0 = 0" "rollSize f0 = 3"
    by (auto simp: new_log_file_def open_file_def get_time_t_def test_env_def)
  then have "length (lf_opened (lf_run test_env ?ls f0)) = 2"
    by (simp add: lf_append_counters get_time_t_def plus_int_small test_env_def)
  moreover have "\<forall>(now, line) \<in> set ?ls. 3 + int (length line) < 2 ^ 31" "\<forall>name. le_opens test_env name"
    by (simp_all add: test_env_def)
  ultimately show ?thesis
    using f0 rolling_keeps_every_line [OF f0 _ _ refl, of ?ls]
    by (auto simp: Let_def simp del: taken_lines.simps lf_run.simps)
qed

text \<open>Within one second the file is not rolled, but its length counter is reset all the same: a
  file can grow beyond the roll size without bound.\<close>

theorem counter_reset_without_rolling:
  assumes "get_time_t ts \<le> lastRoll f" and "lf_good f"
    and "rollSize f < cur_len f + int (length line)" and "0 \<le> cur_len f" and "cur_len f + int (length line) < 2 ^ 31"
  shows "lf_name (lf_append env ts line f) = lf_name f \<and> cur_len (lf_append env ts line f) = 0
    \<and> lf_fs (lf_append env ts line f) (lf_name f)
        = Some ((case lf_fs f (lf_name f) of None \<Rightarrow> '''' | Some c \<Rightarrow> c) @ line)"
proof -
  have "plus_int (cur_len f) (int (length line)) = cur_len f + int (length line)"
    using assms by (intro plus_int_small) auto
  then show ?thesis using assms by (simp add: lf_append_def rollFile_def write_file_def Let_def)
qed

lemma counter_reset_without_rolling_witness:
  "\<exists>f0. new_log_file test_env ''app'' 3 3 1024 Map.empty 0 = Some f0
    \<and> cur_len (lf_append test_env 5 ''abcd'' f0) = 0"
proof -
  obtain f0 where f0: "new_log_file test_env ''app'' 3 3 1024 Map.empty 0 = Some f0"
    by (simp add: new_log_file_def)
  then have "get_time_t 5 \<le> lastRoll f0" "rollSize f0 < cur_len f0 + int (length ''abcd'')" "lf_good f0" "cur_len f0 = 0"
    by (auto simp: new_log_file_def open_file_def get_time_t_def test_env_def)
  then show ?thesis using f0 counter_reset_without_rolling [of 5 f0 "''abcd''" test_env] by auto
qed

end
