(* ===== verification/AsyncLog.thy ===== *)
theory AsyncLog
  imports LogFile
begin

text \<open>
  \<^verbatim>\<open>AsyncLogging\<close> (\<^verbatim>\<open>gdrpc/util/async_log.hpp\<close>, \<^verbatim>\<open>async_log.cpp\<close>): threads append lines to
  buffers under a mutex, one background thread writes full buffers to the log file.

  A run is a list of atomic operations in the order they happen: an append, a call of \<^verbatim>\<open>stop\<close>,
  or the background thread's way from one program point to the next with what the clock shows
  then. The critical sections are the operations; waiting on the condition variable ends at any
  time, by a notification, by the timeout or spuriously, so it is a pause at \<open>PLock\<close>. A null
  pointer dereferenced or an assertion violated is \<open>None\<close>.
\<close>

section \<open>Buffers\<close>

definition buffer_size :: nat where
  "buffer_size = 4000 * 1024"

definition lb_avail :: "string \<Rightarrow> nat" where
  "lb_avail b = buffer_size - length b"

definition lb_append :: "string \<Rightarrow> string \<Rightarrow> string" where
  "lb_append b s = (if length s < lb_avail b then b @ s else b)"

section \<open>State\<close>

datatype log_pc = PStart | PHead | PLock | PDrop | PWrite nat | PRecycle | PExit

record async_log =
  running :: bool
  currentBuffer :: "string option"
  nextBuffer :: "string option"
  full_buffers :: "string option list"
  al_file :: log_file
  al_pc :: log_pc
  newBuffer1 :: "string option"
  newBuffer2 :: "string option"
  buffersToWrite :: "string option list"

definition new_async_log :: "log_file \<Rightarrow> async_log" where
  "new_async_log f =
     \<lparr>running = False, currentBuffer = Some '''', nextBuffer = Some '''', full_buffers = [], al_file = f,
      al_pc = PStart, newBuffer1 = None, newBuffer2 = None, buffersToWrite = []\<rparr>"

section \<open>Operations\<close>

definition al_append :: "string \<Rightarrow> async_log \<Rightarrow> async_log option" where
  "al_append logline a =
     (case currentBuffer a of
        None \<Rightarrow> None
      | Some b \<Rightarrow>
          if length logline < lb_avail b then Some (a\<lparr>currentBuffer := Some (lb_append b logline)\<rparr>)
          else let a1 = a\<lparr>full_buffers := full_buffers a @ [Some b]\<rparr>;
                   (fresh, a2) = (case nextBuffer a1 of
                                    Some n \<Rightarrow> (n, a1\<lparr>nextBuffer := None\<rparr>)
                                  | None \<Rightarrow> ('''', a1))
               in Some (a2\<lparr>currentBuffer := Some (lb_append fresh logline)\<rparr>))"

definition al_stop :: "async_log \<Rightarrow> async_log" where
  "al_stop a = a\<lparr>running := False\<rparr>"

text \<open>The destructor stops a running thread. One that does not run has left its function and was joined
  by \<^verbatim>\<open>stop\<close>, or has not set the flag yet: then a joinable \<^verbatim>\<open>std::thread\<close> is destroyed, which ends the
  program.\<close>

definition al_destroy :: "async_log \<Rightarrow> async_log option" where
  "al_destroy a = (if running a then Some (al_stop a) else if al_pc a = PExit then Some a else None)"

definition head_asserts :: "async_log \<Rightarrow> bool" where
  "head_asserts a \<longleftrightarrow> newBuffer1 a = Some '''' \<and> newBuffer2 a = Some '''' \<and> buffersToWrite a = []"

text \<open>The critical section: the current buffer joins the full ones, which are swapped out.\<close>

definition swap_buffers :: "async_log \<Rightarrow> async_log" where
  "swap_buffers a =
     (let a1 = a\<lparr>full_buffers := full_buffers a @ [currentBuffer a], currentBuffer := newBuffer1 a, newBuffer1 := None\<rparr>;
          a2 = a1\<lparr>buffersToWrite := full_buffers a1, full_buffers := buffersToWrite a1\<rparr>
      in if nextBuffer a2 = None then a2\<lparr>nextBuffer := newBuffer2 a2, newBuffer2 := None\<rparr> else a2)"

text \<open>\<^verbatim>\<open>snprintf\<close> into \<^verbatim>\<open>char buf[256]\<close>.\<close>

definition drop_message :: "timestamp \<Rightarrow> nat \<Rightarrow> string" where
  "drop_message ts n = take 255 (''Dropped log messages at '' @ get_time_format_8601 ts @ '', ''
     @ show_nat (n - 2) @ '' larger buffers'' @ [CHR 0x0A])"

definition drop_buffers :: "log_env \<Rightarrow> timestamp \<Rightarrow> async_log \<Rightarrow> async_log" where
  "drop_buffers env ts a =
     (if 25 < length (buffersToWrite a)
      then a\<lparr>al_file := lf_append env ts (drop_message ts (length (buffersToWrite a))) (al_file a),
             buffersToWrite := take 2 (buffersToWrite a)\<rparr>
      else a)"

text \<open>One of the two buffers kept back: the last of those written, reset.\<close>

definition take_back :: "string option list \<Rightarrow> (string option \<times> string option list) option" where
  "take_back bs =
     (if bs = [] then None
      else case last bs of None \<Rightarrow> None | Some b \<Rightarrow> Some (Some '''', butlast bs))"

definition recycle :: "async_log \<Rightarrow> async_log option" where
  "recycle a =
     (case (if newBuffer1 a = None then take_back (buffersToWrite a)
            else Some (newBuffer1 a, buffersToWrite a)) of
        None \<Rightarrow> None
      | Some (b1, bs1) \<Rightarrow>
          (case (if newBuffer2 a = None then take_back bs1 else Some (newBuffer2 a, bs1)) of
             None \<Rightarrow> None
           | Some (b2, bs2) \<Rightarrow> Some (a\<lparr>newBuffer1 := b1, newBuffer2 := b2, buffersToWrite := []\<rparr>)))"

definition al_thread :: "log_env \<Rightarrow> timestamp \<Rightarrow> async_log \<Rightarrow> async_log option" where
  "al_thread env ts a =
     (case al_pc a of
        PStart \<Rightarrow> Some (a\<lparr>newBuffer1 := Some '''', newBuffer2 := Some '''', buffersToWrite := [], running := True,
                          al_pc := PHead\<rparr>)
      | PHead \<Rightarrow> if running a then if head_asserts a then Some (a\<lparr>al_pc := PLock\<rparr>) else None
                 else Some (a\<lparr>al_pc := PExit\<rparr>)
      | PLock \<Rightarrow> let a1 = swap_buffers a in
                 if buffersToWrite a1 = [] then None else Some (a1\<lparr>al_pc := PDrop\<rparr>)
      | PDrop \<Rightarrow> Some ((drop_buffers env ts a)\<lparr>al_pc := PWrite 0\<rparr>)
      | PWrite k \<Rightarrow> if k < length (buffersToWrite a)
                    then case buffersToWrite a ! k of
                           None \<Rightarrow> None
                         | Some b \<Rightarrow> Some (a\<lparr>al_file := lf_append env ts b (al_file a), al_pc := PWrite (Suc k)\<rparr>)
                    else Some (a\<lparr>al_pc := PRecycle\<rparr>)
      | PRecycle \<Rightarrow> map_option (\<lambda>a. a\<lparr>al_pc := PHead\<rparr>) (recycle a)
      | PExit \<Rightarrow> Some a)"

datatype log_op = Append string | Stop | Thread timestamp

fun log_apply :: "log_env \<Rightarrow> log_op \<Rightarrow> async_log \<Rightarrow> async_log option" where
  "log_apply env (Append line) a = al_append line a"
| "log_apply env Stop a = Some (al_stop a)"
| "log_apply env (Thread ts) a = al_thread env ts a"

fun log_run :: "log_env \<Rightarrow> log_op list \<Rightarrow> async_log \<Rightarrow> async_log option" where
  "log_run env [] a = Some a"
| "log_run env (op # ops) a = (case log_apply env op a of None \<Rightarrow> None | Some a' \<Rightarrow> log_run env ops a')"

section \<open>The lines in order\<close>

text \<open>What is still in memory, in the order in which it will be written.\<close>

definition contents :: "string option list \<Rightarrow> string" where
  "contents bs = concat (map (\<lambda>b. case b of None \<Rightarrow> '''' | Some s \<Rightarrow> s) bs)"

definition unwritten :: "async_log \<Rightarrow> string option list" where
  "unwritten a = (case al_pc a of PDrop \<Rightarrow> buffersToWrite a | PWrite k \<Rightarrow> drop k (buffersToWrite a) | _ \<Rightarrow> [])"

definition in_memory :: "async_log \<Rightarrow> string" where
  "in_memory a = contents (unwritten a @ full_buffers a @ [currentBuffer a])"

text \<open>A line is stored unless it would not fit into an empty buffer.\<close>

definition stored :: "log_op \<Rightarrow> string" where
  "stored op = (case op of Append line \<Rightarrow> if length line < buffer_size then line else '''' | _ \<Rightarrow> '''')"

text \<open>Whether the thread ever finds more than 25 buffers to write.\<close>

fun overrun :: "log_env \<Rightarrow> log_op list \<Rightarrow> async_log \<Rightarrow> bool" where
  "overrun env [] a = False"
| "overrun env (op # ops) a =
     (al_pc a = PDrop \<and> 25 < length (buffersToWrite a)
      \<or> (case log_apply env op a of None \<Rightarrow> False | Some a' \<Rightarrow> overrun env ops a'))"

definition needs_back :: "async_log \<Rightarrow> nat" where
  "needs_back a = (if newBuffer1 a = None then 1 else 0) + (if newBuffer2 a = None then 1 else 0)"

definition pc_ok :: "async_log \<Rightarrow> bool" where
  "pc_ok a \<longleftrightarrow>
     (case al_pc a of
        PStart \<Rightarrow> True
      | PHead \<Rightarrow> head_asserts a
      | PLock \<Rightarrow> head_asserts a
      | PExit \<Rightarrow> head_asserts a
      | _ \<Rightarrow> newBuffer1 a \<in> {None, Some ''''} \<and> newBuffer2 a \<in> {None, Some ''''}
             \<and> buffersToWrite a \<noteq> [] \<and> needs_back a \<le> length (buffersToWrite a))"

definition al_ok :: "log_env \<Rightarrow> async_log \<Rightarrow> bool" where
  "al_ok env a \<longleftrightarrow> currentBuffer a \<noteq> None \<and> nextBuffer a \<in> {None, Some ''''}
     \<and> (nextBuffer a = None \<longrightarrow> full_buffers a \<noteq> [])
     \<and> None \<notin> set (full_buffers a) \<and> None \<notin> set (buffersToWrite a)
     \<and> lf_ok env (al_file a) \<and> pc_ok a"

lemma contents_simps [simp]:
  "contents [] = ''''" "contents (xs @ ys) = contents xs @ contents ys" "contents [Some s] = s"
  "contents (Some s # xs) = s @ contents xs"
  by (simp_all add: contents_def)

lemma lb_append_fresh: "lb_append '''' s = (if length s < buffer_size then s else '''')"
  by (simp add: lb_append_def lb_avail_def)

section \<open>Every operation keeps the invariant and the lines\<close>

lemma append_props:
  assumes "al_ok env a"
  shows "\<exists>a'. al_append line a = Some a' \<and> al_ok env a' \<and> al_pc a' = al_pc a \<and> al_file a' = al_file a
    \<and> running a' = running a \<and> buffersToWrite a' = buffersToWrite a
    \<and> in_memory a' = in_memory a @ stored (Append line)"
proof -
  obtain b where b: "currentBuffer a = Some b" using assms by (auto simp: al_ok_def)
  show ?thesis
  proof (cases "length line < lb_avail b")
    case True
    then have "length line < buffer_size" by (simp add: lb_avail_def)
    then show ?thesis using True b assms
      by (simp add: al_append_def al_ok_def pc_ok_def head_asserts_def needs_back_def in_memory_def
          unwritten_def lb_append_def stored_def cong: log_pc.case_cong)
  next
    case False
    then show ?thesis using b assms
      by (cases "nextBuffer a")
        (auto simp: al_append_def al_ok_def pc_ok_def head_asserts_def needs_back_def in_memory_def
          unwritten_def lb_append_fresh stored_def Let_def cong: log_pc.case_cong)
  qed
qed

lemma stop_props:
  "al_ok env a \<Longrightarrow> al_ok env (al_stop a) \<and> in_memory (al_stop a) = in_memory a"
  by (simp add: al_stop_def al_ok_def pc_ok_def head_asserts_def needs_back_def in_memory_def
      unwritten_def cong: log_pc.case_cong)

lemma swap_props:
  assumes "al_ok env a" and "al_pc a = PLock"
  shows "\<exists>a'. al_thread env ts a = Some a' \<and> al_ok env a' \<and> al_file a' = al_file a \<and> in_memory a' = in_memory a"
proof (cases "nextBuffer a")
  case None
  then have "full_buffers a \<noteq> []" using assms(1) by (simp add: al_ok_def)
  then show ?thesis using assms None
    by (cases "full_buffers a")
      (auto simp: al_thread_def swap_buffers_def al_ok_def pc_ok_def head_asserts_def needs_back_def in_memory_def
        unwritten_def Let_def)
next
  case (Some n)
  then show ?thesis using assms
    by (auto simp: al_thread_def swap_buffers_def al_ok_def pc_ok_def head_asserts_def needs_back_def in_memory_def
        unwritten_def Let_def)
qed

lemma drop_props:
  assumes "al_ok env a" and "al_pc a = PDrop"
  shows "\<exists>a'. al_thread env ts a = Some a' \<and> al_ok env a'
    \<and> (length (buffersToWrite a) \<le> 25 \<longrightarrow> al_file a' = al_file a \<and> in_memory a' = in_memory a)"
proof (cases "25 < length (buffersToWrite a)")
  case True
  have "needs_back a \<le> 2" by (simp add: needs_back_def)
  then show ?thesis using True assms
    by (auto simp: al_thread_def drop_buffers_def al_ok_def pc_ok_def needs_back_def lf_append_props
        dest: in_set_takeD)
next
  case False
  then show ?thesis using assms
    by (simp add: al_thread_def drop_buffers_def al_ok_def pc_ok_def needs_back_def in_memory_def unwritten_def)
qed

lemma write_props:
  assumes "al_ok env a" and "al_pc a = PWrite k"
  shows "\<exists>a'. al_thread env ts a = Some a' \<and> al_ok env a'
    \<and> (opens_succeed env \<longrightarrow> lf_content env (al_file a') @ in_memory a' = lf_content env (al_file a) @ in_memory a)"
proof (cases "k < length (buffersToWrite a)")
  case True
  then have "buffersToWrite a ! k \<noteq> None" using assms(1) by (metis al_ok_def nth_mem)
  then obtain b where b: "buffersToWrite a ! k = Some b" by blast
  have "drop k (buffersToWrite a) = Some b # drop (Suc k) (buffersToWrite a)"
    using True b by (metis Cons_nth_drop_Suc)
  then show ?thesis using True b assms
    by (auto simp: al_thread_def al_ok_def pc_ok_def needs_back_def in_memory_def unwritten_def lf_append_props)
next
  case False
  then show ?thesis using assms
    by (simp add: al_thread_def al_ok_def pc_ok_def needs_back_def in_memory_def unwritten_def)
qed

lemma take_back_some:
  "bs \<noteq> [] \<Longrightarrow> None \<notin> set bs \<Longrightarrow> take_back bs = Some (Some '''', butlast bs)"
  using last_in_set [of bs] by (metis (no_types, lifting) not_None_eq option.case(2) take_back_def)

lemma recycle_props:
  assumes "al_ok env a" and "al_pc a = PRecycle"
  shows "\<exists>a'. al_thread env ts a = Some a' \<and> al_ok env a' \<and> al_file a' = al_file a \<and> in_memory a' = in_memory a"
proof -
  let ?bs = "buffersToWrite a"
  have bs: "?bs \<noteq> []" "None \<notin> set ?bs" "needs_back a \<le> length ?bs"
    and b12: "newBuffer1 a \<in> {None, Some ''''}" "newBuffer2 a \<in> {None, Some ''''}"
    using assms by (simp_all add: al_ok_def pc_ok_def)
  have bs1: "newBuffer1 a = None \<Longrightarrow> newBuffer2 a = None \<Longrightarrow> butlast ?bs \<noteq> [] \<and> None \<notin> set (butlast ?bs)"
    using bs by (cases ?bs rule: rev_cases) (auto simp: needs_back_def dest: in_set_butlastD)
  have "recycle a = Some (a\<lparr>newBuffer1 := Some '''', newBuffer2 := Some '''', buffersToWrite := []\<rparr>)"
    using b12 take_back_some [OF bs(1,2)] take_back_some [of "butlast ?bs"] bs1
    by (auto simp: recycle_def)
  then show ?thesis using assms
    by (simp add: al_thread_def al_ok_def pc_ok_def head_asserts_def in_memory_def unwritten_def)
qed

lemma thread_props:
  assumes ok: "al_ok env a"
  shows "\<exists>a'. al_thread env ts a = Some a' \<and> al_ok env a'
    \<and> (opens_succeed env \<longrightarrow> \<not> (al_pc a = PDrop \<and> 25 < length (buffersToWrite a)) \<longrightarrow>
        lf_content env (al_file a') @ in_memory a' = lf_content env (al_file a) @ in_memory a)"
proof (cases "al_pc a")
  case PStart
  then show ?thesis using ok
    by (auto simp: al_thread_def al_ok_def pc_ok_def head_asserts_def in_memory_def unwritten_def)
next
  case PHead
  then show ?thesis using ok
    by (auto simp: al_thread_def al_ok_def pc_ok_def head_asserts_def in_memory_def unwritten_def)
next
  case PLock
  then show ?thesis using swap_props [OF ok PLock, of ts] by auto
next
  case PDrop
  then show ?thesis using drop_props [OF ok PDrop, of ts] by auto
next
  case (PWrite k)
  then show ?thesis using write_props [OF ok PWrite, of ts] by blast
next
  case PRecycle
  then show ?thesis using recycle_props [OF ok PRecycle, of ts] by auto
next
  case PExit
  then show ?thesis using ok by (simp add: al_thread_def)
qed

lemma log_apply_props:
  assumes "al_ok env a"
  shows "\<exists>a'. log_apply env op a = Some a' \<and> al_ok env a'
    \<and> (opens_succeed env \<longrightarrow> \<not> (al_pc a = PDrop \<and> 25 < length (buffersToWrite a)) \<longrightarrow>
        lf_content env (al_file a') @ in_memory a' = lf_content env (al_file a) @ in_memory a @ stored op)"
proof (cases op)
  case (Append line)
  then show ?thesis using append_props [OF assms, of line] by auto
next
  case Stop
  then show ?thesis using stop_props [OF assms] by (simp add: stored_def al_stop_def)
next
  case (Thread ts)
  then show ?thesis using thread_props [OF assms, of ts] by (auto simp: stored_def)
qed

lemma log_run_props:
  "al_ok env a \<Longrightarrow> \<exists>a'. log_run env ops a = Some a' \<and> al_ok env a'
    \<and> (opens_succeed env \<longrightarrow> \<not> overrun env ops a \<longrightarrow> lf_content env (al_file a') @ in_memory a'
        = lf_content env (al_file a) @ in_memory a @ concat (map stored ops))"
proof (induction ops arbitrary: a)
  case (Cons op ops)
  obtain a1 where a1: "log_apply env op a = Some a1" "al_ok env a1"
    "opens_succeed env \<longrightarrow> \<not> (al_pc a = PDrop \<and> 25 < length (buffersToWrite a)) \<longrightarrow>
        lf_content env (al_file a1) @ in_memory a1 = lf_content env (al_file a) @ in_memory a @ stored op"
    using log_apply_props [OF Cons.prems] by blast
  obtain a' where a': "log_run env ops a1 = Some a'" "al_ok env a'"
    "opens_succeed env \<longrightarrow> \<not> overrun env ops a1 \<longrightarrow> lf_content env (al_file a') @ in_memory a'
        = lf_content env (al_file a1) @ in_memory a1 @ concat (map stored ops)"
    using Cons.IH [OF a1(2)] by blast
  have "opens_succeed env \<Longrightarrow> \<not> overrun env (op # ops) a \<Longrightarrow> lf_content env (al_file a') @ in_memory a'
      = lf_content env (al_file a) @ in_memory a @ concat (map stored (op # ops))"
    using a1(1,3) a'(3) by (simp del: append_assoc)
  then show ?case using a1(1) a'(1,2) by simp
qed simp

lemma new_async_log_ok: "lf_ok env f \<Longrightarrow> al_ok env (new_async_log f) \<and> in_memory (new_async_log f) = ''''"
  by (simp add: new_async_log_def al_ok_def pc_ok_def in_memory_def unwritten_def)

section \<open>Properties of the asynchronous log\<close>

text \<open>C23. No line is lost, repeated or overtaken, and no assertion fails. Under every interleaving of
  appends, \<^verbatim>\<open>stop\<close> and the background thread: no null buffer is used and no assertion of the
  thread is violated; and unless the thread once found more than 25 buffers to write or a log file
  could not be opened, what the files hold followed by what is in memory is exactly the appended
  lines in order, but for lines that do not fit into an empty buffer (\<open>stored\<close>).\<close>

theorem log_lines_in_order:
  assumes "new_log_file env basename roll_size flush_interval check_every fs ts = Some f"
  shows "\<exists>a. log_run env ops (new_async_log f) = Some a
    \<and> (opens_succeed env \<longrightarrow> \<not> overrun env ops (new_async_log f) \<longrightarrow>
         concat (map (the \<circ> lf_fs (al_file a)) (file_names env (al_file a))) @ in_memory a
           = concat (map stored ops))"
proof -
  have "lf_ok env f" "lf_content env f = ''''" using new_log_file_props [OF assms] by simp_all
  then show ?thesis
    using log_run_props [OF conjunct1 [OF new_async_log_ok], of env f ops] new_async_log_ok [of env f]
    unfolding lf_content_def [symmetric] by (auto simp: new_async_log_def)
qed

text \<open>What is appended while the thread is writing is lost at \<^verbatim>\<open>stop\<close>: back at its loop the thread
  finds the flag cleared and exits, and nothing writes the buffers of the last round.\<close>

theorem stop_loses_the_tail:
  assumes "al_ok env a" and "al_pc a \<in> {PHead, PExit}" and "log_run env (Append line # Stop # ops) a = Some a'"
    and "\<forall>op \<in> set ops. \<exists>ts. op = Thread ts"
  shows "al_file a' = al_file a \<and> (ops \<noteq> [] \<longrightarrow> al_pc a' = PExit)
    \<and> in_memory a' = in_memory a @ stored (Append line)"
proof -
  obtain a1 where a1: "al_append line a = Some a1" "al_pc a1 = al_pc a" "al_file a1 = al_file a"
    "in_memory a1 = in_memory a @ stored (Append line)"
    using append_props [OF assms(1), of line] by blast
  have idle: "\<exists>b'. log_run env ops b = Some b' \<and> al_file b' = al_file b \<and> in_memory b' = in_memory b
      \<and> (ops \<noteq> [] \<longrightarrow> al_pc b' = PExit)"
    if "\<not> running b" "al_pc b \<in> {PHead, PExit}" for b
    using assms(4) that
  proof (induction ops arbitrary: b)
    case (Cons op ops)
    let ?b = "b\<lparr>al_pc := PExit\<rparr>"
    have "log_apply env op b = Some ?b" using Cons.prems by (auto simp: al_thread_def)
    moreover have "in_memory ?b = in_memory b" using Cons.prems(3) by (auto simp: in_memory_def unwritten_def)
    ultimately show ?case using Cons.IH [of ?b] Cons.prems by (cases ops) auto
  qed simp
  have stop: "al_pc (al_stop a1) \<in> {PHead, PExit}" "al_file (al_stop a1) = al_file a"
    "in_memory (al_stop a1) = in_memory a @ stored (Append line)" "\<not> running (al_stop a1)"
    using a1 assms(2) by (auto simp: al_stop_def in_memory_def unwritten_def cong: log_pc.case_cong)
  have "log_run env ops (al_stop a1) = Some a'" using assms(3) a1(1) by simp
  then show ?thesis using idle [OF stop(4,1)] stop by auto
qed

definition test_log :: async_log where
  "test_log = new_async_log (the (new_log_file test_env ''app'' 1000 3 1024 Map.empty 0))"

lemma test_log_file:
  "new_log_file test_env ''app'' 1000 3 1024 Map.empty 0
    = Some (the (new_log_file test_env ''app'' 1000 3 1024 Map.empty 0))"
  by (simp add: new_log_file_def)

lemma log_lines_in_order_witness:
  "\<exists>a. log_run test_env [Thread 0, Append ''ab'', Append ''c''] test_log = Some a
    \<and> concat (map (the \<circ> lf_fs (al_file a)) (file_names test_env (al_file a))) @ in_memory a = ''abc''"
proof -
  have "\<not> overrun test_env [Thread 0, Append ''ab'', Append ''c''] test_log"
    by (simp add: test_log_def new_async_log_def al_thread_def al_append_def lb_avail_def buffer_size_def)
  then show ?thesis
    using log_lines_in_order [OF test_log_file, of "[Thread 0, Append ''ab'', Append ''c'']"] test_env_opens
    unfolding test_log_def by (auto simp: stored_def buffer_size_def)
qed

lemma stop_loses_the_tail_witness:
  "\<exists>a a'. log_run test_env [Thread 0] test_log = Some a
    \<and> log_run test_env [Append ''ab'', Stop, Thread 0] a = Some a'
    \<and> al_pc a' = PExit \<and> al_file a' = al_file a \<and> in_memory a' = ''ab''"
proof -
  let ?a = "test_log\<lparr>newBuffer1 := Some '''', newBuffer2 := Some '''', buffersToWrite := [], running := True, al_pc := PHead\<rparr>"
  have a: "log_run test_env [Thread 0] test_log = Some ?a"
    by (simp add: test_log_def new_async_log_def al_thread_def)
  have new: "al_ok test_env test_log" "in_memory test_log = ''''"
    unfolding test_log_def using new_async_log_ok [OF conjunct1 [OF new_log_file_props [OF test_log_file]]] by simp_all
  then have ok: "al_ok test_env ?a" "in_memory ?a = ''''"
    by (auto simp: al_ok_def pc_ok_def head_asserts_def in_memory_def unwritten_def test_log_def new_async_log_def)
  obtain a' where a': "log_run test_env [Append ''ab'', Stop, Thread 0] ?a = Some a'"
    using log_run_props [OF ok(1)] by blast
  have "al_file a' = al_file ?a \<and> al_pc a' = PExit \<and> in_memory a' = ''ab''"
    using stop_loses_the_tail [OF ok(1) _ a'] ok(2) by (simp add: stored_def buffer_size_def)
  then show ?thesis using a a' by blast
qed

text \<open>A \<^verbatim>\<open>stop\<close> before the thread has set its flag is overwritten: whatever happens afterwards
  without another \<^verbatim>\<open>stop\<close>, the thread never exits, and \<^verbatim>\<open>stop\<close> waits in \<^verbatim>\<open>join\<close> for ever.\<close>

theorem early_stop_is_lost:
  assumes "lf_ok env f" and "Stop \<notin> set ops"
    and "log_run env (Stop # Thread ts # ops) (new_async_log f) = Some a"
  shows "running a \<and> al_pc a \<noteq> PExit"
proof -
  have step: "running b' \<and> al_pc b' \<noteq> PExit"
    if "running b" "al_pc b \<noteq> PExit" "op \<noteq> Stop" "log_apply env op b = Some b'" for b b' op
    using that
    by (cases op; cases "al_pc b")
      (auto simp: al_append_def al_thread_def swap_buffers_def drop_buffers_def recycle_def Let_def
        split: option.splits if_splits)
  have run: "running b' \<and> al_pc b' \<noteq> PExit"
    if "running b" "al_pc b \<noteq> PExit" "log_run env ops b = Some b'" for b b'
    using assms(2) that
  proof (induction ops arbitrary: b)
    case (Cons op ops)
    then obtain b1 where b1: "log_apply env op b = Some b1" "log_run env ops b1 = Some b'"
      by (auto split: option.splits simp del: log_apply.simps)
    have "running b1 \<and> al_pc b1 \<noteq> PExit"
      using Cons.prems(1-3) by (intro step [OF _ _ _ b1(1)]) auto
    then show ?case using Cons.IH [of b1] b1(2) Cons.prems(1) by simp
  qed simp
  let ?b = "(al_stop (new_async_log f))\<lparr>newBuffer1 := Some '''', newBuffer2 := Some '''', buffersToWrite := [],
      running := True, al_pc := PHead\<rparr>"
  have "log_run env ops ?b = Some a"
    using assms(3) by (simp add: al_thread_def new_async_log_def al_stop_def)
  then show ?thesis by (rule run [rotated 2]) simp_all
qed

lemma early_stop_is_lost_witness:
  "\<exists>a. log_run test_env [Stop, Thread 0, Append ''ab''] test_log = Some a \<and> running a \<and> al_pc a \<noteq> PExit"
proof -
  have f: "lf_ok test_env (the (new_log_file test_env ''app'' 1000 3 1024 Map.empty 0))"
    using new_log_file_props [OF test_log_file] by simp
  obtain a where a: "log_run test_env [Stop, Thread 0, Append ''ab''] test_log = Some a"
    using log_run_props [OF conjunct1 [OF new_async_log_ok [OF f]]] unfolding test_log_def by blast
  then show ?thesis using early_stop_is_lost [OF f, of "[Append ''ab'']" 0] by (simp add: test_log_def)
qed


section \<open>The destructor\<close>

text \<open>What is not written any more once the flag is cleared: the thread still swaps only when it is
  already past the test of its loop. And the number of its steps until it has left its function.\<close>

definition tail_lost :: "async_log \<Rightarrow> string" where
  "tail_lost a = (if al_pc a = PLock then '''' else contents (full_buffers a @ [currentBuffer a]))"

definition steps_to_exit :: "async_log \<Rightarrow> nat" where
  "steps_to_exit a =
     (case al_pc a of
        PExit \<Rightarrow> 0 | PHead \<Rightarrow> 1 | PRecycle \<Rightarrow> 2
      | PWrite k \<Rightarrow> length (buffersToWrite a) - k + 3
      | PDrop \<Rightarrow> length (buffersToWrite a) + 4
      | PLock \<Rightarrow> length (full_buffers a) + 6
      | PStart \<Rightarrow> 0)"

definition stopped :: "async_log \<Rightarrow> bool" where
  "stopped a \<longleftrightarrow> \<not> running a \<and> al_pc a \<noteq> PStart"

lemma stopped_step:
  assumes "al_ok env a" and "stopped a"
  shows "\<exists>a'. al_thread env ts a = Some a' \<and> al_ok env a' \<and> stopped a'
    \<and> tail_lost a' = tail_lost a \<and> steps_to_exit a' \<le> steps_to_exit a - 1"
proof -
  obtain a' where a': "al_thread env ts a = Some a'" "al_ok env a'" using thread_props [OF assms(1)] by blast
  have "stopped a' \<and> tail_lost a' = tail_lost a \<and> steps_to_exit a' \<le> steps_to_exit a - 1"
    using a'(1) assms
    by (cases "al_pc a")
      (auto simp: al_thread_def stopped_def tail_lost_def steps_to_exit_def swap_buffers_def drop_buffers_def
        recycle_def al_ok_def pc_ok_def head_asserts_def Let_def split: if_splits option.splits)
  then show ?thesis using a' by blast
qed

lemma exiting_run:
  assumes "al_ok env a" and "stopped a" and "steps_to_exit a \<le> length tss"
  shows "\<exists>a'. log_run env (map Thread tss) a = Some a' \<and> al_ok env a' \<and> al_pc a' = PExit \<and> tail_lost a' = tail_lost a"
  using assms
proof (induction tss arbitrary: a)
  case Nil
  then show ?case by (auto simp: stopped_def steps_to_exit_def split: log_pc.splits)
next
  case (Cons ts tss)
  obtain a1 where a1: "al_thread env ts a = Some a1" "al_ok env a1" "stopped a1" "tail_lost a1 = tail_lost a"
    "steps_to_exit a1 \<le> length tss"
    using stopped_step [OF Cons.prems(1,2), of ts] Cons.prems(3) by auto
  show ?case using Cons.IH [OF a1(2,3,5)] a1(1,4) by auto
qed

lemma stopped_no_overrun:
  "al_ok env a \<Longrightarrow> stopped a \<Longrightarrow> length (full_buffers a) < 25 \<Longrightarrow> length (buffersToWrite a) \<le> 25
    \<Longrightarrow> \<not> overrun env (map Thread tss) a"
proof (induction tss arbitrary: a)
  case (Cons ts tss)
  obtain a1 where a1: "al_thread env ts a = Some a1" "al_ok env a1" "stopped a1"
    using stopped_step [OF Cons.prems(1,2)] by blast
  have "length (full_buffers a1) < 25 \<and> length (buffersToWrite a1) \<le> 25"
    using a1(1) Cons.prems
    by (cases "al_pc a")
      (auto simp: al_thread_def stopped_def swap_buffers_def drop_buffers_def
        recycle_def al_ok_def pc_ok_def head_asserts_def Let_def split: if_splits option.splits)
  then show ?case using Cons.IH [OF a1(2,3)] Cons.prems(4) a1(1) by simp
qed simp

lemma exit_memory: "al_pc a = PExit \<Longrightarrow> in_memory a = tail_lost a"
  by (simp add: in_memory_def unwritten_def tail_lost_def)

text \<open>C35. The destructor of a running log returns, and this is what it leaves unwritten. Wherever the
  thread is, it leaves its function within \<open>steps_to_exit\<close> of its own steps, so \<^verbatim>\<open>join\<close> returns. Let
  then fewer than 25 full buffers wait and at most 25 be swapped out (beyond that the thread drops
  buffers), and every log file be opened: the files hold all that was in files and memory, in
  order, up to what was appended since the thread last swapped the buffers, which is lost, or all
  of it when it was waiting. A log whose thread has not yet set its flag is not stopped: a joinable
  thread is destroyed.\<close>

theorem destructor_returns:
  assumes "al_ok env a" and "running a" and "al_pc a \<noteq> PStart" and "steps_to_exit a \<le> length tss"
  shows "(\<exists>a1 a'. al_destroy a = Some a1 \<and> log_run env (map Thread tss) a1 = Some a' \<and> al_pc a' = PExit
      \<and> (length (full_buffers a) < 25 \<longrightarrow> length (buffersToWrite a) \<le> 25 \<longrightarrow> opens_succeed env \<longrightarrow>
           lf_content env (al_file a') @ tail_lost a = lf_content env (al_file a) @ in_memory a))
    \<and> al_destroy (new_async_log f) = None"
proof -
  have ok: "al_ok env (al_stop a)" "in_memory (al_stop a) = in_memory a" using stop_props [OF assms(1)] by simp_all
  have st: "stopped (al_stop a)" "steps_to_exit (al_stop a) \<le> length tss" "tail_lost (al_stop a) = tail_lost a"
      "al_file (al_stop a) = al_file a"
      "full_buffers (al_stop a) = full_buffers a" "buffersToWrite (al_stop a) = buffersToWrite a"
    using assms(3-4) by (simp_all add: stopped_def al_stop_def steps_to_exit_def tail_lost_def cong: log_pc.case_cong)
  obtain a' where a': "log_run env (map Thread tss) (al_stop a) = Some a'" "al_pc a' = PExit" "tail_lost a' = tail_lost a"
    using exiting_run [OF ok(1) st(1,2)] st(3) by auto
  have "concat (map stored (map Thread tss)) = ''''" by (simp add: stored_def)
  then have "length (full_buffers a) < 25 \<longrightarrow> length (buffersToWrite a) \<le> 25 \<longrightarrow> opens_succeed env \<longrightarrow>
      lf_content env (al_file a') @ in_memory a' = lf_content env (al_file a) @ in_memory a"
    using log_run_props [OF ok(1), of "map Thread tss"] stopped_no_overrun [OF ok(1) st(1)] a'(1) ok(2) st(4-6) by auto
  then show ?thesis
    using a' assms(2) exit_memory [OF a'(2)] by (simp add: al_destroy_def new_async_log_def)
qed


lemma destructor_returns_witness:
  "\<exists>a a1 a'. log_run test_env [Thread 0, Append ''ab'', Thread 0] test_log = Some a
    \<and> al_destroy a = Some a1 \<and> log_run test_env (map Thread (replicate 6 0)) a1 = Some a' \<and> al_pc a' = PExit
    \<and> lf_content test_env (al_file a') = ''ab''"
proof -
  let ?ops = "[Thread 0, Append ''ab'', Thread 0]"
  have new: "al_ok test_env test_log"
    unfolding test_log_def using new_async_log_ok [OF conjunct1 [OF new_log_file_props [OF test_log_file]]] by simp
  have empty: "lf_content test_env (al_file test_log) @ in_memory test_log = ''''"
    unfolding test_log_def
    using new_async_log_ok [OF conjunct1 [OF new_log_file_props [OF test_log_file]]] new_log_file_props [OF test_log_file]
    by (simp add: new_async_log_def)
  obtain a where a: "log_run test_env ?ops test_log = Some a" "al_ok test_env a"
      "\<not> overrun test_env ?ops test_log \<longrightarrow> lf_content test_env (al_file a) @ in_memory a = ''ab''"
    using log_run_props [OF new, of ?ops] empty test_env_opens by (auto simp: stored_def buffer_size_def)
  have run: "running a" "al_pc a = PLock" "full_buffers a = []" "buffersToWrite a = []" "\<not> overrun test_env ?ops test_log"
    using a(1) by (auto simp: test_log_def new_async_log_def al_thread_def al_append_def lb_avail_def lb_append_def
        buffer_size_def head_asserts_def)
  have steps: "steps_to_exit a \<le> length (replicate 6 (0 :: timestamp))" and none: "tail_lost a = []"
    using run(2,3) by (simp_all add: steps_to_exit_def tail_lost_def)
  have pc: "al_pc a \<noteq> PStart" "length (full_buffers a) < 25" "length (buffersToWrite a) \<le> 25" using run(2-4) by simp_all
  show ?thesis
    using conjunct1 [OF destructor_returns [OF a(2) run(1) pc(1) steps]] a(1) mp [OF a(3) run(5)] pc(2,3) test_env_opens
    unfolding none append_Nil2 by metis
qed

end
