(* ===== verification/Logger.thy ===== *)
theory Logger
  imports AsyncLog
begin

text \<open>
  \<^verbatim>\<open>Logger\<close> and the \<^verbatim>\<open>LOG_\<close> macros (\<^verbatim>\<open>gdrpc/util/log.hpp\<close>, \<^verbatim>\<open>log.cpp\<close>) with the cached thread id of
  \<^verbatim>\<open>gdrpc/util/current_thread.cpp\<close>, and their output to the asynchronous log.
\<close>

section \<open>Levels\<close>

datatype log_level = DEBUG | INFO | WARN | FATAL

fun level_number :: "log_level \<Rightarrow> nat" where
  "level_number DEBUG = 0" | "level_number INFO = 1" | "level_number WARN = 2" | "level_number FATAL = 3"

instantiation log_level :: linorder
begin

definition less_eq_log_level :: "log_level \<Rightarrow> log_level \<Rightarrow> bool" where
  "less_eq_log_level s t \<longleftrightarrow> level_number s \<le> level_number t"

definition less_log_level :: "log_level \<Rightarrow> log_level \<Rightarrow> bool" where
  "less_log_level s t \<longleftrightarrow> level_number s < level_number t"

instance
proof
  fix s t :: log_level
  show "s \<le> t \<Longrightarrow> t \<le> s \<Longrightarrow> s = t"
    by (cases s; cases t) (simp_all add: less_eq_log_level_def)
qed (auto simp: less_eq_log_level_def less_log_level_def)

end

definition LogLevelName :: "log_level \<Rightarrow> string" where
  "LogLevelName l = (case l of DEBUG \<Rightarrow> ''DEBUG '' | INFO \<Rightarrow> ''INFO  '' | WARN \<Rightarrow> ''WARN  '' | FATAL \<Rightarrow> ''FATAL '')"

section \<open>The thread id\<close>

text \<open>The cached id, 0 at the start of a thread, and what the system call returns.\<close>

definition cacheTid :: "nat \<Rightarrow> nat \<Rightarrow> nat" where
  "cacheTid gettid cached = (if cached = 0 then gettid else cached)"

definition tid :: "nat \<Rightarrow> nat \<Rightarrow> nat \<times> nat" where
  "tid gettid cached = (let c = (if cached = 0 then cacheTid gettid cached else cached) in (c, c))"

section \<open>A log record\<close>

record log_call =
  lc_file :: string
  lc_line :: nat
  lc_level :: log_level
  lc_func :: string
  lc_message :: string

text \<open>The macros for \<^verbatim>\<open>DEBUG\<close> and \<^verbatim>\<open>INFO\<close> test the level; only the first passes the function name.\<close>

definition log_enabled :: "log_level \<Rightarrow> log_level \<Rightarrow> bool" where
  "log_enabled g_level l = (if l = DEBUG \<or> l = INFO then g_level \<le> l else True)"

definition logger_begin :: "timestamp \<Rightarrow> nat \<Rightarrow> log_call \<Rightarrow> string" where
  "logger_begin ts t c = get_time_format_8601 ts @ '' '' @ show_nat t @ '' '' @ LogLevelName (lc_level c) @ '' ''"

definition logger_end :: "log_call \<Rightarrow> string" where
  "logger_end c = '' - '' @ lc_file c @ '':''
     @ (if lc_level c = DEBUG \<and> lc_func c \<noteq> [] then lc_func c @ '':'' else []) @ show_nat (lc_line c)"

definition log_record :: "timestamp \<Rightarrow> nat \<Rightarrow> log_call \<Rightarrow> string" where
  "log_record ts t c = logger_begin ts t c @ lc_message c @ logger_end c"

definition log_output :: "log_level \<Rightarrow> timestamp \<Rightarrow> nat \<Rightarrow> log_call \<Rightarrow> string option" where
  "log_output g_level ts t c =
     (if log_enabled g_level (lc_level c) then Some (log_record ts t c @ [CHR 0x0A]) else None)"

section \<open>Lemmas\<close>

lemma digit_not_newline: "n < 10 \<Longrightarrow> digit n \<noteq> CHR 0x0A"
  using is_digit_digit [of n] by (auto simp: is_digit_def)

lemma no_newline_pad:
  "n < 100 \<Longrightarrow> CHR 0x0A \<notin> set (pad2 n)" "m < 1000000 \<Longrightarrow> CHR 0x0A \<notin> set (pad6 m)"
proof -
  show *: "n < 100 \<Longrightarrow> CHR 0x0A \<notin> set (pad2 n)" for n
    using digit_not_newline [of "n div 10"] digit_not_newline [of "n mod 10"]
    by (auto simp: pad2_def less_mult_imp_div_less)
  show "m < 1000000 \<Longrightarrow> CHR 0x0A \<notin> set (pad6 m)"
    using * [of "m div 10000"] * [of "m div 100 mod 100"] * [of "m mod 100"]
    by (simp add: pad6_def less_mult_imp_div_less)
qed

lemma no_newline_show [simp]: "CHR 0x0A \<notin> set (show_nat n)"
  using show_nat_digits [of "CHR 0x0A" n] by (auto simp: is_digit_def)

lemma no_newline_time: "CHR 0x0A \<notin> set (get_time_format_8601 ts)"
proof -
  have "ts div 1000 mod 1000000 < 1000000" by simp
  then show ?thesis
    using gmtime_fields [of "get_time_t ts"] no_newline_pad
    by (simp add: get_time_format_8601_def Let_def)
qed

lemma no_newline_record:
  assumes "CHR 0x0A \<notin> set (lc_file c @ lc_func c @ lc_message c)"
  shows "CHR 0x0A \<notin> set (log_record ts t c)"
  using assms no_newline_time [of ts]
  by (cases "lc_level c") (auto simp: log_record_def logger_begin_def logger_end_def LogLevelName_def)

lemma split_records:
  "\<forall>r \<in> set rs. CHR 0x0A \<notin> set r \<Longrightarrow>
   split_at (CHR 0x0A) (concat (map (\<lambda>r. r @ [CHR 0x0A]) rs)) = rs @ [[]]"
  by (induction rs) (auto simp: split_at_append)

text \<open>The operations of a run in which the appends come from the logger, and the records.\<close>

datatype logger_op = Log timestamp nat log_call | Other log_op

fun logger_ops :: "log_level \<Rightarrow> logger_op list \<Rightarrow> log_op list" where
  "logger_ops g [] = []"
| "logger_ops g (Log ts t c # ops) =
     (case log_output g ts t c of None \<Rightarrow> logger_ops g ops | Some s \<Rightarrow> Append s # logger_ops g ops)"
| "logger_ops g (Other op # ops) = op # logger_ops g ops"

fun records :: "log_level \<Rightarrow> logger_op list \<Rightarrow> string list" where
  "records g [] = []"
| "records g (Log ts t c # ops) =
     (if log_enabled g (lc_level c) then log_record ts t c # records g ops else records g ops)"
| "records g (Other op # ops) = records g ops"

fun plain_op :: "logger_op \<Rightarrow> bool" where
  "plain_op (Log ts t c) \<longleftrightarrow> CHR 0x0A \<notin> set (lc_file c @ lc_func c @ lc_message c)
     \<and> Suc (length (log_record ts t c)) < buffer_size"
| "plain_op (Other op) \<longleftrightarrow> (\<forall>line. op \<noteq> Append line)"

lemma stored_records:
  "list_all plain_op ops \<Longrightarrow> concat (map stored (logger_ops g ops)) = concat (map (\<lambda>r. r @ [CHR 0x0A]) (records g ops))"
proof (induction g ops rule: records.induct)
  case (3 g op ops)
  then show ?case by (cases op) (simp_all add: stored_def)
qed (simp_all add: log_output_def stored_def)

lemma records_plain:
  "list_all plain_op ops \<Longrightarrow> r \<in> set (records g ops) \<Longrightarrow> CHR 0x0A \<notin> set r"
  by (induction g ops rule: records.induct) (auto simp: no_newline_record split: if_splits)

section \<open>Properties of the logger\<close>

text \<open>C34. Records stay whole from the macro to the file. For calls of the \<^verbatim>\<open>LOG_\<close> macros from any threads
  in any interleaving with the background thread: let no text, file or function name contain a
  newline, every record be shorter than a buffer of the log (\<open>plain_op\<close>), every log file be opened
  and no round of the thread find more than 25 buffers (beyond that it drops records). Then splitting
  what the files and the memory hold at the newlines gives back exactly the records of the enabled
  calls, in order. At level \<^verbatim>\<open>WARN\<close> and above only \<^verbatim>\<open>DEBUG\<close> and \<^verbatim>\<open>INFO\<close> calls are left out.\<close>

theorem records_stay_whole:
  assumes "new_log_file env basename roll_size flush_interval check_every fs ts = Some f"
    and "list_all plain_op ops" and "\<not> overrun env (logger_ops g ops) (new_async_log f)"
    and "opens_succeed env"
  shows "\<exists>a. log_run env (logger_ops g ops) (new_async_log f) = Some a
    \<and> split_at (CHR 0x0A) (concat (map (the \<circ> lf_fs (al_file a)) (file_names env (al_file a))) @ in_memory a)
        = records g ops @ [[]]
    \<and> (WARN \<le> g \<longrightarrow> (\<forall>l. log_enabled g l \<longleftrightarrow> WARN \<le> l))"
proof -
  have "lf_ok env f" "lf_content env f = ''''" using new_log_file_props [OF assms(1)] by simp_all
  then obtain a where a: "log_run env (logger_ops g ops) (new_async_log f) = Some a"
    "lf_content env (al_file a) @ in_memory a = concat (map stored (logger_ops g ops))"
    using log_run_props [OF conjunct1 [OF new_async_log_ok], of env f "logger_ops g ops"] assms(3,4)
      new_async_log_ok [of env f] by (auto simp: new_async_log_def)
  have "split_at (CHR 0x0A) (lf_content env (al_file a) @ in_memory a) = records g ops @ [[]]"
    unfolding a(2) stored_records [OF assms(2)] using records_plain [OF assms(2)] by (intro split_records) blast
  moreover have "WARN \<le> g \<longrightarrow> (log_enabled g l \<longleftrightarrow> WARN \<le> l)" for l
    by (cases l; cases g) (simp_all add: log_enabled_def less_eq_log_level_def)
  ultimately show ?thesis using a(1) by (auto simp: lf_content_def)
qed

lemma records_stay_whole_witness:
  "\<exists>a. log_run test_env (logger_ops DEBUG [Log 0 3 \<lparr>lc_file = ''f'', lc_line = 1, lc_level = INFO, lc_func = '''', lc_message = ''m''\<rparr>]) test_log = Some a
    \<and> split_at (CHR 0x0A) (concat (map (the \<circ> lf_fs (al_file a)) (file_names test_env (al_file a))) @ in_memory a) = [log_record 0 3 \<lparr>lc_file = ''f'', lc_line = 1, lc_level = INFO, lc_func = '''', lc_message = ''m''\<rparr>, []]"
proof -
  let ?ops = "[Log 0 3 \<lparr>lc_file = ''f'', lc_line = 1, lc_level = INFO, lc_func = '''', lc_message = ''m''\<rparr>]"
  have "length (show_nat 3) \<le> 1" "length (show_nat 1) \<le> 1" using length_show_nat [of 3 0] length_show_nat [of 1 0] by simp_all
  moreover have "length (show_nat (tm_year (gmtime (get_time_t 0)))) \<le> 4"
    using length_show_nat [of 1970 3]
    by (simp add: get_time_t_def gmtime_def split_year.simps [of 0] year_days_def Let_def split: prod.split)
  ultimately have "list_all plain_op ?ops"
    by (simp add: log_record_def logger_begin_def logger_end_def get_time_format_8601_def Let_def pad6_def
        buffer_size_def LogLevelName_def)
  moreover have "records DEBUG ?ops = [log_record 0 3 (\<lparr>lc_file = ''f'', lc_line = 1, lc_level = INFO, lc_func = '''', lc_message = ''m''\<rparr>)]"
    by (simp add: log_enabled_def less_eq_log_level_def)
  moreover have "\<not> overrun test_env (logger_ops DEBUG ?ops) test_log"
    by (simp add: log_output_def log_enabled_def less_eq_log_level_def test_log_def new_async_log_def split: option.splits)
  ultimately show ?thesis
    using records_stay_whole [OF test_log_file, of ?ops DEBUG] test_env_opens unfolding test_log_def by auto
qed


section \<open>Where the records go\<close>

text \<open>The static members of \<^verbatim>\<open>Logger\<close>: level, output and flush function, over the state \<open>'s\<close> of what is
  written to. Until \<^verbatim>\<open>setOutput\<close> that is the standard output, here the text written so far.\<close>

record 's logger_globals =
  g_level :: log_level
  g_output :: "string \<Rightarrow> 's \<Rightarrow> 's"
  g_flush :: "'s \<Rightarrow> 's"

definition cout_output :: "string \<Rightarrow> string \<Rightarrow> string" where
  "cout_output msg out = out @ msg @ [CHR 0x0A]"

definition initial_globals :: "string logger_globals" where
  "initial_globals = \<lparr>g_level = DEBUG, g_output = cout_output, g_flush = (\<lambda>out. out)\<rparr>"

definition setLogLevel :: "log_level \<Rightarrow> 's logger_globals \<Rightarrow> 's logger_globals" where
  "setLogLevel level g = g\<lparr>g_level := level\<rparr>"

definition setOutput :: "(string \<Rightarrow> 's \<Rightarrow> 's) \<Rightarrow> 's logger_globals \<Rightarrow> 's logger_globals" where
  "setOutput out g = g\<lparr>g_output := out\<rparr>"

definition setFlush :: "('s \<Rightarrow> 's) \<Rightarrow> 's logger_globals \<Rightarrow> 's logger_globals" where
  "setFlush flush g = g\<lparr>g_flush := flush\<rparr>"

text \<open>One statement: what the destructor of the temporary \<^verbatim>\<open>Logger\<close> hands to the output function.\<close>

definition log_statement :: "'s logger_globals \<Rightarrow> timestamp \<Rightarrow> nat \<Rightarrow> log_call \<Rightarrow> 's \<Rightarrow> 's" where
  "log_statement g ts t c s = (case log_output (g_level g) ts t c of None \<Rightarrow> s | Some m \<Rightarrow> g_output g m s)"

text \<open>The interface of an output function: what it has written can be read as text, and a call adds
  the message and its own ending.\<close>

locale log_sink =
  fixes out_fn :: "string \<Rightarrow> 's \<Rightarrow> 's" and written :: "'s \<Rightarrow> string" and ending :: string
  assumes output_adds: "written (out_fn msg s) = written s @ msg @ ending"
begin

lemma statements_written:
  assumes "g_output g = out_fn"
  shows "written (fold (\<lambda>(ts, t, c). log_statement g ts t c) calls s)
    = written s @ concat (map (\<lambda>r. r @ CHR 0x0A # ending) (records (g_level g) (map (\<lambda>(ts, t, c). Log ts t c) calls)))"
proof (induction calls arbitrary: s)
  case (Cons call calls)
  obtain ts t c where call: "call = (ts, t, c)" by (cases call)
  show ?case
    unfolding call list.map fold_simps prod.case o_apply
    by (subst Cons.IH) (simp add: log_statement_def log_output_def assms output_adds)
qed simp

end

interpretation cout: log_sink cout_output "\<lambda>out. out" "[CHR 0x0A]"
  by unfold_locales (simp add: cout_output_def)

text \<open>The default output ends each record twice: the record brings its newline and \<^verbatim>\<open>std::endl\<close>
  writes another, so every other line of the output is empty.\<close>

theorem default_output_is_double_spaced:
  "fold (\<lambda>(ts, t, c). log_statement (setLogLevel level initial_globals) ts t c) calls ''''
    = concat (map (\<lambda>r. r @ [CHR 0x0A, CHR 0x0A]) (records level (map (\<lambda>(ts, t, c). Log ts t c) calls)))"
  using cout.statements_written [of "setLogLevel level initial_globals" calls "''''"]
  by (simp add: setLogLevel_def initial_globals_def)

end
