(* ===== verification/JsonCodec.thy ===== *)
theory JsonCodec
  imports Prelude
begin

text \<open>
  The compile-time reflection of \<^verbatim>\<open>gdrpc/protocol/jsonCodec.hpp\<close>: a struct with a schema, the
  tuple of its field pointers and names, is converted to and from a JSON object field by field.

  A field of the schema is its name, what the library makes of its value and of a JSON value that
  is put into it, and whether its type is an optional one; \<open>'f\<close> are the JSON values, and
  \<^verbatim>\<open>get_to\<close> throws on one of the wrong type. The JSON library is not part of the repository:
  \<open>json_api\<close> holds the three things the code does with an object \<open>'j\<close>, \<^verbatim>\<open>j[name] = field\<close>,
  \<^verbatim>\<open>j.find(name)\<close> and \<^verbatim>\<open>j.at(name)\<close>, the last failing where the library throws. The second half is
  the struct \<^verbatim>\<open>MessageInfo\<close> of \<^verbatim>\<open>example/example_json.cpp\<close>.
\<close>

section \<open>Schemas\<close>

record ('s, 'f) field =
  f_name :: string
  f_get :: "'s \<Rightarrow> 'f"
  f_set :: "'f \<Rightarrow> 's \<Rightarrow> 's option"
  f_optional :: bool

record ('j, 'f) json_api =
  j_assign :: "string \<Rightarrow> 'f \<Rightarrow> 'j \<Rightarrow> 'j"
  j_find :: "string \<Rightarrow> 'j \<Rightarrow> bool"
  j_at :: "string \<Rightarrow> 'j \<Rightarrow> 'f option"

section \<open>Conversions\<close>

text \<open>The fold expression over the index sequence of the tuple goes from left to right.\<close>

fun ForEachTuple :: "('a \<Rightarrow> 'st \<Rightarrow> 'st option) \<Rightarrow> 'a list \<Rightarrow> 'st \<Rightarrow> 'st option" where
  "ForEachTuple fn [] st = Some st"
| "ForEachTuple fn (x # xs) st = (case fn x st of None \<Rightarrow> None | Some st' \<Rightarrow> ForEachTuple fn xs st')"

text \<open>An empty schema is refused by a static assertion.\<close>

definition ForEachField :: "(('s, 'f) field \<Rightarrow> 'st \<Rightarrow> 'st option) \<Rightarrow> ('s, 'f) field list \<Rightarrow> 'st \<Rightarrow> 'st option" where
  "ForEachField fn schema st = (if schema = [] then None else ForEachTuple fn schema st)"

definition to_json :: "('j, 'f) json_api \<Rightarrow> ('s, 'f) field list \<Rightarrow> 's \<Rightarrow> 'j \<Rightarrow> 'j option" where
  "to_json api schema v j =
     ForEachField (\<lambda>f j. Some (j_assign api (f_name f) (f_get f v) j)) schema j"

definition from_json :: "('j, 'f) json_api \<Rightarrow> ('s, 'f) field list \<Rightarrow> 'j \<Rightarrow> 's \<Rightarrow> 's option" where
  "from_json api schema j v =
     ForEachField (\<lambda>f v. if f_optional f \<and> \<not> j_find api (f_name f) j then Some v
                          else Option.bind (j_at api (f_name f) j) (\<lambda>x. f_set f x v)) schema v"

section \<open>The library and the schema\<close>

text \<open>Documented behaviour of an object: it maps names to values.\<close>

definition json_laws :: "('j, 'f) json_api \<Rightarrow> bool" where
  "json_laws api \<longleftrightarrow>
     (\<forall>n x j. j_at api n (j_assign api n x j) = Some x \<and> j_find api n (j_assign api n x j))
   \<and> (\<forall>n m x j. n \<noteq> m \<longrightarrow> j_at api n (j_assign api m x j) = j_at api n j
        \<and> j_find api n (j_assign api m x j) = j_find api n j)"

text \<open>A field takes the values it gives, the fields are independent, and they make up the struct.\<close>

definition field_ok :: "('s, 'f) field list \<Rightarrow> ('s, 'f) field \<Rightarrow> bool" where
  "field_ok schema f \<longleftrightarrow> (\<forall>v w. \<exists>v'. f_set f (f_get f w) v = Some v' \<and> f_get f v' = f_get f w
     \<and> (\<forall>g \<in> set schema. f_name g \<noteq> f_name f \<longrightarrow> f_get g v' = f_get g v))"

definition schema_ok :: "('s, 'f) field list \<Rightarrow> bool" where
  "schema_ok schema \<longleftrightarrow> (\<forall>f \<in> set schema. field_ok schema f)
   \<and> (\<forall>v v'. (\<forall>f \<in> set schema. f_get f v = f_get f v') \<longrightarrow> v = v')"

lemma to_json_at:
  assumes laws: "json_laws api" and "distinct (map f_name schema)"
    and "ForEachTuple (\<lambda>f j. Some (j_assign api (f_name f) (f_get f v) j)) schema j = Some j'"
  shows "(\<forall>f \<in> set schema. j_at api (f_name f) j' = Some (f_get f v) \<and> j_find api (f_name f) j')
    \<and> (\<forall>n. n \<notin> f_name ` set schema \<longrightarrow> j_at api n j' = j_at api n j \<and> j_find api n j' = j_find api n j)"
  using assms(2,3)
proof (induction schema arbitrary: j)
  case (Cons f schema)
  let ?j = "j_assign api (f_name f) (f_get f v) j"
  have ih: "(\<forall>g \<in> set schema. j_at api (f_name g) j' = Some (f_get g v) \<and> j_find api (f_name g) j')
    \<and> (\<forall>n. n \<notin> f_name ` set schema \<longrightarrow> j_at api n j' = j_at api n ?j \<and> j_find api n j' = j_find api n ?j)"
    using Cons.IH [of ?j] Cons.prems by simp
  have new: "j_at api (f_name f) ?j = Some (f_get f v)" "j_find api (f_name f) ?j"
    "\<And>n. n \<noteq> f_name f \<Longrightarrow> j_at api n ?j = j_at api n j \<and> j_find api n ?j = j_find api n j"
    using laws unfolding json_laws_def by blast+
  moreover have "f_name f \<notin> f_name ` set schema" using Cons.prems(1) by simp
  ultimately show ?case using ih by auto
qed simp

lemma from_json_sets:
  assumes "\<forall>f \<in> set schema. field_ok schema f"
    and "set fs \<subseteq> set schema" and "distinct (map f_name fs)"
    and "\<forall>f \<in> set fs. j_at api (f_name f) j = Some (f_get f v) \<and> j_find api (f_name f) j"
  shows "\<exists>v1. ForEachTuple (\<lambda>f v. if f_optional f \<and> \<not> j_find api (f_name f) j then Some v
            else Option.bind (j_at api (f_name f) j) (\<lambda>x. f_set f x v)) fs v0 = Some v1
    \<and> (\<forall>f \<in> set fs. f_get f v1 = f_get f v)
    \<and> (\<forall>g \<in> set schema. f_name g \<notin> f_name ` set fs \<longrightarrow> f_get g v1 = f_get g v0)"
  using assms(2-)
proof (induction fs arbitrary: v0)
  case (Cons f fs)
  have f: "f \<in> set schema" "f_name f \<notin> f_name ` set fs" using Cons.prems by auto
  obtain w where w: "f_set f (f_get f v) v0 = Some w" "f_get f w = f_get f v"
      "\<forall>g \<in> set schema. f_name g \<noteq> f_name f \<longrightarrow> f_get g w = f_get g v0"
    using assms(1) f(1) unfolding field_ok_def by blast
  obtain v1 where v1: "ForEachTuple (\<lambda>f v. if f_optional f \<and> \<not> j_find api (f_name f) j then Some v
            else Option.bind (j_at api (f_name f) j) (\<lambda>x. f_set f x v)) fs w = Some v1"
    "\<forall>g \<in> set fs. f_get g v1 = f_get g v"
    "\<forall>g \<in> set schema. f_name g \<notin> f_name ` set fs \<longrightarrow> f_get g v1 = f_get g w"
    using Cons.IH [of w] Cons.prems by auto
  have "f_get f v1 = f_get f v" using v1(3) w(2) f by simp
  moreover have "f_get g v1 = f_get g v0" if "g \<in> set schema" "f_name g \<notin> f_name ` set (f # fs)" for g
    using v1(3) w(3) that by auto
  ultimately show ?case using v1(1,2) w(1) Cons.prems(3) by (intro exI [of _ v1]) auto
qed simp

section \<open>Properties of the conversions\<close>

text \<open>C36. A struct survives the way through JSON: with a schema whose names are distinct and whose
  fields make up the struct, reading into any struct what was written from another one gives the
  written one back, optional fields included, whatever else the object held before.\<close>

theorem json_roundtrip:
  assumes "json_laws api" and "schema_ok schema" and "distinct (map f_name schema)" and "schema \<noteq> []"
  shows "\<exists>j'. to_json api schema v j = Some j' \<and> from_json api schema j' v0 = Some v"
proof -
  have "\<exists>j'. ForEachTuple (\<lambda>f j. Some (j_assign api (f_name f) (f_get f v) j)) schema j = Some j'"
    by (induction schema arbitrary: j) auto
  then obtain j' where j': "ForEachTuple (\<lambda>f j. Some (j_assign api (f_name f) (f_get f v) j)) schema j = Some j'" ..
  have fields: "\<forall>f \<in> set schema. field_ok schema f"
    and ext: "\<And>v v'. \<forall>f \<in> set schema. f_get f v = f_get f v' \<Longrightarrow> v = v'"
    using assms(2) unfolding schema_ok_def by blast+
  obtain v1 where v1: "ForEachTuple (\<lambda>f v. if f_optional f \<and> \<not> j_find api (f_name f) j' then Some v
            else Option.bind (j_at api (f_name f) j') (\<lambda>x. f_set f x v)) schema v0 = Some v1"
    "\<forall>f \<in> set schema. f_get f v1 = f_get f v"
    using from_json_sets [OF fields subset_refl assms(3) conjunct1 [OF to_json_at [OF assms(1,3) j']]]
    by blast
  then show ?thesis using j' ext [OF v1(2)] assms(4) by (simp add: to_json_def from_json_def ForEachField_def)
qed

text \<open>The values of the library that the example needs, and an object as the map it is.\<close>

datatype json_value = JNumber int | JString string

definition map_json :: "(string \<Rightarrow> json_value option, json_value) json_api" where
  "map_json = \<lparr>j_assign = (\<lambda>n x j. j(n \<mapsto> x)), j_find = (\<lambda>n j. j n \<noteq> None), j_at = (\<lambda>n j. j n)\<rparr>"

section \<open>The struct of the example\<close>

record message_info =
  mi_msg_id :: "32 word"
  mi_service_name :: string
  mi_method_name :: string
  mi_message_kind :: "8 word"
  mi_error_code :: "8 word"
  mi_extendInfo_len :: "32 word"

text \<open>The library reads a number into an integer type by a cast; an enumeration is its number.\<close>

definition number_field :: "string \<Rightarrow> ('s \<Rightarrow> 'w :: len word) \<Rightarrow> ('w word \<Rightarrow> 's \<Rightarrow> 's) \<Rightarrow> ('s, json_value) field" where
  "number_field name get put = \<lparr>f_name = name, f_get = (\<lambda>v. JNumber (uint (get v))),
     f_set = (\<lambda>x v. case x of JNumber i \<Rightarrow> Some (put (word_of_int i) v) | JString s \<Rightarrow> None), f_optional = False\<rparr>"

definition string_field :: "string \<Rightarrow> ('s \<Rightarrow> string) \<Rightarrow> (string \<Rightarrow> 's \<Rightarrow> 's) \<Rightarrow> ('s, json_value) field" where
  "string_field name get put = \<lparr>f_name = name, f_get = (\<lambda>v. JString (get v)),
     f_set = (\<lambda>x v. case x of JString s \<Rightarrow> Some (put s v) | JNumber i \<Rightarrow> None), f_optional = False\<rparr>"

definition MessageInfo_schema :: "(message_info, json_value) field list" where
  "MessageInfo_schema =
     [number_field ''msg_id_'' mi_msg_id (\<lambda>x v. v\<lparr>mi_msg_id := x\<rparr>),
      string_field ''service_name_'' mi_service_name (\<lambda>x v. v\<lparr>mi_service_name := x\<rparr>),
      string_field ''method_name_'' mi_method_name (\<lambda>x v. v\<lparr>mi_method_name := x\<rparr>),
      number_field ''message_Kind_'' mi_message_kind (\<lambda>x v. v\<lparr>mi_message_kind := x\<rparr>),
      number_field ''error_code_'' mi_error_code (\<lambda>x v. v\<lparr>mi_error_code := x\<rparr>),
      number_field ''extendInfo_len_'' mi_extendInfo_len (\<lambda>x v. v\<lparr>mi_extendInfo_len := x\<rparr>)]"

lemma MessageInfo_ok: "schema_ok MessageInfo_schema" "distinct (map f_name MessageInfo_schema)"
  "MessageInfo_schema \<noteq> []"
proof -
  show "schema_ok MessageInfo_schema"
    unfolding schema_ok_def
  proof (intro conjI allI impI)
    show "\<forall>f \<in> set MessageInfo_schema. field_ok MessageInfo_schema f"
      by (simp add: MessageInfo_schema_def field_ok_def number_field_def string_field_def)
    show "v = v'" if "\<forall>f \<in> set MessageInfo_schema. f_get f v = f_get f v'" for v v'
      using that by (intro message_info.equality) (simp_all add: MessageInfo_schema_def number_field_def string_field_def word_uint_eq_iff)
  qed
qed (simp_all add: MessageInfo_schema_def number_field_def string_field_def)

lemma map_json_laws: "json_laws map_json"
  by (simp add: json_laws_def map_json_def)

lemma json_roundtrip_witness:
  "\<exists>j. to_json map_json MessageInfo_schema \<lparr>mi_msg_id = 1, mi_service_name = ''foo'', mi_method_name = ''foo'',
        mi_message_kind = 2, mi_error_code = 2, mi_extendInfo_len = 2\<rparr> Map.empty = Some j
    \<and> from_json map_json MessageInfo_schema j \<lparr>mi_msg_id = 0, mi_service_name = [], mi_method_name = [],
        mi_message_kind = 0, mi_error_code = 0, mi_extendInfo_len = 0\<rparr>
      = Some \<lparr>mi_msg_id = 1, mi_service_name = ''foo'', mi_method_name = ''foo'',
          mi_message_kind = 2, mi_error_code = 2, mi_extendInfo_len = 2\<rparr>"
  by (rule json_roundtrip [OF map_json_laws MessageInfo_ok])

text \<open>\<^verbatim>\<open>main\<close> of the example: it parses a text into the struct and prints the struct as JSON.\<close>

definition blank_message :: message_info where
  "blank_message = \<lparr>mi_msg_id = 0, mi_service_name = [], mi_method_name = [], mi_message_kind = 0,
     mi_error_code = 0, mi_extendInfo_len = 0\<rparr>"

definition example_json_main :: "('j, json_value) json_api \<Rightarrow> 'j \<Rightarrow> ('t \<Rightarrow> 'j option) \<Rightarrow> ('j \<Rightarrow> 't) \<Rightarrow> 't \<Rightarrow> 't option" where
  "example_json_main api blank parse dump txt =
     Option.bind (parse txt) (\<lambda>j.
       Option.bind (from_json api MessageInfo_schema j blank_message) (\<lambda>v.
         map_option dump (to_json api MessageInfo_schema v blank)))"

text \<open>It prints the object it was given.\<close>

lemma example_json_prints_its_input:
  assumes "parse txt = Some j" and "j = [''msg_id_'' \<mapsto> JNumber 1, ''service_name_'' \<mapsto> JString ''foo'',
      ''method_name_'' \<mapsto> JString ''foo'', ''message_Kind_'' \<mapsto> JNumber 2, ''error_code_'' \<mapsto> JNumber 2,
      ''extendInfo_len_'' \<mapsto> JNumber 2]"
  shows "example_json_main map_json Map.empty parse dump txt = Some (dump j)"
  using assms(1) by (simp add: assms(2) example_json_main_def from_json_def to_json_def ForEachField_def
      MessageInfo_schema_def number_field_def string_field_def map_json_def)

text \<open>The enumerations are not checked: any number is taken, modulo 256.\<close>

lemma kind_not_checked:
  "\<exists>v. from_json map_json MessageInfo_schema
      [''msg_id_'' \<mapsto> JNumber 1, ''service_name_'' \<mapsto> JString ''foo'', ''method_name_'' \<mapsto> JString ''foo'',
       ''message_Kind_'' \<mapsto> JNumber 263, ''error_code_'' \<mapsto> JNumber 2, ''extendInfo_len_'' \<mapsto> JNumber 2] v0 = Some v
    \<and> mi_message_kind v = 7"
  by (simp add: from_json_def ForEachField_def MessageInfo_schema_def number_field_def string_field_def map_json_def)

text \<open>A missing field is an error unless it is optional.\<close>

lemma from_json_missing:
  "f \<in> set schema \<Longrightarrow> \<not> f_optional f \<Longrightarrow> j_at api (f_name f) j = None \<Longrightarrow> from_json api schema j v = None"
proof -
  have "ForEachTuple (\<lambda>f v. if f_optional f \<and> \<not> j_find api (f_name f) j then Some v
            else Option.bind (j_at api (f_name f) j) (\<lambda>x. f_set f x v)) schema v = None"
    if "f \<in> set schema" "\<not> f_optional f" "j_at api (f_name f) j = None" for v
    using that by (induction schema arbitrary: v) (auto split: option.splits)
  then show "f \<in> set schema \<Longrightarrow> \<not> f_optional f \<Longrightarrow> j_at api (f_name f) j = None \<Longrightarrow> from_json api schema j v = None"
    by (simp add: from_json_def ForEachField_def)
qed

end
