(* ===== verification/Singleton.thy ===== *)
theory Singleton
  imports Prelude
begin

text \<open>
  \<^verbatim>\<open>Singleton\<close> (\<^verbatim>\<open>gdrpc/util/singleton.hpp\<close>): one object per type, made by the first call of
  \<^verbatim>\<open>instance\<close> of any thread, deleted at exit unless its type has a member \<^verbatim>\<open>no_destroy\<close>.

  Objects are numbers in the order of their construction. \<^verbatim>\<open>call_once\<close> lets one thread run the
  initialisation and the others wait for it, so a call of \<^verbatim>\<open>instance\<close> is one step. A failed
  assertion is \<open>None\<close>.
\<close>

record singleton =
  init_flag :: bool
  sg_value :: "nat option"
  sg_constructed :: nat
  sg_at_exit :: bool

definition new_singleton :: singleton where
  "new_singleton = \<lparr>init_flag = False, sg_value = None, sg_constructed = 0, sg_at_exit = False\<rparr>"

definition sg_init :: "bool \<Rightarrow> singleton \<Rightarrow> singleton" where
  "sg_init has_no_destroy s =
     (let s1 = s\<lparr>sg_value := Some (sg_constructed s), sg_constructed := sg_constructed s + 1\<rparr>
      in if \<not> has_no_destroy then s1\<lparr>sg_at_exit := True\<rparr> else s1)"

definition sg_instance :: "bool \<Rightarrow> singleton \<Rightarrow> (nat \<times> singleton) option" where
  "sg_instance has_no_destroy s =
     (let s1 = (if init_flag s then s else (sg_init has_no_destroy s)\<lparr>init_flag := True\<rparr>)
      in case sg_value s1 of None \<Rightarrow> None | Some v \<Rightarrow> Some (v, s1))"

definition sg_destroy :: "singleton \<Rightarrow> singleton" where
  "sg_destroy s = s\<lparr>sg_value := None\<rparr>"

text \<open>What the process does at exit.\<close>

definition sg_exit :: "singleton \<Rightarrow> singleton" where
  "sg_exit s = (if sg_at_exit s then sg_destroy s else s)"

fun sg_calls :: "bool \<Rightarrow> nat \<Rightarrow> singleton \<Rightarrow> (nat list \<times> singleton) option" where
  "sg_calls nd 0 s = Some ([], s)"
| "sg_calls nd (Suc n) s =
     (case sg_instance nd s of
        None \<Rightarrow> None
      | Some (v, s1) \<Rightarrow> map_option (\<lambda>(vs, s2). (v # vs, s2)) (sg_calls nd n s1))"

lemma sg_calls_initialised:
  "init_flag s \<Longrightarrow> sg_value s = Some v \<Longrightarrow> sg_calls nd n s = Some (replicate n v, s)"
  by (induction n) (simp_all add: sg_instance_def)

text \<open>Any number of calls return the one object constructed; at exit it is deleted or kept, and a
  call after it was deleted, as from the destructor of a static object, fails.\<close>

lemma one_instance:
  "\<exists>s. sg_calls nd (Suc n) new_singleton = Some (replicate (Suc n) 0, s) \<and> sg_constructed s = 1
    \<and> map_option fst (sg_instance nd (sg_exit s)) = (if nd then Some 0 else None)"
  by (auto simp: sg_instance_def sg_init_def new_singleton_def sg_exit_def sg_destroy_def
      sg_calls_initialised Let_def)

end
