(* ===== verification/ConnFrame.thy ===== *)
theory ConnFrame
  imports TcpConn
begin

text \<open>
  What an operation of a \<^verbatim>\<open>TcpConnection\<close> depends on and what it changes outside the connection:
  of the poller only the entry of its own descriptor, where it puts nothing but its own address, and
  the queue of the loop only at the end.
  \<open>shareable\<close> is this contract and the collection of that name holds its instances, one for each
  handler, functor and user operation of \<open>TcpConn\<close>.
\<close>

section \<open>What an operation of a connection depends on\<close>

text \<open>Two connections that differ in the poller, but not in what it knows of their descriptor, and in
  functors waiting in front of those of the first.\<close>

definition moved :: "conn_functor list \<Rightarrow> conn \<Rightarrow> conn \<Rightarrow> bool" where
  "moved q c d \<longleftrightarrow> d = c\<lparr>c_poller := c_poller d, c_queue := q @ c_queue c\<rparr>
     \<and> channels (c_poller d) (ch_fd (c_channel c)) = channels (c_poller c) (ch_fd (c_channel c))"

definition footprint :: "conn \<Rightarrow> conn \<Rightarrow> bool" where
  "footprint c c' \<longleftrightarrow> ch_fd (c_channel c') = ch_fd (c_channel c) \<and> ch_addr (c_channel c') = ch_addr (c_channel c)
     \<and> (\<forall>f. f \<noteq> ch_fd (c_channel c) \<longrightarrow> channels (c_poller c') f = channels (c_poller c) f)
     \<and> (\<forall>b. channels (c_poller c') (ch_fd (c_channel c)) = Some b
          \<longrightarrow> b = ch_addr (c_channel c) \<or> channels (c_poller c) (ch_fd (c_channel c)) = Some b)"

definition shareable :: "(conn \<Rightarrow> conn) \<Rightarrow> bool" where
  "shareable h \<longleftrightarrow> (\<forall>q c d. moved q c d \<longrightarrow> moved q (h c) (h d)) \<and> (\<forall>c. footprint c (h c))"

named_theorems shareable

lemma moved_sel:
  assumes "moved q c d"
  shows "c_name d = c_name c" "c_state d = c_state c" "c_channel d = c_channel c"
    "inputBuffer d = inputBuffer c" "outputBuffer d = outputBuffer c" "highWaterMark d = highWaterMark c"
    "has_writeComplete d = has_writeComplete c" "has_highWater d = has_highWater c" "c_sent d = c_sent c"
    "c_received d = c_received c" "c_taken d = c_taken c" "c_wr_shut d = c_wr_shut c" "c_log d = c_log c"
    "c_queue d = q @ c_queue c"
    "channels (c_poller d) (ch_fd (c_channel c)) = channels (c_poller c) (ch_fd (c_channel c))"
proof -
  have d: "d = c\<lparr>c_poller := c_poller d, c_queue := q @ c_queue c\<rparr>" using assms by (simp add: moved_def)
  show "c_name d = c_name c" by (subst d) simp
  show "c_state d = c_state c" by (subst d) simp
  show "c_channel d = c_channel c" by (subst d) simp
  show "inputBuffer d = inputBuffer c" by (subst d) simp
  show "outputBuffer d = outputBuffer c" by (subst d) simp
  show "highWaterMark d = highWaterMark c" by (subst d) simp
  show "has_writeComplete d = has_writeComplete c" by (subst d) simp
  show "has_highWater d = has_highWater c" by (subst d) simp
  show "c_sent d = c_sent c" by (subst d) simp
  show "c_received d = c_received c" by (subst d) simp
  show "c_taken d = c_taken c" by (subst d) simp
  show "c_wr_shut d = c_wr_shut c" by (subst d) simp
  show "c_log d = c_log c" by (subst d) simp
  show "c_queue d = q @ c_queue c" by (subst d) simp
qed (use assms in \<open>simp add: moved_def\<close>)

lemma moved_iff:
  "moved q c d \<longleftrightarrow> c_name d = c_name c \<and> c_state d = c_state c \<and> c_channel d = c_channel c
    \<and> inputBuffer d = inputBuffer c \<and> outputBuffer d = outputBuffer c \<and> highWaterMark d = highWaterMark c
    \<and> has_writeComplete d = has_writeComplete c \<and> has_highWater d = has_highWater c \<and> c_sent d = c_sent c
    \<and> c_received d = c_received c \<and> c_taken d = c_taken c \<and> c_wr_shut d = c_wr_shut c \<and> c_log d = c_log c
    \<and> c_queue d = q @ c_queue c
    \<and> channels (c_poller d) (ch_fd (c_channel c)) = channels (c_poller c) (ch_fd (c_channel c))" (is "?l \<longleftrightarrow> ?r")
proof
  assume ?l
  then show ?r by (intro conjI) (fact moved_sel)+
next
  assume r: ?r
  then have "d = c\<lparr>c_poller := c_poller d, c_queue := q @ c_queue c\<rparr>" by (intro conn.equality) simp_all
  then show ?l using r by (simp add: moved_def)
qed

lemma footprint_trans: "footprint c c' \<Longrightarrow> footprint c' c'' \<Longrightarrow> footprint c c''"
  unfolding footprint_def by metis

lemma shareable_comp: "shareable f \<Longrightarrow> shareable g \<Longrightarrow> shareable (\<lambda>c. g (f c))"
  unfolding shareable_def using footprint_trans by blast

lemma shareable_if:
  assumes "\<And>q c d. moved q c d \<Longrightarrow> P d = P c" and "shareable f" and "shareable g"
  shows "shareable (\<lambda>c. if P c then f c else g c)"
  using assms unfolding shareable_def by (simp split: if_splits)

lemma shareable_fields [shareable]:
  "shareable (\<lambda>c. c)" "shareable (log_event e)" "shareable (queue_functor f)"
  "shareable (\<lambda>c. c\<lparr>c_state := st\<rparr>)" "shareable (\<lambda>c. c\<lparr>c_wr_shut := b\<rparr>)"
  "shareable (\<lambda>c. c\<lparr>c_channel := set_revents r (c_channel c)\<rparr>)"
  "shareable (\<lambda>c. c\<lparr>c_state := st, c_channel := tie (c_channel c)\<rparr>)"
  "shareable connectionCallback"
  by (simp_all add: shareable_def footprint_def moved_iff queue_functor_def log_event_def set_revents_def tie_def
      connectionCallback_def connected_def)

text \<open>The operations of a channel look at the poller only under its own descriptor.\<close>

lemma shareable_channel [shareable]:
  "shareable (with_channel enableReading)" "shareable (with_channel enableWriting)"
  "shareable (with_channel disableWriting)" "shareable (with_channel disableAll)"
  "shareable (with_channel removeChannel)"
  by (simp_all add: shareable_def footprint_def moved_iff with_channel_def channel_ops updateChannel_def
      removeChannel_def poller_update_def Let_def split_beta)

lemma shareableI:
  assumes "\<And>q c d. moved q c d \<Longrightarrow> moved q (h c) (h d)" and "\<And>c. footprint c (h c)"
  shows "shareable h"
  using assms by (simp add: shareable_def)

lemma shareable_moved: "shareable h \<Longrightarrow> moved q c d \<Longrightarrow> moved q (h c) (h d)"
  by (simp add: shareable_def)

lemma shareable_footprint: "shareable h \<Longrightarrow> footprint c (h c)"
  by (simp add: shareable_def)

lemma shareable_upd [shareable]:
  "shareable (\<lambda>c. c\<lparr>outputBuffer := f (outputBuffer c)\<rparr>)"
  "shareable (\<lambda>c. c\<lparr>inputBuffer := f (inputBuffer c), c_received := c_received c @ r\<rparr>)"
  "shareable (\<lambda>c. c\<lparr>inputBuffer := f (inputBuffer c), c_taken := c_taken c @ g (inputBuffer c)\<rparr>)"
  "shareable (\<lambda>c. c\<lparr>c_sent := c_sent c @ g (outputBuffer c), outputBuffer := f (outputBuffer c)\<rparr>)"
  "shareable (\<lambda>c. c\<lparr>c_sent := c_sent c @ x\<rparr>)"
  by (simp_all add: shareable_def footprint_def moved_iff)

lemma shareable_rest [shareable]: "shareable (send_rest s n)"
proof -
  let ?f1 = "\<lambda>c. if highWaterMark c \<le> readableBytes (outputBuffer c) + (length s - n)
      \<and> readableBytes (outputBuffer c) < highWaterMark c \<and> has_highWater c
    then queue_functor (FHighWater (readableBytes (outputBuffer c) + (length s - n))) c else c"
  let ?f2 = "\<lambda>c. c\<lparr>outputBuffer := append_bytes (drop n s) (outputBuffer c)\<rparr>"
  let ?f3 = "\<lambda>c. if isWriting (c_channel c) then c else with_channel enableWriting c"
  have 1: "shareable ?f1"
    by (rule shareableI) (auto simp: moved_iff footprint_def queue_functor_def)
  have 3: "shareable ?f3"
    by (rule shareable_if) (simp_all add: moved_sel shareable)
  have "send_rest s n = (\<lambda>c. ?f3 (?f2 (?f1 c)))"
    by (intro ext) (simp only: send_rest_def Let_def)
  then show ?thesis
    using shareable_comp [OF shareable_comp [OF 1 shareable_upd(1)] 3] by simp
qed

lemma send_direct_moved:
  assumes "moved q c d"
  shows "fst (send_direct s wr d) = fst (send_direct s wr c)"
    and "fst (snd (send_direct s wr d)) = fst (snd (send_direct s wr c))"
    and "moved q (snd (snd (send_direct s wr c))) (snd (snd (send_direct s wr d)))"
    and "footprint c (snd (snd (send_direct s wr c)))"
  using assms by (cases wr; simp add: send_direct_def moved_iff footprint_def Let_def queue_functor_def log_event_def)+

lemma shareable_send [shareable]: "shareable (sendInLoop s wr)"
proof (rule shareableI)
  show "moved q (sendInLoop s wr c) (sendInLoop s wr d)" if m: "moved q c d" for q c d
    using send_direct_moved [OF m, of s wr] shareable_moved [OF shareable_rest] moved_sel(2) [OF m] m
    by (simp add: sendInLoop_def split_beta)
  show "footprint c (sendInLoop s wr c)" for c
  proof -
    have "moved [] c c" by (simp add: moved_iff)
    from send_direct_moved(4) [OF this, of s wr]
    show ?thesis
      using footprint_trans [OF _ shareable_footprint [OF shareable_rest]]
        shareable_footprint [OF shareable_fields(1)]
      by (simp add: sendInLoop_def split_beta)
  qed
qed

text \<open>The handlers.\<close>

lemma shareable_shutdownInLoop [shareable]: "shareable shutdownInLoop"
  unfolding shutdownInLoop_def by (rule shareable_if) (simp_all add: moved_sel shareable)

lemma shareable_handleClose [shareable]: "shareable handleClose"
  unfolding handleClose_def Let_def
  using shareable_comp [OF shareable_comp [OF shareable_comp [OF shareable_fields(4) shareable_channel(4)]
        shareable_fields(8)] shareable_fields(2)] .

lemma shareable_handleRead [shareable]: "shareable (handleRead rd)"
proof -
  let ?r = "case rd of ReadBytes d \<Rightarrow> d | ReadError e \<Rightarrow> []"
  let ?f = "\<lambda>c. c\<lparr>inputBuffer := snd (readFd rd (inputBuffer c)), c_received := c_received c @ ?r\<rparr>"
  have f: "shareable ?f" by (rule shareable_upd(2) [where f = "\<lambda>b. snd (readFd rd b)"])
  have "shareable (\<lambda>c. handleError (log_event Fatal c))"
    unfolding handleError_def using shareable_comp [OF shareable_fields(2) shareable_fields(2)] .
  then have g: "shareable (\<lambda>c. if 0 < fst (readFd rd (inputBuffer c)) then log_event Message (?f c)
      else if fst (readFd rd (inputBuffer c)) = 0 then handleClose (?f c) else handleError (log_event Fatal (?f c)))"
    by (intro shareable_if shareable_comp [OF f] shareable) (simp_all add: moved_sel)
  have "handleRead rd = (\<lambda>c. if 0 < fst (readFd rd (inputBuffer c)) then log_event Message (?f c)
      else if fst (readFd rd (inputBuffer c)) = 0 then handleClose (?f c) else handleError (log_event Fatal (?f c)))"
    by (intro ext) (simp add: handleRead_def split_beta Let_def)
  with g show ?thesis by simp
qed

lemma shareable_handleWrite [shareable]: "shareable (handleWrite wr)"
proof -
  let ?n = "\<lambda>c. writeFd (kernel_write wr) (outputBuffer c)"
  let ?f = "\<lambda>c. c\<lparr>c_sent := c_sent c @ take (nat (?n c)) (readable (outputBuffer c)),
      outputBuffer := snd (retrieve (nat (?n c)) (outputBuffer c))\<rparr>"
  let ?g = "\<lambda>c. (if has_writeComplete c then queue_functor FWriteComplete c else c)"
  let ?h = "\<lambda>c. if c_state c = KDisconnecting then shutdownInLoop c else c"
  have f: "shareable ?f"
    by (rule shareable_upd(4) [where g = "\<lambda>b. take (nat (writeFd (kernel_write wr) b)) (readable b)"
          and f = "\<lambda>b. snd (retrieve (nat (writeFd (kernel_write wr) b)) b)"])
  have g: "shareable ?g" and h: "shareable ?h"
    by (rule shareable_if; simp add: moved_sel shareable)+
  have k: "shareable (\<lambda>c. if readableBytes (outputBuffer c) = 0
      then ?h (?g (with_channel disableWriting c)) else c)"
    by (intro shareable_if shareable_comp [OF shareable_comp [OF shareable_channel(3) g] h] shareable)
       (simp_all add: moved_sel)
  have "handleWrite wr = (\<lambda>c. if isWriting (c_channel c)
      then if ?n c > 0 then (\<lambda>c. if readableBytes (outputBuffer c) = 0
      then ?h (?g (with_channel disableWriting c)) else c) (?f c)
           else log_event Fatal c else log_event Fatal c)"
    by (intro ext) (simp only: handleWrite_def Let_def)
  moreover have "shareable (\<lambda>c. if isWriting (c_channel c)
      then if ?n c > 0 then (\<lambda>c. if readableBytes (outputBuffer c) = 0
      then ?h (?g (with_channel disableWriting c)) else c) (?f c)
           else log_event Fatal c else log_event Fatal c)"
    by (intro shareable_if shareable_comp [OF f k] shareable) (simp_all add: moved_sel)
  ultimately show ?thesis by simp
qed

lemma shareable_destroyed [shareable]: "shareable connectDestroyed"
proof -
  have "shareable (\<lambda>c. if c_state c = KConnected \<or> c_state c = KDisconnecting
      then connectionCallback (c\<lparr>c_state := KDisconnected\<rparr>) else c)"
    by (intro shareable_if shareable_comp [OF shareable_fields(4) shareable_fields(8)] shareable)
       (simp_all add: moved_sel)
  from shareable_comp [OF this shareable_channel(5)] show ?thesis
    unfolding connectDestroyed_def Let_def .
qed

lemma shareable_established [shareable]: "shareable connectEstablished"
  unfolding connectEstablished_def Let_def
  using shareable_comp [OF shareable_comp [OF shareable_fields(7) shareable_channel(1)] shareable_fields(8)] .

lemma shareable_user [shareable]:
  "shareable (conn_send in_loop s wr)" "shareable (shutdown in_loop)" "shareable forceClose"
  "shareable (\<lambda>c. snd (conn_retrieve n c))" "shareable forceCloseInLoop"
proof -
  show "shareable (conn_send in_loop s wr)"
    unfolding conn_send_def by (intro shareable_if shareable) (simp_all add: moved_sel)
  have 1: "shareable (\<lambda>c. if in_loop then shutdownInLoop c else queue_functor FShutdown c)"
    by (intro shareable_if shareable) simp
  have "shareable (\<lambda>c. if c_state c = KConnected then (\<lambda>c. if in_loop then shutdownInLoop c
      else queue_functor FShutdown c) (c\<lparr>c_state := KDisconnecting\<rparr>) else c)"
    by (intro shareable_if shareable_comp [OF _ 1] shareable) (simp_all add: moved_sel)
  then show "shareable (shutdown in_loop)" unfolding shutdown_def Let_def .
  show "shareable forceClose" unfolding forceClose_def
    by (intro shareable_if shareable_comp [OF shareable_fields(4) shareable_fields(3)] shareable)
       (simp_all add: moved_sel)
  have "(\<lambda>c. snd (conn_retrieve n c)) = (\<lambda>c. c\<lparr>inputBuffer := (\<lambda>b. snd (retrieve n b)) (inputBuffer c),
      c_taken := c_taken c @ (\<lambda>b. if fst (retrieve n b) then take n (readable b) else []) (inputBuffer c)\<rparr>)"
    by (intro ext) (simp add: conn_retrieve_def split_beta Let_def)
  then show "shareable (\<lambda>c. snd (conn_retrieve n c))"
    using shareable_upd(3) [where f = "\<lambda>b. snd (retrieve n b)"
        and g = "\<lambda>b. if fst (retrieve n b) then take n (readable b) else []"] by simp
  show "shareable forceCloseInLoop" unfolding forceCloseInLoop_def
    by (intro shareable_if shareable) (simp_all add: moved_sel)
qed

lemma shareable_functor [shareable]: "shareable (run_functor f wr)"
  by (cases f) (simp_all add: run_functor_def shareable)

lemma shareable_handler [shareable]: "shareable (conn_handler rd wr cb)"
  by (cases cb) (simp_all add: conn_handler_def handleError_def [abs_def] shareable)

lemma shareable_guard:
  assumes "\<And>cb. shareable (run cb)"
  shows "shareable (handleEventWithGuard c_channel run)"
proof -
  have fire: "shareable (\<lambda>c. if cond (ch_revents (c_channel c)) \<and> cb \<in> set (ch_cbs (c_channel c))
      then run cb c else c)" for cond cb
    by (intro shareable_if assms shareable) (simp add: moved_sel)
  note s1 = fire [of "\<lambda>r. r AND EPOLLHUP \<noteq> 0 \<and> r AND EPOLLIN = 0" CloseCb]
  note s2 = shareable_comp [OF s1 fire [of "\<lambda>r. r AND EPOLLERR \<noteq> 0" ErrorCb]]
  note s3 = shareable_comp [OF s2 fire [of "\<lambda>r. r AND kReadEvent \<noteq> 0" ReadCb]]
  from shareable_comp [OF s3 fire [of "\<lambda>r. r AND kWriteEvent \<noteq> 0" WriteCb]]
  show ?thesis unfolding handleEventWithGuard_def [abs_def] Let_def .
qed

lemma shareable_dispatch [shareable]: "shareable (conn_dispatch r rd wr)"
proof -
  note g = shareable_guard [of "conn_handler rd wr", OF shareable_handler]
  have "shareable (handleEvent True c_channel (conn_handler rd wr))"
    unfolding handleEvent_def [abs_def] by (intro shareable_if g shareable) (simp_all add: moved_sel)
  from shareable_comp [OF shareable_fields(6) this] show ?thesis
    by (simp add: conn_dispatch_def [abs_def])
qed

end
