(* ===== verification/ConnLoop.thy ===== *)
theory ConnLoop
  imports ConnFrame EventLoop
begin

text \<open>
  Many connections on one \<^verbatim>\<open>EventLoop\<close>. \<open>TcpConn\<close> gives each connection a poller and a queue of its
  own; here the loop has one poller, one queue of functors and one list of active channels for all
  of them, and connections come and go. The steps are those of \<^verbatim>\<open>EventLoop::loop\<close>: the result of
  \<^verbatim>\<open>poll\<close>, one \<^verbatim>\<open>handleEvent\<close> per active channel, the swap of \<^verbatim>\<open>doPendingFunctors\<close> and one functor
  after the other, with the operations of the users between any two of them.

  A channel is the address of its connection's channel, which is its index in \<open>cs_conns\<close> and is
  not used again. The state keeps who holds a \<^verbatim>\<open>shared_ptr\<close> to each connection: its owner
  (\<^verbatim>\<open>TcpServer::connections_\<close>, \<^verbatim>\<open>TcpClient::connection_\<close>), the users who copied the pointer they were
  given, and the functors it is bound in, until the vector that \<^verbatim>\<open>doPendingFunctors\<close> swapped out is
  destroyed. A connection that nobody holds is \<open>Freed\<close>, and touching it is undefined behaviour:
  \<open>None\<close>.
\<close>

section \<open>The loop and its connections\<close>

datatype slot = Alive conn | Freed

datatype loop_fn = FnEstablish nat | FnConn nat conn_functor

datatype conn_phase = InPoll | InEvents "(nat \<times> event_mask) list" | InFunctors "loop_fn list"

record conn_loop =
  cs_conns :: "slot list"
  cs_loop :: "loop_fn eloop"
  cs_phase :: conn_phase
  cs_ran :: "loop_fn list"
  cs_owned :: "nat list"
  cs_users :: "nat list"

definition get_slot :: "conn_loop \<Rightarrow> nat \<Rightarrow> slot" where
  "get_slot s a = (if a < length (cs_conns s) then cs_conns s ! a else Freed)"

text \<open>A connection works on the poller of its loop; what it queues goes behind what waits there.\<close>

definition on_loop :: "poller \<Rightarrow> conn \<Rightarrow> conn" where
  "on_loop p c = c\<lparr>c_poller := p, c_queue := []\<rparr>"

definition with_conn :: "bool \<Rightarrow> nat \<Rightarrow> (conn \<Rightarrow> conn) \<Rightarrow> conn_loop \<Rightarrow> conn_loop option" where
  "with_conn in_loop a h s =
     (case get_slot s a of
        Freed \<Rightarrow> None
      | Alive c \<Rightarrow>
          (let c' = h (on_loop (loop_poller (cs_loop s)) c)
           in Some (s\<lparr>cs_conns := (cs_conns s)[a := Alive c'],
                      cs_loop := fold (queueInLoop in_loop) (map (FnConn a) (c_queue c'))
                        ((cs_loop s)\<lparr>loop_poller := c_poller c'\<rparr>)\<rparr>)))"

definition waiting :: "conn_loop \<Rightarrow> loop_fn list" where
  "waiting s = (case cs_phase s of InFunctors fs \<Rightarrow> fs | _ \<Rightarrow> []) @ pending (cs_loop s)"

fun functors_of :: "nat \<Rightarrow> loop_fn list \<Rightarrow> conn_functor list" where
  "functors_of a [] = []"
| "functors_of a (FnConn b f # fs) = (if b = a then f # functors_of a fs else functors_of a fs)"
| "functors_of a (FnEstablish b # fs) = functors_of a fs"

definition event_ok :: "conn_loop \<Rightarrow> nat \<Rightarrow> bool" where
  "event_ok s a \<longleftrightarrow> a < length (cs_conns s)
     \<and> (case get_slot s a of Freed \<Rightarrow> True
        | Alive c \<Rightarrow> conn_registered (on_loop (loop_poller (cs_loop s)) c))"

definition fd_in_use :: "conn_loop \<Rightarrow> fd \<Rightarrow> bool" where
  "fd_in_use s f \<longleftrightarrow> ch_fd (wakeup_channel (cs_loop s)) = f
     \<or> (\<exists>x \<in> set (cs_conns s). case x of Freed \<Rightarrow> False | Alive c \<Rightarrow> ch_fd (c_channel c) = f)"

text \<open>
  All functors hold a \<^verbatim>\<open>shared_ptr\<close>, bound by \<^verbatim>\<open>shared_from_this()\<close>, but that of \<^verbatim>\<open>shutdown()\<close>,
  which is bound to the plain \<^verbatim>\<open>this\<close>. \<open>cs_ran\<close> are those of the current round that have run.
\<close>

definition held :: "conn_loop \<Rightarrow> nat \<Rightarrow> bool" where
  "held s a \<longleftrightarrow> a \<in> set (cs_owned s) \<or> a \<in> set (cs_users s)
     \<or> FnEstablish a \<in> set (cs_ran s @ waiting s)
     \<or> list_ex (\<lambda>f. f \<noteq> FShutdown) (functors_of a (cs_ran s @ waiting s))"

definition drop_unheld :: "conn_loop \<Rightarrow> conn_loop" where
  "drop_unheld s =
     s\<lparr>cs_conns := map (\<lambda>a. if held s a then cs_conns s ! a else Freed) [0..<length (cs_conns s)]\<rparr>"

text \<open>
  What \<^verbatim>\<open>epoll_wait\<close> may report: a registered channel; and, of a connection that is gone, a channel
  that nobody removed from the poller. The destructor of the channel closes the descriptor, but that
  ends the registration only if no duplicate of it is open.
\<close>

definition may_report :: "conn_loop \<Rightarrow> nat \<Rightarrow> bool" where
  "may_report s a \<longleftrightarrow> a < length (cs_conns s) \<and>
     (let p = loop_poller (cs_loop s) in
      case get_slot s a of
        Alive c \<Rightarrow> conn_registered (on_loop p c)
      | Freed \<Rightarrow> list_ex (\<lambda>call. ctl_fd call \<noteq> ch_fd (wakeup_channel (cs_loop s))
                   \<and> channels p (ctl_fd call) = Some a) (ctl_log p))"

definition in_active :: "conn_loop \<Rightarrow> nat \<Rightarrow> bool" where
  "in_active s a = (case cs_phase s of InEvents reports \<Rightarrow> a \<in> set (map fst reports) | _ \<Rightarrow> False)"

text \<open>The owner gives its pointer up to the functor it queues, or runs at once.\<close>

definition owner_lets_go :: "conn_op \<Rightarrow> nat \<Rightarrow> conn_loop \<Rightarrow> conn_loop" where
  "owner_lets_go op a s =
     (if op = OwnerDestroysInLoop \<or> op = OwnerDestroys \<and> FDestroyed \<in> set (functors_of a (waiting s))
      then s\<lparr>cs_owned := removeAll a (cs_owned s)\<rparr> else s)"

datatype loop_op = NewConn bool string fd bool bool | Polled "(nat \<times> event_mask) list"
  | HandleNext read_result write_result | SwapFunctors | RunNext write_result | FinishFunctors
  | UserOp bool nat conn_op | UserKeeps nat | UserDrops nat

text \<open>
  What a user may call, and from which thread. A user calls through a pointer of its own or the one
  its callback was given; so it is enough that the connection exists.
\<close>

fun user_call :: "bool \<Rightarrow> conn_op \<Rightarrow> bool" where
  "user_call th (UserSend in_loop s wr) = (in_loop = th)"
| "user_call th (UserShutdown in_loop) = (in_loop = th)"
| "user_call th UserForceClose = True"
| "user_call th (UserRetrieve n) = th"
| "user_call th OwnerDestroys = True"
| "user_call th OwnerDestroysInLoop = th"
| "user_call th _ = False"

text \<open>
  An owner that a handler destroys while an event of its connection waits in the list of active
  channels leaves that list with a channel that was removed, and dangles if no user kept the
  connection: the model does not follow it further.
\<close>

fun conn_loop_act :: "loop_op \<Rightarrow> conn_loop \<Rightarrow> conn_loop option" where
  "conn_loop_act (NewConn in_loop name f wc hw) s =
     (if fd_in_use s f then Some s
      else let a = length (cs_conns s);
               c = new_conn name (new_channel a f) (loop_poller (cs_loop s)) wc hw;
               s' = s\<lparr>cs_conns := cs_conns s @ [Alive c], cs_owned := a # cs_owned s\<rparr>
           in if in_loop then with_conn True a connectEstablished s'
              else Some (s'\<lparr>cs_loop := queueInLoop False (FnEstablish a) (cs_loop s')\<rparr>))"
| "conn_loop_act (Polled reports) s =
     Some (if cs_phase s = InPoll \<and> distinct (map fst reports) \<and> list_all (may_report s) (map fst reports)
           then s\<lparr>cs_phase := InEvents reports\<rparr> else s)"
| "conn_loop_act (HandleNext rd wr) s =
     (case cs_phase s of
        InEvents ((a, r) # reports) \<Rightarrow>
          with_conn True a (conn_dispatch r rd wr) (s\<lparr>cs_phase := InEvents reports\<rparr>)
      | _ \<Rightarrow> Some s)"
| "conn_loop_act SwapFunctors s =
     Some (case cs_phase s of
             InEvents [] \<Rightarrow> s\<lparr>cs_loop := (cs_loop s)\<lparr>calling := True, pending := []\<rparr>,
                             cs_phase := InFunctors (pending (cs_loop s))\<rparr>
           | _ \<Rightarrow> s)"
| "conn_loop_act (RunNext wr) s =
     (case cs_phase s of
        InFunctors (FnEstablish a # fs) \<Rightarrow>
          with_conn True a connectEstablished (s\<lparr>cs_phase := InFunctors fs, cs_ran := cs_ran s @ [FnEstablish a]\<rparr>)
      | InFunctors (FnConn a f # fs) \<Rightarrow>
          with_conn True a (run_functor f wr) (s\<lparr>cs_phase := InFunctors fs, cs_ran := cs_ran s @ [FnConn a f]\<rparr>)
      | _ \<Rightarrow> Some s)"
| "conn_loop_act FinishFunctors s =
     Some (case cs_phase s of
             InFunctors [] \<Rightarrow> s\<lparr>cs_loop := (cs_loop s)\<lparr>calling := False\<rparr>, cs_phase := InPoll, cs_ran := []\<rparr>
           | _ \<Rightarrow> s)"
| "conn_loop_act (UserOp th a op) s =
     (if user_call th op \<and> get_slot s a \<noteq> Freed
      then if op = OwnerDestroysInLoop \<and> in_active s a then None
           else map_option (owner_lets_go op a) (with_conn th a (conn_apply op) s)
      else Some s)"
| "conn_loop_act (UserKeeps a) s =
     Some (if get_slot s a \<noteq> Freed then s\<lparr>cs_users := a # cs_users s\<rparr> else s)"
| "conn_loop_act (UserDrops a) s = Some (s\<lparr>cs_users := remove1 a (cs_users s)\<rparr>)"

definition conn_loop_step :: "loop_op \<Rightarrow> conn_loop \<Rightarrow> conn_loop option" where
  "conn_loop_step op s = map_option drop_unheld (conn_loop_act op s)"

fun conn_loop_run :: "loop_op list \<Rightarrow> conn_loop \<Rightarrow> conn_loop option" where
  "conn_loop_run [] s = Some s"
| "conn_loop_run (op # ops) s = Option.bind (conn_loop_step op s) (conn_loop_run ops)"

definition start_conn_loop :: "nat \<Rightarrow> fd \<Rightarrow> int \<Rightarrow> conn_loop" where
  "start_conn_loop wakeup_addr wakeup_fd now =
     \<lparr>cs_conns = [], cs_loop = new_loop wakeup_addr wakeup_fd now, cs_phase = InPoll, cs_ran = [],
      cs_owned = [], cs_users = []\<rparr>"

section \<open>What belongs to one connection\<close>

text \<open>The operations of connection \<open>a\<close> among the steps of a loop, in their order: its life.\<close>

fun ops_of :: "nat \<Rightarrow> loop_op \<Rightarrow> conn_loop \<Rightarrow> conn_op list" where
  "ops_of a (NewConn in_loop name f wc hw) s =
     (if in_loop \<and> \<not> fd_in_use s f \<and> a = length (cs_conns s) then [Establish] else [])"
| "ops_of a (HandleNext rd wr) s =
     (case cs_phase s of InEvents ((b, r) # reports) \<Rightarrow> if b = a then [Report r rd wr] else [] | _ \<Rightarrow> [])"
| "ops_of a (RunNext wr) s =
     (case cs_phase s of
        InFunctors (FnEstablish b # fs) \<Rightarrow> if b = a then [Establish] else []
      | InFunctors (FnConn b f # fs) \<Rightarrow> if b = a then [RunQueued wr] else []
      | _ \<Rightarrow> [])"
| "ops_of a (UserOp th b op) s = (if user_call th op \<and> get_slot s b \<noteq> Freed \<and> b = a then [op] else [])"
| "ops_of a _ s = []"

fun life_of :: "nat \<Rightarrow> loop_op list \<Rightarrow> conn_loop \<Rightarrow> conn_op list" where
  "life_of a [] s = []"
| "life_of a (op # ops) s =
     ops_of a op s @ (case conn_loop_step op s of None \<Rightarrow> [] | Some s' \<Rightarrow> life_of a ops s')"

lemma conn_run_append: "fst (conn_run (xs @ ys) c) = fst (conn_run ys (fst (conn_run xs c)))"
  by (induction xs arbitrary: c) (simp_all add: split_beta)

lemma functors_append [simp]: "functors_of a (xs @ ys) = functors_of a xs @ functors_of a ys"
  by (induction xs rule: functors_of.induct) simp_all

lemma functors_map [simp]: "functors_of a (map (FnConn b) fs) = (if b = a then fs else [])"
  by (cases "b = a"; induction fs) simp_all

lemma no_establish [simp]: "count_list (map (FnConn b) fs) (FnEstablish a) = 0"
  by (induction fs) simp_all

lemma fold_queue_sel [simp]:
  "pending (fold (queueInLoop th) fs l) = pending l @ fs"
  "loop_poller (fold (queueInLoop th) fs l) = loop_poller l"
  "wakeup_channel (fold (queueInLoop th) fs l) = wakeup_channel l"
  by (induction fs arbitrary: l) (simp_all add: queueInLoop_def enqueue_def wakeup_def Let_def)

text \<open>The invariant, seen from one connection: its life on a loop of its own, whose queue is what
  waits for it here; one \<^verbatim>\<open>connectEstablished\<close> at most, and only while it connects.\<close>

definition conn_fine :: "nat \<Rightarrow> conn_op list \<Rightarrow> poller \<Rightarrow> loop_fn list \<Rightarrow> conn \<Rightarrow> bool" where
  "conn_fine a ops p w c \<longleftrightarrow>
     (\<exists>nm p0 wc hw. moved (functors_of a w) (on_loop p c)
        (fst (conn_run ops (new_conn nm (new_channel a (ch_fd (c_channel c))) p0 wc hw))))
     \<and> count_list w (FnEstablish a) \<le> (if c_state c = KConnecting then 1 else 0)
     \<and> (c_state c = KConnecting \<longrightarrow> ch_state (c_channel c) = KNew \<and> functors_of a w = [])"

definition slots_fine :: "(nat \<Rightarrow> conn_op list) \<Rightarrow> poller \<Rightarrow> loop_fn list \<Rightarrow> slot list \<Rightarrow> bool" where
  "slots_fine L p w xs \<longleftrightarrow>
     (\<forall>a. if a < length xs
          then case xs ! a of
                 Alive c \<Rightarrow> conn_fine a (L a) p w c
               | Freed \<Rightarrow> FnEstablish a \<notin> set w \<and> list_all (\<lambda>f. f = FShutdown) (functors_of a w)
          else FnEstablish a \<notin> set w \<and> functors_of a w = [] \<and> L a = [])"

definition own_fds :: "slot list \<Rightarrow> bool" where
  "own_fds xs \<longleftrightarrow> (\<forall>a b c d. a < length xs \<longrightarrow> b < length xs \<longrightarrow> xs ! a = Alive c \<longrightarrow> xs ! b = Alive d
     \<longrightarrow> ch_fd (c_channel c) = ch_fd (c_channel d) \<longrightarrow> a = b)"

definition active_fine :: "conn_loop \<Rightarrow> bool" where
  "active_fine s \<longleftrightarrow> (case cs_phase s of
     InEvents rs \<Rightarrow> distinct (map fst rs) \<and> list_all (event_ok s) (map fst rs) | _ \<Rightarrow> True)"

definition loop_inv :: "(nat \<Rightarrow> conn_op list) \<Rightarrow> conn_loop \<Rightarrow> bool" where
  "loop_inv L s \<longleftrightarrow> slots_fine L (loop_poller (cs_loop s)) (waiting s) (cs_conns s)
     \<and> own_fds (cs_conns s) \<and> active_fine s"

lemma slots_fineD:
  assumes "slots_fine L p w xs"
  shows "a < length xs \<Longrightarrow> xs ! a = Alive c \<Longrightarrow> conn_fine a (L a) p w c"
    and "a < length xs \<Longrightarrow> xs ! a = Freed \<Longrightarrow> FnEstablish a \<notin> set w \<and> list_all (\<lambda>f. f = FShutdown) (functors_of a w)"
    and "length xs \<le> a \<Longrightarrow> FnEstablish a \<notin> set w \<and> functors_of a w = [] \<and> L a = []"
  using assms [unfolded slots_fine_def, THEN spec [of _ a]] by (auto simp: not_less)

text \<open>One slot changes: the others see the same functors and the same entry of the poller.\<close>

lemma conn_fine_frame:
  assumes "conn_fine a ops p w c"
    and "functors_of a w' = functors_of a w" and "count_list w' (FnEstablish a) \<le> count_list w (FnEstablish a)"
    and "channels p' (ch_fd (c_channel c)) = channels p (ch_fd (c_channel c))"
  shows "conn_fine a ops p' w' c"
  using assms by (auto simp: conn_fine_def moved_iff on_loop_def)

lemma count_in: "count_list w x \<le> count_list w' x \<Longrightarrow> x \<notin> set w' \<Longrightarrow> x \<notin> set w"
  by (metis count_notin count_list_0_iff le_zero_eq)

lemma slots_fine_update:
  assumes fine: "slots_fine L p w xs" and own: "own_fds xs"
    and a: "a < length xs" "xs ! a = Alive c" and c': "conn_fine a (L' a) p' w' c'"
    and other: "\<And>b. b \<noteq> a \<Longrightarrow> functors_of b w' = functors_of b w
        \<and> count_list w' (FnEstablish b) \<le> count_list w (FnEstablish b) \<and> L' b = L b"
    and p': "\<And>f. f \<noteq> ch_fd (c_channel c) \<Longrightarrow> channels p' f = channels p f"
  shows "slots_fine L' p' w' (xs[a := Alive c'])"
  unfolding slots_fine_def
proof (intro allI)
  fix b
  consider "b = a" | "b \<noteq> a" "b < length xs" | "b \<noteq> a" "length xs \<le> b" by linarith
  then show "if b < length (xs[a := Alive c'])
      then case xs[a := Alive c'] ! b of Alive x \<Rightarrow> conn_fine b (L' b) p' w' x
         | Freed \<Rightarrow> FnEstablish b \<notin> set w' \<and> list_all (\<lambda>f. f = FShutdown) (functors_of b w')
      else FnEstablish b \<notin> set w' \<and> functors_of b w' = [] \<and> L' b = []"
  proof cases
    case 1
    then show ?thesis using a c' by simp
  next
    case 2
    show ?thesis
    proof (cases "xs ! b")
      case (Alive x)
      have "ch_fd (c_channel x) \<noteq> ch_fd (c_channel c)"
        using own a 2 Alive unfolding own_fds_def by metis
      then have "conn_fine b (L' b) p' w' x"
        using conn_fine_frame [OF slots_fineD(1) [OF fine 2(2) Alive], of w' p'] other [OF 2(1)] p' by simp
      then show ?thesis using 2 Alive by simp
    next
      case Freed
      then show ?thesis using 2 other [OF 2(1)] slots_fineD(2) [OF fine 2(2) Freed] count_in [of w' _ w] by simp
    qed
  next
    case 3
    then show ?thesis using other [OF 3(1)] slots_fineD(3) [OF fine 3(2)] count_in [of w' _ w] by simp
  qed
qed

text \<open>One operation of one connection.\<close>

lemma moved_life:
  assumes "moved q (on_loop p c) d" and "shareable h"
  shows "moved (q @ c_queue (h (on_loop p c))) (on_loop (c_poller (h (on_loop p c))) (h (on_loop p c))) (h d)"
  using shareable_moved [OF assms(2,1)] by (simp add: moved_iff on_loop_def)

lemma conn_fine_step:
  assumes fine: "conn_fine a ops p w c" and h: "shareable h"
    and ideal: "\<And>d. moved (functors_of a w) (on_loop p c) d
      \<Longrightarrow> moved (functors_of a w1) (on_loop p c) (g d) \<and> conn_apply op d = h (g d)"
    and c': "c' = h (on_loop p c)"
    and count: "count_list w1 (FnEstablish a) \<le> (if c_state c' = KConnecting then 1 else 0)"
    and conn: "c_state c' = KConnecting \<Longrightarrow> ch_state (c_channel c') = KNew \<and> functors_of a w1 @ c_queue c' = []"
  shows "conn_fine a (ops @ [op]) (c_poller c') (w1 @ map (FnConn a) (c_queue c')) c'"
proof -
  obtain nm p0 wc hw where
    m: "moved (functors_of a w) (on_loop p c)
      (fst (conn_run ops (new_conn nm (new_channel a (ch_fd (c_channel c))) p0 wc hw)))" (is "moved _ _ ?d")
    using fine by (auto simp: conn_fine_def)
  have "moved (functors_of a w1 @ c_queue c') (on_loop (c_poller c') c') (conn_apply op ?d)"
    using moved_life [OF _ h] ideal [OF m] by (simp add: c')
  moreover have "ch_fd (c_channel c') = ch_fd (c_channel c)"
    using shareable_footprint [OF h, of "on_loop p c"] by (simp add: footprint_def c' on_loop_def)
  ultimately show ?thesis
    using count conn by (auto simp: conn_fine_def conn_run_append)
qed

lemma get_slot_AliveD: "get_slot s a = Alive c \<Longrightarrow> a < length (cs_conns s) \<and> cs_conns s ! a = Alive c"
  by (simp add: get_slot_def split: if_splits)

lemma own_fds_update:
  assumes "own_fds xs" and "a < length xs" and "xs ! a = Alive c" and "ch_fd (c_channel c') = ch_fd (c_channel c)"
  shows "own_fds (xs[a := Alive c'])"
proof -
  have alive: "\<exists>y. xs ! b = Alive y \<and> ch_fd (c_channel y) = ch_fd (c_channel x)"
    if "xs[a := Alive c'] ! b = Alive x" for b x
    using that assms(2-4) by (cases "b = a") auto
  show ?thesis unfolding own_fds_def
    using assms(1) alive by (simp add: own_fds_def) metis
qed

lemma with_conn_result:
  assumes on: "with_conn th a h s = Some s'" and h: "shareable h"
  obtains c c' where "get_slot s a = Alive c" and "c' = h (on_loop (loop_poller (cs_loop s)) c)"
    and "cs_conns s' = (cs_conns s)[a := Alive c']" and "loop_poller (cs_loop s') = c_poller c'"
    and "waiting s' = waiting s @ map (FnConn a) (c_queue c')" and "cs_phase s' = cs_phase s"
    and "ch_fd (c_channel c') = ch_fd (c_channel c)"
    and "\<And>f. f \<noteq> ch_fd (c_channel c) \<Longrightarrow> channels (c_poller c') f = channels (loop_poller (cs_loop s)) f"
proof -
  obtain c where c: "get_slot s a = Alive c"
    using on by (auto simp: with_conn_def split: slot.splits)
  let ?c' = "h (on_loop (loop_poller (cs_loop s)) c)"
  show thesis
    using that [OF c refl] on shareable_footprint [OF h, of "on_loop (loop_poller (cs_loop s)) c"]
    by (force simp: with_conn_def c Let_def waiting_def footprint_def on_loop_def split: conn_phase.splits)
qed

lemma with_conn_phase: "with_conn th a h s = Some s' \<Longrightarrow> cs_phase s' = cs_phase s"
  by (auto simp: with_conn_def Let_def split: slot.splits)

lemma with_conn_slots:
  assumes fine: "slots_fine L (loop_poller (cs_loop s)) w (cs_conns s)" and own: "own_fds (cs_conns s)"
    and other: "\<And>b. b \<noteq> a \<Longrightarrow> functors_of b (waiting s) = functors_of b w
        \<and> count_list (waiting s) (FnEstablish b) \<le> count_list w (FnEstablish b) \<and> L' b = L b"
    and h: "shareable h" and on: "with_conn th a h s = Some s'"
    and step: "\<And>c c'. get_slot s a = Alive c \<Longrightarrow> conn_fine a (L a) (loop_poller (cs_loop s)) w c
      \<Longrightarrow> c' = h (on_loop (loop_poller (cs_loop s)) c)
      \<Longrightarrow> conn_fine a (L' a) (c_poller c') (waiting s @ map (FnConn a) (c_queue c')) c'"
  shows "slots_fine L' (loop_poller (cs_loop s')) (waiting s') (cs_conns s') \<and> own_fds (cs_conns s')"
proof (rule with_conn_result [OF on h])
  fix c c'
  assume r: "get_slot s a = Alive c" "c' = h (on_loop (loop_poller (cs_loop s)) c)"
    "cs_conns s' = (cs_conns s)[a := Alive c']" "loop_poller (cs_loop s') = c_poller c'"
    "waiting s' = waiting s @ map (FnConn a) (c_queue c')" "cs_phase s' = cs_phase s"
    "ch_fd (c_channel c') = ch_fd (c_channel c)"
    "\<And>f. f \<noteq> ch_fd (c_channel c) \<Longrightarrow> channels (c_poller c') f = channels (loop_poller (cs_loop s)) f"
  note a = get_slot_AliveD [OF r(1)]
  have "conn_fine a (L a) (loop_poller (cs_loop s)) w c" using slots_fineD(1) [OF fine] a by blast
  from step [OF r(1) this r(2)]
  have "slots_fine L' (c_poller c') (waiting s') ((cs_conns s)[a := Alive c'])"
    using a other r(8) unfolding r(5)
    by (intro slots_fine_update [OF fine own]) auto
  then show ?thesis
    using own_fds_update [OF own] a r(7) by (simp add: r(3,4))
qed

text \<open>What is active stays registered: the other connections keep their entry of the poller.\<close>

lemma with_conn_registered:
  assumes own: "own_fds (cs_conns s)" and h: "shareable h" and on: "with_conn th a h s = Some s'"
    and b: "event_ok s b"
    and same: "\<And>c. b = a \<Longrightarrow> conn_registered c \<Longrightarrow> conn_registered (h c)"
  shows "event_ok s' b"
proof (rule with_conn_result [OF on h])
  fix c c'
  assume r: "get_slot s a = Alive c" "c' = h (on_loop (loop_poller (cs_loop s)) c)"
    "cs_conns s' = (cs_conns s)[a := Alive c']" "loop_poller (cs_loop s') = c_poller c'"
    "\<And>f. f \<noteq> ch_fd (c_channel c) \<Longrightarrow> channels (c_poller c') f = channels (loop_poller (cs_loop s)) f"
  show ?thesis
  proof (cases "b = a")
    case True
    then have "conn_registered (on_loop (loop_poller (cs_loop s)) c)"
      using b r(1) by (simp add: event_ok_def)
    then have "conn_registered c'" using same True r(2) by simp
    then show ?thesis
      using get_slot_AliveD [OF r(1)] True
      by (simp add: event_ok_def get_slot_def r(3,4) conn_registered_def on_loop_def)
  next
    case False
    show ?thesis
    proof (cases "get_slot s b")
      case (Alive x)
      then have "ch_fd (c_channel x) \<noteq> ch_fd (c_channel c)"
        using own get_slot_AliveD [OF r(1)] get_slot_AliveD [OF Alive] False unfolding own_fds_def by metis
      then show ?thesis
        using get_slot_AliveD [OF Alive] b Alive False r(5)
        by (simp add: event_ok_def get_slot_def r(3,4) conn_registered_def on_loop_def hasChannel_def)
    next
      case Freed
      then show ?thesis using b False by (simp add: event_ok_def get_slot_def r(3))
    qed
  qed
qed

text \<open>What a user may call on a connection.\<close>

lemma shareable_apply: "user_call th op \<Longrightarrow> shareable (conn_apply op)"
proof (cases op)
  case OwnerDestroys
  then show ?thesis
    by (auto intro!: shareableI simp: moved_iff footprint_def queue_functor_def)
qed (simp_all add: conn_apply.simps [abs_def] shareable)

lemma sendInLoop_registered:
  assumes "conn_registered c"
  shows "conn_registered (sendInLoop s wr c)"
proof -
  have k: "e OR kWriteEvent \<noteq> kNoneEvent" for e :: event_mask
    by (simp add: kNoneEvent_def kWriteEvent_def EPOLLOUT_def bit_eq_iff [where ?'a = "32 word"] bit_or_iff)
       (auto simp: bit_simps intro!: exI [of _ 2])
  have e: "conn_registered (with_channel enableWriting x)" if "conn_registered x" for x
    using that k by (simp add: conn_registered_def with_channel_def enableWriting_def updateChannel_def
        isNoneEvent_def poller_update_def hasChannel_def Let_def split_beta)
  have d: "conn_registered (snd (snd (send_direct s wr c)))"
    using assms by (cases wr) (simp_all add: send_direct_def conn_registered_def Let_def)
  have r: "conn_registered (send_rest s n x)" if "conn_registered x" for n x
    using e [of "x\<lparr>outputBuffer := _\<rparr>"] e [of "(queue_functor _ x)\<lparr>outputBuffer := _\<rparr>"] that
    by (simp add: send_rest_def conn_registered_def Let_def queue_functor_def)
  show ?thesis using d r assms by (simp add: sendInLoop_def split_beta)
qed

lemma user_registered:
  "user_call th op \<Longrightarrow> op \<noteq> OwnerDestroysInLoop \<Longrightarrow> conn_registered c \<Longrightarrow> conn_registered (conn_apply op c)"
  using sendInLoop_registered [of c]
  by (cases op) (auto simp: conn_send_def shutdown_def shutdownInLoop_def forceClose_def conn_retrieve_def
      conn_registered_def queue_functor_def split_beta Let_def)

lemma user_connecting:
  assumes "user_call th op"
  shows "c_state (conn_apply op c) = KConnecting \<longleftrightarrow> c_state c = KConnecting"
    and "c_state c = KConnecting \<Longrightarrow> c_channel (conn_apply op c) = c_channel c \<and> c_queue (conn_apply op c) = c_queue c"
proof -
  show "c_state c = KConnecting \<Longrightarrow> c_channel (conn_apply op c) = c_channel c \<and> c_queue (conn_apply op c) = c_queue c"
    using assms by (cases op) (simp_all add: conn_send_def shutdown_def forceClose_def conn_retrieve_def
        connectDestroyed_def removeChannel_def split_beta Let_def)
  have "c_state c = KConnecting \<Longrightarrow> c_state (conn_apply op c) = KConnecting"
    using assms by (cases op) (simp_all add: conn_send_def shutdown_def forceClose_def conn_retrieve_def
        connectDestroyed_def removeChannel_def split_beta Let_def)
  then show "c_state (conn_apply op c) = KConnecting \<longleftrightarrow> c_state c = KConnecting"
    using established_forever [of c op] by blast
qed

lemma functor_established: "c_state c \<noteq> KConnecting \<Longrightarrow> c_state (run_functor f wr c) \<noteq> KConnecting"
  using established_forever [of "c\<lparr>c_queue := [f]\<rparr>" "RunQueued wr"] functor_state [of f wr c] by auto

section \<open>Every step keeps the connections apart\<close>

lemma inv_user:
  assumes inv: "loop_inv L s" and call: "user_call th op" and on: "with_conn th a (conn_apply op) s = Some s'"
    and idle: "op = OwnerDestroysInLoop \<Longrightarrow> \<not> in_active s a"
  shows "loop_inv (L(a := L a @ [op])) s'"
proof -
  let ?p = "loop_poller (cs_loop s)"
  note h = shareable_apply [OF call]
  have fine: "slots_fine L ?p (waiting s) (cs_conns s)" and own: "own_fds (cs_conns s)" and act: "active_fine s"
    using inv by (simp_all add: loop_inv_def)
  have "conn_fine a ((L(a := L a @ [op])) a) (c_poller c') (waiting s @ map (FnConn a) (c_queue c')) c'"
    if c: "conn_fine a (L a) ?p (waiting s) c" and c': "c' = conn_apply op (on_loop ?p c)" for c c'
  proof -
    have "count_list (waiting s) (FnEstablish a) \<le> (if c_state c' = KConnecting then 1 else 0)"
      using c user_connecting [OF call, of "on_loop ?p c"] by (simp add: conn_fine_def c' on_loop_def)
    moreover have "ch_state (c_channel c') = KNew \<and> functors_of a (waiting s) @ c_queue c' = []"
      if "c_state c' = KConnecting"
      using c that user_connecting [OF call, of "on_loop ?p c"] by (simp add: conn_fine_def c' on_loop_def)
    ultimately show ?thesis
      using conn_fine_step [OF c h, of "waiting s" "\<lambda>d. d" op c'] c' by simp
  qed
  then have "slots_fine (L(a := L a @ [op])) (loop_poller (cs_loop s')) (waiting s') (cs_conns s')
      \<and> own_fds (cs_conns s')"
    by (intro with_conn_slots [OF fine own _ h on]) simp_all
  moreover have "active_fine s'"
  proof -
    have "event_ok s' b" if "event_ok s b" "in_active s b" for b
      using with_conn_registered [OF own h on that(1)] user_registered [OF call] idle that(2) by blast
    moreover have "cs_phase s' = cs_phase s"
      by (rule with_conn_phase [OF on])
    ultimately show ?thesis
      using act by (auto simp: active_fine_def in_active_def list_all_iff split: conn_phase.splits)
  qed
  ultimately show ?thesis by (simp add: loop_inv_def)
qed

lemma waiting_phase:
  "waiting (s\<lparr>cs_phase := InEvents rs\<rparr>) = pending (cs_loop s)"
  "waiting (s\<lparr>cs_phase := InFunctors fs\<rparr>) = fs @ pending (cs_loop s)"
  "get_slot (s\<lparr>cs_phase := ph\<rparr>) a = get_slot s a"
  "event_ok (s\<lparr>cs_phase := ph\<rparr>) a = event_ok s a"
  "waiting (s\<lparr>cs_phase := InFunctors fs, cs_ran := rs'\<rparr>) = fs @ pending (cs_loop s)"
  "get_slot (s\<lparr>cs_phase := ph, cs_ran := rs'\<rparr>) a = get_slot s a"
  by (simp_all add: waiting_def get_slot_def event_ok_def cong: slot.case_cong)

lemma moved_registered: "moved q (on_loop p c) d \<Longrightarrow> conn_registered d = conn_registered (on_loop p c)"
  by (simp add: conn_registered_def hasChannel_def moved_iff)

lemma inv_handle:
  assumes inv: "loop_inv L s" and ph: "cs_phase s = InEvents ((a, r) # rs)"
    and on: "with_conn True a (conn_dispatch r rd wr) (s\<lparr>cs_phase := InEvents rs\<rparr>) = Some s'"
  shows "loop_inv (L(a := L a @ [Report r rd wr])) s'"
proof -
  let ?s = "s\<lparr>cs_phase := InEvents rs\<rparr>"
  let ?p = "loop_poller (cs_loop s)"
  have h: "shareable (conn_dispatch r rd wr)" by (rule shareable)
  have w: "waiting ?s = waiting s" by (simp add: waiting_def ph)
  have fine: "slots_fine L (loop_poller (cs_loop ?s)) (waiting s) (cs_conns ?s)" and own: "own_fds (cs_conns ?s)"
    and act: "active_fine s" using inv by (simp_all add: loop_inv_def)
  have reg: "event_ok s a" and rs: "distinct (map fst rs)" "a \<notin> set (map fst rs)"
      "\<And>b. b \<in> set (map fst rs) \<Longrightarrow> event_ok s b"
    using act by (auto simp: active_fine_def ph list_all_iff)
  have "conn_fine a ((L(a := L a @ [Report r rd wr])) a) (c_poller c') (waiting ?s @ map (FnConn a) (c_queue c')) c'"
    if sl: "get_slot ?s a = Alive c" and c: "conn_fine a (L a) ?p (waiting s) c"
      and c': "c' = conn_dispatch r rd wr (on_loop ?p c)" for c c'
  proof -
    have creg: "conn_registered (on_loop ?p c)"
      using reg sl by (simp add: event_ok_def waiting_phase)
    then have st: "c_state c \<noteq> KConnecting"
      using c by (auto simp: conn_registered_def conn_fine_def on_loop_def)
    then have st': "c_state c' \<noteq> KConnecting"
      using dispatch_state [of r rd wr "on_loop ?p c"] by (auto simp: c' on_loop_def)
    then show ?thesis
      using conn_fine_step [OF c h, of "waiting s" "\<lambda>d. d" "Report r rd wr" c'] c c' st creg moved_registered
      by (simp add: w conn_fine_def)
  qed
  then have "slots_fine (L(a := L a @ [Report r rd wr])) (loop_poller (cs_loop s')) (waiting s') (cs_conns s')
      \<and> own_fds (cs_conns s')"
    by (intro with_conn_slots [OF fine own _ h on]) (simp_all add: w)
  moreover have "active_fine s'"
  proof -
    have "event_ok s' b" if "b \<in> set (map fst rs)" for b
    proof -
      have "event_ok ?s b" using rs(3) [OF that] by (simp add: waiting_phase)
      then show ?thesis using with_conn_registered [OF own h on] that rs(2) by blast
    qed
    moreover have "cs_phase s' = InEvents rs" using with_conn_phase [OF on] by simp
    ultimately show ?thesis using rs(1) by (simp add: active_fine_def list_all_iff)
  qed
  ultimately show ?thesis by (simp add: loop_inv_def)
qed

lemma inv_run:
  assumes inv: "loop_inv L s" and ph: "cs_phase s = InFunctors (FnConn a f # fs)"
    and on: "with_conn True a (run_functor f wr) (s\<lparr>cs_phase := InFunctors fs, cs_ran := rs\<rparr>) = Some s'"
  shows "loop_inv (L(a := L a @ [RunQueued wr])) s'"
proof -
  let ?s = "s\<lparr>cs_phase := InFunctors fs, cs_ran := rs\<rparr>"
  let ?p = "loop_poller (cs_loop s)"
  have h: "shareable (run_functor f wr)" by (rule shareable)
  have w: "waiting s = FnConn a f # waiting ?s" by (simp add: waiting_def ph)
  have fine: "slots_fine L (loop_poller (cs_loop ?s)) (waiting s) (cs_conns ?s)" and own: "own_fds (cs_conns ?s)"
    using inv by (simp_all add: loop_inv_def)
  have "conn_fine a ((L(a := L a @ [RunQueued wr])) a) (c_poller c') (waiting ?s @ map (FnConn a) (c_queue c')) c'"
    if c: "conn_fine a (L a) ?p (waiting s) c" and c': "c' = run_functor f wr (on_loop ?p c)" for c c'
  proof -
    have st: "c_state c \<noteq> KConnecting" using c by (auto simp: conn_fine_def w)
    then have st': "c_state c' \<noteq> KConnecting"
      using functor_established [of "on_loop ?p c" f wr] by (simp add: c' on_loop_def)
    have "moved (functors_of a (waiting ?s)) (on_loop ?p c) (d\<lparr>c_queue := functors_of a (waiting ?s)\<rparr>)
        \<and> conn_apply (RunQueued wr) d = run_functor f wr (d\<lparr>c_queue := functors_of a (waiting ?s)\<rparr>)"
      if "moved (functors_of a (waiting s)) (on_loop ?p c) d" for d
      using that by (simp add: w moved_iff on_loop_def)
    from conn_fine_step [OF c h this c'] st st' c show ?thesis
      by (simp add: conn_fine_def w)
  qed
  then have "slots_fine (L(a := L a @ [RunQueued wr])) (loop_poller (cs_loop s')) (waiting s') (cs_conns s')
      \<and> own_fds (cs_conns s')"
    by (intro with_conn_slots [OF fine own _ h on]) (simp_all add: w)
  moreover have "active_fine s'"
    using with_conn_phase [OF on] by (simp add: active_fine_def)
  ultimately show ?thesis by (simp add: loop_inv_def)
qed

lemma fine_establish:
  assumes c: "conn_fine a ops p w c" and st: "c_state c = KConnecting"
    and w: "functors_of a w1 = functors_of a w" "count_list w1 (FnEstablish a) = 0"
    and c': "c' = connectEstablished (on_loop p c)"
  shows "conn_fine a (ops @ [Establish]) (c_poller c') (w1 @ map (FnConn a) (c_queue c')) c'"
proof -
  have "moved (functors_of a w1) (on_loop p c) d \<and> conn_apply Establish d = connectEstablished d"
    if "moved (functors_of a w) (on_loop p c) d" for d
    using that w st by (simp add: moved_iff on_loop_def)
  from conn_fine_step [OF c shareable_established this c'] show ?thesis
    using w established_state by (simp add: c')
qed

lemma inv_establish:
  assumes inv: "loop_inv L s" and ph: "cs_phase s = InFunctors (FnEstablish a # fs)"
    and on: "with_conn True a connectEstablished (s\<lparr>cs_phase := InFunctors fs, cs_ran := rs\<rparr>) = Some s'"
  shows "loop_inv (L(a := L a @ [Establish])) s'"
proof -
  let ?s = "s\<lparr>cs_phase := InFunctors fs, cs_ran := rs\<rparr>"
  note h = shareable_established
  have w: "waiting s = FnEstablish a # waiting ?s" by (simp add: waiting_def ph)
  have fine: "slots_fine L (loop_poller (cs_loop ?s)) (waiting s) (cs_conns ?s)" and own: "own_fds (cs_conns ?s)"
    using inv by (simp_all add: loop_inv_def)
  have "conn_fine a ((L(a := L a @ [Establish])) a) (c_poller c') (waiting ?s @ map (FnConn a) (c_queue c')) c'"
    if c: "conn_fine a (L a) (loop_poller (cs_loop s)) (waiting s) c"
      and c': "c' = connectEstablished (on_loop (loop_poller (cs_loop s)) c)" for c c'
  proof -
    have "c_state c = KConnecting" "count_list (waiting ?s) (FnEstablish a) = 0"
      using c by (simp_all add: conn_fine_def w split: if_splits)
    from fine_establish [OF c this(1) _ this(2) c'] show ?thesis by (simp add: w)
  qed
  then have "slots_fine (L(a := L a @ [Establish])) (loop_poller (cs_loop s')) (waiting s') (cs_conns s')
      \<and> own_fds (cs_conns s')"
    by (intro with_conn_slots [OF fine own _ h on]) (simp_all add: w)
  then show ?thesis
    using with_conn_phase [OF on] by (simp add: loop_inv_def active_fine_def)
qed

text \<open>A new connection, before it is established.\<close>

lemma slots_fine_new:
  assumes fine: "slots_fine L p w xs" and own: "own_fds xs"
    and new: "\<forall>x \<in> set xs. case x of Freed \<Rightarrow> True | Alive c \<Rightarrow> ch_fd (c_channel c) \<noteq> f"
    and c: "c = new_conn nm (new_channel (length xs) f) p wc hw"
    and w': "w' = w \<or> w' = w @ [FnEstablish (length xs)]"
  shows "slots_fine L p w' (xs @ [Alive c])" and "own_fds (xs @ [Alive c])"
proof -
  let ?a = "length xs"
  have old: "FnEstablish ?a \<notin> set w" "functors_of ?a w = []" "L ?a = []" using slots_fineD(3) [OF fine] by blast+
  have same: "functors_of b w' = functors_of b w" for b using w' by auto
  have mem: "FnEstablish b \<in> set w' \<longleftrightarrow> FnEstablish b \<in> set w" "count_list w' (FnEstablish b) = count_list w (FnEstablish b)"
    if "b \<noteq> ?a" for b using that w' by auto
  have count: "count_list w' (FnEstablish ?a) \<le> 1" using w' old(1) by auto
  have fd: "ch_fd (c_channel c) = f" and st: "c_state c = KConnecting" "ch_state (c_channel c) = KNew"
    by (simp_all add: c new_conn_def new_channel_def)
  have m: "moved [] (on_loop p c) c" by (simp add: moved_iff on_loop_def c new_conn_def)
  have new_fine: "conn_fine ?a [] p w' c"
  proof -
    have "moved (functors_of ?a w') (on_loop p c)
        (fst (conn_run [] (new_conn nm (new_channel ?a (ch_fd (c_channel c))) p wc hw)))"
      using m old(2) same fd by (simp flip: c)
    then show ?thesis using count st old(2) same unfolding conn_fine_def by auto
  qed
  show "slots_fine L p w' (xs @ [Alive c])"
    unfolding slots_fine_def
  proof (intro allI)
    fix b
    consider "b < ?a" | "b = ?a" | "?a < b" by linarith
    then show "if b < length (xs @ [Alive c])
        then case (xs @ [Alive c]) ! b of Alive x \<Rightarrow> conn_fine b (L b) p w' x
           | Freed \<Rightarrow> FnEstablish b \<notin> set w' \<and> list_all (\<lambda>f. f = FShutdown) (functors_of b w')
        else FnEstablish b \<notin> set w' \<and> functors_of b w' = [] \<and> L b = []"
    proof cases
      case 1
      then show ?thesis
        using slots_fineD(1,2) [OF fine 1] same mem [of b] conn_fine_frame [of b "L b" p w _ w' p]
        by (auto simp: nth_append split: slot.splits)
    next
      case 2
      then show ?thesis using new_fine old(3) by simp
    next
      case 3
      then show ?thesis using slots_fineD(3) [OF fine, of b] same mem [of b] by simp
    qed
  qed
  have neq: "ch_fd (c_channel x) \<noteq> f" if "b < ?a" "xs ! b = Alive x" for b x
    using new nth_mem [OF that(1)] that(2) by force
  show "own_fds (xs @ [Alive c])" unfolding own_fds_def
  proof (intro allI impI)
    fix b d x y
    assume len: "b < length (xs @ [Alive c])" "d < length (xs @ [Alive c])"
      and sl: "(xs @ [Alive c]) ! b = Alive x" "(xs @ [Alive c]) ! d = Alive y"
      and same_fd: "ch_fd (c_channel x) = ch_fd (c_channel y)"
    have old_x: "xs ! b = Alive x" if "b < ?a" using sl(1) that by (simp add: nth_append)
    have old_y: "xs ! d = Alive y" if "d < ?a" using sl(2) that by (simp add: nth_append)
    have new_x: "x = c" if "\<not> b < ?a" using sl(1) len(1) that by (simp add: nth_append less_Suc_eq)
    have new_y: "y = c" if "\<not> d < ?a" using sl(2) len(2) that by (simp add: nth_append less_Suc_eq)
    show "b = d"
    proof (cases "b < ?a"; cases "d < ?a")
      assume "b < ?a" "d < ?a"
      then show ?thesis using own old_x old_y same_fd unfolding own_fds_def by blast
    next
      assume "b < ?a" "\<not> d < ?a"
      then show ?thesis using neq [OF _ old_x] new_y same_fd fd by simp
    next
      assume "\<not> b < ?a" "d < ?a"
      then show ?thesis using neq [OF _ old_y] new_x same_fd fd by simp
    next
      assume "\<not> b < ?a" "\<not> d < ?a"
      then show ?thesis using len by simp
    qed
  qed
qed

lemma fd_free: "\<not> fd_in_use s f \<Longrightarrow> \<forall>x \<in> set (cs_conns s). case x of Freed \<Rightarrow> True | Alive c \<Rightarrow> ch_fd (c_channel c) \<noteq> f"
  by (auto simp: fd_in_use_def split: slot.splits)

lemma active_fine_mono:
  assumes "active_fine s" and "cs_phase s' = cs_phase s" and "\<And>b. event_ok s b \<Longrightarrow> event_ok s' b"
  shows "active_fine s'"
  using assms by (auto simp: active_fine_def list_all_iff split: conn_phase.splits)

lemma registered_grows:
  "event_ok s b \<Longrightarrow> event_ok (s\<lparr>cs_conns := cs_conns s @ xs, cs_owned := os\<rparr>) b"
  by (simp add: event_ok_def get_slot_def nth_append split: slot.splits if_splits)

lemma inv_new:
  assumes inv: "loop_inv L s" and step: "conn_loop_act (NewConn in_loop nm f wc hw) s = Some s'"
  shows "loop_inv (\<lambda>a. L a @ ops_of a (NewConn in_loop nm f wc hw) s) s'"
proof (cases "fd_in_use s f")
  case True
  then show ?thesis using step inv by simp
next
  case False
  let ?a = "length (cs_conns s)"
  let ?p = "loop_poller (cs_loop s)"
  define c where "c = new_conn nm (new_channel ?a f) ?p wc hw"
  let ?s = "s\<lparr>cs_conns := cs_conns s @ [Alive c], cs_owned := ?a # cs_owned s\<rparr>"
  have fine: "slots_fine L ?p (waiting s) (cs_conns s)" and own: "own_fds (cs_conns s)" and act: "active_fine s"
    using inv by (simp_all add: loop_inv_def)
  note new = slots_fine_new [OF fine own fd_free [OF False] c_def]
  have w: "waiting ?s = waiting s" by (simp add: waiting_def)
  have act1: "active_fine ?s" using registered_grows by (intro active_fine_mono [OF act]) auto
  show ?thesis
  proof (cases in_loop)
    case True
    then have on: "with_conn True ?a connectEstablished ?s = Some s'"
      using step False by (simp add: c_def Let_def)
    have L: "L ?a = []" using slots_fineD(3) [OF fine] by blast
    have "conn_fine ?a (L ?a @ [Establish]) (c_poller c') (waiting ?s @ map (FnConn ?a) (c_queue c')) c'"
      if sl: "get_slot ?s ?a = Alive x" and x: "conn_fine ?a (L ?a) ?p (waiting s) x"
        and c': "c' = connectEstablished (on_loop ?p x)" for x c'
    proof -
      have "x = c" using sl by (simp add: get_slot_def)
      then have "c_state x = KConnecting" by (simp add: c_def new_conn_def)
      moreover have "count_list (waiting s) (FnEstablish ?a) = 0" using slots_fineD(3) [OF fine, of ?a] by simp
      ultimately show ?thesis using fine_establish [OF x _ refl _ c'] by (simp add: w)
    qed
    then have "slots_fine (L(?a := L ?a @ [Establish])) (loop_poller (cs_loop s')) (waiting s') (cs_conns s')
        \<and> own_fds (cs_conns s')"
      using with_conn_slots [OF _ _ _ shareable_established on, where w = "waiting s" and L = L
          and L' = "L(?a := L ?a @ [Establish])"] new [of "waiting s"]
      by (simp add: w)
    moreover have "active_fine s'"
    proof -
      have "event_ok s' b" if "event_ok s b" for b
      proof -
        have "b \<noteq> ?a" using that by (auto simp: event_ok_def get_slot_def)
        then show ?thesis
          using with_conn_registered [OF _ shareable_established on registered_grows [OF that]] new(2) [of "waiting s"] by simp
      qed
      then show ?thesis using with_conn_phase [OF on] by (intro active_fine_mono [OF act]) auto
    qed
    moreover have "(\<lambda>b. L b @ ops_of b (NewConn in_loop nm f wc hw) s) = L(?a := L ?a @ [Establish])"
      using True False by auto
    ultimately show ?thesis by (simp add: loop_inv_def)
  next
    case out: False
    then have s': "s' = ?s\<lparr>cs_loop := queueInLoop False (FnEstablish ?a) (cs_loop s)\<rparr>"
      using step False by (simp add: c_def Let_def)
    have l': "loop_poller (cs_loop s') = ?p" "waiting s' = waiting s @ [FnEstablish ?a]"
      using fold_queue_sel [of False "[FnEstablish ?a]" "cs_loop s"]
      by (simp_all add: s' waiting_def split: conn_phase.splits)
    have "event_ok s' b = event_ok ?s b" for b
      using l'(1) by (simp add: event_ok_def get_slot_def s' cong: slot.case_cong)
    then have "active_fine s'" by (intro active_fine_mono [OF act1]) (auto simp: s')
    then show ?thesis using new [of "waiting s'"] l' out by (simp add: loop_inv_def s')
  qed
qed

lemma inv_silent:
  assumes "loop_inv L s" and "cs_loop s' = (cs_loop s)\<lparr>calling := b, pending := q\<rparr>"
    and "cs_conns s' = cs_conns s" and "waiting s' = waiting s"
    and "\<And>rs. cs_phase s' = InEvents rs \<Longrightarrow> distinct (map fst rs) \<and> list_all (event_ok s) (map fst rs)"
  shows "loop_inv L s'"
proof -
  have "event_ok s' = event_ok s"
    using assms(2,3) by (intro ext) (simp add: event_ok_def get_slot_def cong: slot.case_cong)
  then show ?thesis
    using assms by (auto simp: loop_inv_def active_fine_def split: conn_phase.splits)
qed

lemma drop_unheld_sel [simp]:
  "length (cs_conns (drop_unheld s)) = length (cs_conns s)" "cs_loop (drop_unheld s) = cs_loop s"
  "cs_phase (drop_unheld s) = cs_phase s" "cs_ran (drop_unheld s) = cs_ran s"
  "cs_owned (drop_unheld s) = cs_owned s" "cs_users (drop_unheld s) = cs_users s"
  "waiting (drop_unheld s) = waiting s"
  "a < length (cs_conns s) \<Longrightarrow> cs_conns (drop_unheld s) ! a = (if held s a then cs_conns s ! a else Freed)"
  by (simp_all add: drop_unheld_def waiting_def)

lemma drop_unheld_slot: "get_slot (drop_unheld s) a = (if held s a then get_slot s a else Freed)"
  by (simp add: get_slot_def)

lemma inv_drop:
  assumes inv: "loop_inv L s"
  shows "loop_inv L (drop_unheld s)"
proof -
  have fine: "slots_fine L (loop_poller (cs_loop s)) (waiting s) (cs_conns s)" and own: "own_fds (cs_conns s)"
    and act: "active_fine s" using inv by (simp_all add: loop_inv_def)
  have "slots_fine L (loop_poller (cs_loop s)) (waiting s) (cs_conns (drop_unheld s))"
    unfolding slots_fine_def
  proof (intro allI)
    fix b
    show "if b < length (cs_conns (drop_unheld s))
        then case cs_conns (drop_unheld s) ! b of
               Alive x \<Rightarrow> conn_fine b (L b) (loop_poller (cs_loop s)) (waiting s) x
             | Freed \<Rightarrow> FnEstablish b \<notin> set (waiting s) \<and> list_all (\<lambda>f. f = FShutdown) (functors_of b (waiting s))
        else FnEstablish b \<notin> set (waiting s) \<and> functors_of b (waiting s) = [] \<and> L b = []"
      using fine [unfolded slots_fine_def, THEN spec [of _ b]]
      by (auto simp: held_def list_ex_iff list_all_iff)
  qed
  moreover have "own_fds (cs_conns (drop_unheld s))"
    using own unfolding own_fds_def by (simp split: if_splits)
  moreover have "event_ok (drop_unheld s) b" if "event_ok s b" for b
    using that by (cases "get_slot s b") (simp_all add: event_ok_def drop_unheld_slot)
  ultimately show ?thesis
    using act active_fine_mono [OF act] by (simp add: loop_inv_def)
qed

lemma inv_fields [simp]:
  "loop_inv L (s\<lparr>cs_owned := os\<rparr>) = loop_inv L s" "loop_inv L (s\<lparr>cs_users := us\<rparr>) = loop_inv L s"
  "loop_inv L (owner_lets_go op a s) = loop_inv L s"
  by (simp_all add: loop_inv_def waiting_def active_fine_def event_ok_def [abs_def] get_slot_def
      owner_lets_go_def cong: conn_phase.case_cong slot.case_cong)

lemma inv_act:
  assumes inv: "loop_inv L s" and step: "conn_loop_act op s = Some s'"
  shows "loop_inv (\<lambda>a. L a @ ops_of a op s) s'"
proof (cases op)
  case (NewConn in_loop nm f wc hw)
  then show ?thesis using inv_new [OF inv] step by blast
next
  case (HandleNext rd wr)
  show ?thesis
  proof (cases "\<exists>a r rs. cs_phase s = InEvents ((a, r) # rs)")
    case True
    then obtain a r rs where ph: "cs_phase s = InEvents ((a, r) # rs)" by blast
    have "(\<lambda>b. L b @ ops_of b op s) = L(a := L a @ [Report r rd wr])" by (auto simp: HandleNext ph)
    then show ?thesis using inv_handle [OF inv ph] step by (simp add: HandleNext ph)
  next
    case False
    then show ?thesis using inv step
      by (auto simp: HandleNext split: conn_phase.splits list.splits prod.splits)
  qed
next
  case (RunNext wr)
  consider a fs where "cs_phase s = InFunctors (FnEstablish a # fs)"
    | a f fs where "cs_phase s = InFunctors (FnConn a f # fs)"
    | "conn_loop_act op s = Some s" "\<And>b. ops_of b op s = []"
  proof (cases "cs_phase s")
    case (InFunctors fs)
    then show ?thesis using that by (cases fs; cases "hd fs") (simp_all add: RunNext)
  qed (simp_all add: RunNext that)
  then show ?thesis
  proof cases
    case (1 a fs)
    have "(\<lambda>b. L b @ ops_of b op s) = L(a := L a @ [Establish])" by (auto simp: RunNext 1)
    then show ?thesis using inv_establish [OF inv 1] step by (simp add: RunNext 1)
  next
    case (2 a f fs)
    have "(\<lambda>b. L b @ ops_of b op s) = L(a := L a @ [RunQueued wr])" by (auto simp: RunNext 2)
    then show ?thesis using inv_run [OF inv 2] step by (simp add: RunNext 2)
  next
    case 3
    then show ?thesis using inv step by simp
  qed
next
  case (UserOp th a uop)
  show ?thesis
  proof (cases "user_call th uop \<and> get_slot s a \<noteq> Freed")
    case True
    have L: "(\<lambda>b. L b @ ops_of b op s) = L(a := L a @ [uop])" using True by (auto simp: UserOp)
    obtain s1 where s1: "with_conn th a (conn_apply uop) s = Some s1" "s' = owner_lets_go uop a s1"
      and idle: "uop = OwnerDestroysInLoop \<Longrightarrow> \<not> in_active s a"
      using step True by (auto simp: UserOp split: if_splits)
    have "loop_inv (L(a := L a @ [uop])) s1"
      using inv_user [OF inv _ s1(1) idle] True by blast
    then show ?thesis by (simp add: L s1(2))
  next
    case False
    then show ?thesis using inv step by (auto simp: UserOp)
  qed
next
  case (Polled reports)
  have "event_ok s a" if "may_report s a" for a
    using that by (auto simp: may_report_def event_ok_def Let_def split: slot.splits)
  then show ?thesis
    using Polled step inv inv_silent [OF inv, of s' "pending (cs_loop s)" "calling (cs_loop s)"]
    by (auto simp: waiting_def list_all_iff split: if_splits)
next
  case SwapFunctors
  then show ?thesis using step inv inv_silent [OF inv, of s' "[]" True]
    by (auto simp: waiting_def split: conn_phase.splits list.splits)
next
  case FinishFunctors
  then show ?thesis using step inv inv_silent [OF inv, of s' "pending (cs_loop s)" False]
    by (auto simp: waiting_def split: conn_phase.splits list.splits)
next
  case (UserKeeps a)
  then show ?thesis using step inv by (auto split: if_splits)
next
  case (UserDrops a)
  then show ?thesis using step inv by auto
qed

lemma inv_step:
  assumes "loop_inv L s" and "conn_loop_step op s = Some s'"
  shows "loop_inv (\<lambda>a. L a @ ops_of a op s) s'"
  using inv_act [OF assms(1)] inv_drop assms(2) by (auto simp: conn_loop_step_def)

lemma start_inv: "loop_inv (\<lambda>a. []) (start_conn_loop wa wfd now)"
proof -
  have "pending (new_loop wa wfd now) = []" by (simp add: new_loop_def split_beta Let_def)
  then show ?thesis
    by (simp add: loop_inv_def start_conn_loop_def waiting_def slots_fine_def own_fds_def active_fine_def)
qed

lemma run_inv:
  assumes "conn_loop_run ops s = Some s'" and "loop_inv L s"
  shows "loop_inv (\<lambda>a. L a @ life_of a ops s) s'"
  using assms
proof (induction ops arbitrary: s L)
  case (Cons op ops)
  obtain s1 where s1: "conn_loop_step op s = Some s1" "conn_loop_run ops s1 = Some s'"
    using Cons.prems(1) by (auto simp: bind_eq_Some_conv)
  from Cons.IH [OF s1(2) inv_step [OF Cons.prems(2) s1(1)]] show ?case by (simp add: s1(1))
qed simp

lemma run_fine:
  assumes run: "conn_loop_run ops (start_conn_loop wa wfd now) = Some s" and a: "get_slot s a = Alive c"
  shows "conn_fine a (life_of a ops (start_conn_loop wa wfd now)) (loop_poller (cs_loop s)) (waiting s) c"
  using run_inv [OF run start_inv] slots_fineD(1) get_slot_AliveD [OF a] by (fastforce simp: loop_inv_def)

section \<open>No functor of a plain pointer\<close>

definition no_shutdown :: "conn \<Rightarrow> bool" where
  "no_shutdown c \<longleftrightarrow> FShutdown \<notin> set (c_queue c)"

lemma no_shutdown_simps [simp]:
  "no_shutdown (on_loop p c)" "no_shutdown (log_event e c) = no_shutdown c"
  "no_shutdown (queue_functor f c) \<longleftrightarrow> f \<noteq> FShutdown \<and> no_shutdown c"
  "no_shutdown (with_channel g c) = no_shutdown c" "no_shutdown (connectionCallback c) = no_shutdown c"
  "no_shutdown (c\<lparr>c_state := st\<rparr>) = no_shutdown c" "no_shutdown (c\<lparr>c_channel := ch\<rparr>) = no_shutdown c"
  "no_shutdown (c\<lparr>outputBuffer := b\<rparr>) = no_shutdown c" "no_shutdown (c\<lparr>inputBuffer := b\<rparr>) = no_shutdown c"
  "no_shutdown (c\<lparr>c_sent := x\<rparr>) = no_shutdown c" "no_shutdown (c\<lparr>c_received := x\<rparr>) = no_shutdown c"
  "no_shutdown (c\<lparr>c_taken := x\<rparr>) = no_shutdown c" "no_shutdown (c\<lparr>c_wr_shut := w\<rparr>) = no_shutdown c"
  by (auto simp: no_shutdown_def on_loop_def connectionCallback_def queue_functor_def)

lemma no_shutdown_send: "no_shutdown c \<Longrightarrow> no_shutdown (sendInLoop s wr c)"
proof -
  have d: "no_shutdown c \<Longrightarrow> no_shutdown (snd (snd (send_direct s wr c)))"
    by (cases wr) (simp_all add: send_direct_def Let_def)
  have r: "no_shutdown x \<Longrightarrow> no_shutdown (send_rest s n x)" for n x
    by (simp add: send_rest_def Let_def)
  show "no_shutdown c \<Longrightarrow> no_shutdown (sendInLoop s wr c)" using d r by (simp add: sendInLoop_def split_beta)
qed

lemma no_shutdown_ops:
  "no_shutdown (shutdownInLoop c) = no_shutdown c" "no_shutdown (handleClose c) = no_shutdown c"
  "no_shutdown (connectEstablished c) = no_shutdown c" "no_shutdown (connectDestroyed c) = no_shutdown c"
  "no_shutdown (forceCloseInLoop c) = no_shutdown c" "no_shutdown (handleError c) = no_shutdown c"
  by (simp_all add: shutdownInLoop_def handleClose_def connectEstablished_def connectDestroyed_def
      forceCloseInLoop_def handleError_def Let_def)

lemma no_shutdown_handler: "no_shutdown c \<Longrightarrow> no_shutdown (conn_handler rd wr cb c)"
  by (cases cb) (simp_all add: conn_handler_def no_shutdown_ops handleRead_def handleWrite_def Let_def split_beta)

lemma no_shutdown_dispatch: "no_shutdown c \<Longrightarrow> no_shutdown (conn_dispatch r rd wr c)"
  unfolding conn_dispatch_def handleEvent_def
  using guard_props [where P = no_shutdown and run = "conn_handler rd wr" and view = c_channel] no_shutdown_handler
  by simp

lemma no_shutdown_functor: "no_shutdown c \<Longrightarrow> no_shutdown (run_functor f wr c)"
  by (cases f) (simp_all add: run_functor_def no_shutdown_send no_shutdown_ops)

lemma no_shutdown_user:
  "user_call th op \<Longrightarrow> \<not> (\<not> th \<and> op = UserShutdown False) \<Longrightarrow> no_shutdown c \<Longrightarrow> no_shutdown (conn_apply op c)"
  by (cases op) (auto simp: conn_send_def no_shutdown_send no_shutdown_ops shutdown_def forceClose_def
      conn_retrieve_def split_beta Let_def)

definition quiet_queue :: "conn_loop \<Rightarrow> bool" where
  "quiet_queue s \<longleftrightarrow> (\<forall>a. FnConn a FShutdown \<notin> set (waiting s))"

definition safe_op :: "loop_op \<Rightarrow> bool" where
  "safe_op op \<longleftrightarrow> (case op of UserOp th a uop \<Rightarrow> (th \<or> uop \<noteq> UserShutdown False) \<and> uop \<noteq> OwnerDestroysInLoop | _ \<Rightarrow> True)"

lemma quiet_with_conn:
  assumes "with_conn th a h s = Some s'" and "quiet_queue s" and "\<And>c. no_shutdown c \<Longrightarrow> no_shutdown (h c)"
  shows "quiet_queue s'"
proof -
  obtain c where c: "get_slot s a = Alive c" using assms(1) by (auto simp: with_conn_def split: slot.splits)
  have "no_shutdown (h (on_loop (loop_poller (cs_loop s)) c))" using assms(3) by simp
  then show ?thesis
    using assms(1,2) by (auto simp: with_conn_def c Let_def quiet_queue_def waiting_def no_shutdown_def split: conn_phase.splits)
qed

lemma get_slot_append [simp]: "get_slot (s\<lparr>cs_conns := cs_conns s @ [x]\<rparr>) (length (cs_conns s)) = x"
  by (simp add: get_slot_def)

lemma with_conn_alive: "get_slot s a = Alive c \<Longrightarrow> \<exists>s'. with_conn th a h s = Some s'"
  by (simp add: with_conn_def Let_def)

lemma slots_alive:
  assumes "slots_fine L p w xs" and "FnEstablish a \<in> set w \<or> (\<exists>f \<in> set (functors_of a w). f \<noteq> FShutdown)"
  shows "\<exists>c. a < length xs \<and> xs ! a = Alive c"
proof (cases "a < length xs")
  case True
  then show ?thesis using slots_fineD(2) [OF assms(1) True] assms(2) by (cases "xs ! a") (auto simp: list_all_iff)
next
  case False
  then show ?thesis using slots_fineD(3) [OF assms(1), of a] assms(2) by auto
qed

section \<open>Who holds a connection\<close>

text \<open>
  A connection its owner gave up is told so by a functor that still waits, or its \<^verbatim>\<open>connectDestroyed\<close>
  has run: then it is disconnected and not in the poller, and this stays so.
\<close>

definition gone :: "conn \<Rightarrow> bool" where
  "gone c \<longleftrightarrow> c_state c = KDisconnected \<and> \<not> hasChannel (c_channel c) (c_poller c)"

lemma gone_functor: "gone c \<Longrightarrow> gone (run_functor f wr c)"
  by (cases f) (auto simp: gone_def run_functor_def sendInLoop_def shutdownInLoop_def forceCloseInLoop_def
      connectDestroyed_def removeChannel_def hasChannel_def poller_update_def Let_def split_beta)

lemma gone_user: "user_call th op \<Longrightarrow> gone c \<Longrightarrow> gone (conn_apply op c)"
  by (cases op) (auto simp: gone_def conn_send_def shutdown_def forceClose_def conn_retrieve_def
      connectDestroyed_def removeChannel_def hasChannel_def poller_update_def Let_def split_beta)

lemma destroyed_gone: "c_state c \<noteq> KConnecting \<Longrightarrow> gone (connectDestroyed c)"
  by (cases "c_state c") (simp_all add: gone_def connectDestroyed_def connectionCallback_def removeChannel_def
      hasChannel_def poller_update_def Let_def split_beta)

lemma registered_not_gone: "conn_registered c \<Longrightarrow> \<not> gone c"
  by (simp add: conn_registered_def gone_def)

definition owner_fine :: "conn_loop \<Rightarrow> nat \<Rightarrow> bool" where
  "owner_fine s a \<longleftrightarrow> (\<forall>c. get_slot s a = Alive c \<longrightarrow> ch_addr (c_channel c) = a
     \<and> (a \<in> set (cs_owned s) \<or> FDestroyed \<in> set (functors_of a (waiting s))
        \<or> gone (on_loop (loop_poller (cs_loop s)) c)))"

definition no_dangling :: "fd \<Rightarrow> conn_loop \<Rightarrow> bool" where
  "no_dangling wfd s \<longleftrightarrow> ch_fd (wakeup_channel (cs_loop s)) = wfd
     \<and> (\<forall>f a. channels (loop_poller (cs_loop s)) f = Some a
          \<longrightarrow> f = wfd \<or> (\<exists>c. get_slot s a = Alive c \<and> ch_fd (c_channel c) = f))"

definition active_alive :: "conn_loop \<Rightarrow> bool" where
  "active_alive s \<longleftrightarrow> (\<forall>a. in_active s a \<longrightarrow> get_slot s a \<noteq> Freed)"

definition lifetimes :: "fd \<Rightarrow> conn_loop \<Rightarrow> bool" where
  "lifetimes wfd s \<longleftrightarrow> no_dangling wfd s \<and> (\<forall>a. owner_fine s a) \<and> active_alive s \<and> quiet_queue s"

lemma lifetimesD:
  assumes "lifetimes wfd s"
  shows "no_dangling wfd s" "owner_fine s a" "active_alive s" "quiet_queue s"
  using assms by (simp_all add: lifetimes_def)

text \<open>One connection acts: the others stay as they are.\<close>

lemma with_conn_lifetimes:
  assumes inv: "own_fds (cs_conns s)" and dang: "no_dangling wfd s" and act: "active_alive s"
    and others: "\<And>b. b \<noteq> a \<Longrightarrow> owner_fine s b"
    and addr: "\<And>c. get_slot s a = Alive c \<Longrightarrow> ch_addr (c_channel c) = a"
    and h: "shareable h" and on: "with_conn th a h s = Some s'" and quiet: "quiet_queue s'"
    and keep: "\<And>c c'. get_slot s a = Alive c \<Longrightarrow> c' = h (on_loop (loop_poller (cs_loop s)) c)
      \<Longrightarrow> a \<in> set (cs_owned s) \<or> FDestroyed \<in> set (functors_of a (waiting s) @ c_queue c') \<or> gone c'"
  shows "lifetimes wfd s'"
proof (rule with_conn_result [OF on h])
  fix c c'
  assume r: "get_slot s a = Alive c" "c' = h (on_loop (loop_poller (cs_loop s)) c)"
    "cs_conns s' = (cs_conns s)[a := Alive c']" "loop_poller (cs_loop s') = c_poller c'"
    "waiting s' = waiting s @ map (FnConn a) (c_queue c')" "cs_phase s' = cs_phase s"
    "ch_fd (c_channel c') = ch_fd (c_channel c)"
    "\<And>f. f \<noteq> ch_fd (c_channel c) \<Longrightarrow> channels (c_poller c') f = channels (loop_poller (cs_loop s)) f"
  note len = get_slot_AliveD [OF r(1)]
  have same: "cs_owned s' = cs_owned s" "ch_fd (wakeup_channel (cs_loop s')) = ch_fd (wakeup_channel (cs_loop s))"
    using on by (auto simp: with_conn_def r(1) Let_def)
  have slot: "get_slot s' b = (if b = a then Alive c' else get_slot s b)" for b
    using len by (simp add: get_slot_def r(3))
  have fp: "ch_addr (c_channel c') = a"
    "\<And>b. channels (c_poller c') (ch_fd (c_channel c)) = Some b
      \<Longrightarrow> b = a \<or> channels (loop_poller (cs_loop s)) (ch_fd (c_channel c)) = Some b"
    using shareable_footprint [OF h, of "on_loop (loop_poller (cs_loop s)) c"] addr [OF r(1)]
    by (simp_all add: footprint_def r(2) on_loop_def)
  have "no_dangling wfd s'"
    unfolding no_dangling_def
  proof (intro conjI allI impI)
    show "ch_fd (wakeup_channel (cs_loop s')) = wfd" using dang same(2) by (simp add: no_dangling_def)
    fix f b
    assume b: "channels (loop_poller (cs_loop s')) f = Some b"
    show "f = wfd \<or> (\<exists>x. get_slot s' b = Alive x \<and> ch_fd (c_channel x) = f)"
    proof (cases "b = a \<and> f = ch_fd (c_channel c)")
      case True
      then show ?thesis by (simp add: slot r(7))
    next
      case False
      then have "channels (loop_poller (cs_loop s)) f = Some b"
        using b fp(2) r(8) by (cases "f = ch_fd (c_channel c)") (auto simp: r(4))
      then have "f = wfd \<or> (\<exists>x. get_slot s b = Alive x \<and> ch_fd (c_channel x) = f)"
        using dang unfolding no_dangling_def by blast
      then show ?thesis using r(1,7) by (cases "b = a") (auto simp: slot)
    qed
  qed
  moreover have "owner_fine s' b" for b
  proof (cases "b = a")
    case True
    then show ?thesis
      using keep [OF r(1,2)] fp(1) by (auto simp: owner_fine_def slot same r(4,5) gone_def on_loop_def)
  next
    case False
    show ?thesis unfolding owner_fine_def
    proof (intro allI impI)
      fix x assume "get_slot s' b = Alive x"
      then have x: "get_slot s b = Alive x" using False by (simp add: slot)
      then have "ch_fd (c_channel x) \<noteq> ch_fd (c_channel c)"
        using inv get_slot_AliveD [OF x] len False unfolding own_fds_def by metis
      then show "ch_addr (c_channel x) = b \<and> (b \<in> set (cs_owned s') \<or> FDestroyed \<in> set (functors_of b (waiting s'))
          \<or> gone (on_loop (loop_poller (cs_loop s')) x))"
        using others [OF False] x False r(8)
        by (auto simp: owner_fine_def same r(4,5) gone_def on_loop_def hasChannel_def)
    qed
  qed
  moreover have "active_alive s'"
    using act by (simp add: active_alive_def in_active_def slot r(6))
  ultimately show ?thesis using quiet by (simp add: lifetimes_def)
qed

lemma drop_lifetimes:
  assumes inv: "loop_inv L s" and lf: "lifetimes wfd s"
  shows "lifetimes wfd (drop_unheld s)"
proof -
  have held: "held s a" if "get_slot s a = Alive c" "\<not> gone (on_loop (loop_poller (cs_loop s)) c)" for a c
    using lifetimesD(2) [OF lf, of a] that by (auto simp: owner_fine_def held_def list_ex_iff)
  have "no_dangling wfd (drop_unheld s)"
    unfolding no_dangling_def
  proof (intro conjI allI impI)
    show "ch_fd (wakeup_channel (cs_loop (drop_unheld s))) = wfd"
      using lifetimesD(1) [OF lf] by (simp add: no_dangling_def)
    fix f a
    assume a: "channels (loop_poller (cs_loop (drop_unheld s))) f = Some a"
    show "f = wfd \<or> (\<exists>c. get_slot (drop_unheld s) a = Alive c \<and> ch_fd (c_channel c) = f)"
    proof (cases "f = wfd")
      case False
      then obtain c where c: "get_slot s a = Alive c" "ch_fd (c_channel c) = f"
        using lifetimesD(1) [OF lf] a by (auto simp: no_dangling_def)
      then have "\<not> gone (on_loop (loop_poller (cs_loop s)) c)"
        using lifetimesD(2) [OF lf, of a] a by (simp add: gone_def owner_fine_def on_loop_def hasChannel_def)
      then show ?thesis using held [OF c(1)] c by (simp add: drop_unheld_slot)
    qed simp
  qed
  moreover have "owner_fine (drop_unheld s) a" for a
    using lifetimesD(2) [OF lf, of a] by (simp add: owner_fine_def drop_unheld_slot)
  moreover have "active_alive (drop_unheld s)"
    unfolding active_alive_def
  proof (intro allI impI)
    fix a assume a: "in_active (drop_unheld s) a"
    then obtain c where c: "get_slot s a = Alive c"
      using lifetimesD(3) [OF lf] by (cases "get_slot s a") (auto simp: active_alive_def in_active_def)
    have "event_ok s a"
      using inv a by (auto simp: loop_inv_def active_fine_def in_active_def list_all_iff split: conn_phase.splits)
    then have "\<not> gone (on_loop (loop_poller (cs_loop s)) c)"
      using c registered_not_gone by (simp add: event_ok_def)
    from held [OF c this] show "get_slot (drop_unheld s) a \<noteq> Freed" using c by (simp add: drop_unheld_slot)
  qed
  moreover have "quiet_queue (drop_unheld s)" using lifetimesD(4) [OF lf] by (simp add: quiet_queue_def)
  ultimately show ?thesis by (simp add: lifetimes_def)
qed

text \<open>The steps. \<open>safe_op\<close> leaves out \<^verbatim>\<open>shutdown()\<close> outside the loop thread and an owner that is
  destroyed in the loop's own thread.\<close>

lemma alive_with_conn:
  assumes inv: "own_fds (cs_conns s)" and lf: "no_dangling wfd s" "active_alive s" "\<And>b. b \<noteq> a \<Longrightarrow> owner_fine s b"
    and a: "get_slot s a = Alive c" "ch_addr (c_channel c) = a" and h: "shareable h"
    and quiet: "quiet_queue s" "\<And>c. no_shutdown c \<Longrightarrow> no_shutdown (h c)"
    and keep: "a \<in> set (cs_owned s)
      \<or> FDestroyed \<in> set (functors_of a (waiting s) @ c_queue (h (on_loop (loop_poller (cs_loop s)) c)))
      \<or> gone (h (on_loop (loop_poller (cs_loop s)) c))"
  shows "\<exists>s'. with_conn th a h s = Some s' \<and> lifetimes wfd s'"
proof -
  obtain s' where s': "with_conn th a h s = Some s'" using with_conn_alive [OF a(1)] by blast
  have "quiet_queue s'" by (rule quiet_with_conn [OF s' quiet])
  with with_conn_lifetimes [OF inv lf(1,2,3) _ h s'] a keep s' show ?thesis by auto
qed

lemma phase_lifetimes:
  assumes "lifetimes wfd s"
    and "cs_conns s' = cs_conns s" and "loop_poller (cs_loop s') = loop_poller (cs_loop s)"
    and "wakeup_channel (cs_loop s') = wakeup_channel (cs_loop s)" and "cs_owned s' = cs_owned s"
    and "set (waiting s') \<subseteq> set (waiting s)"
    and "\<And>b. b \<noteq> a \<Longrightarrow> functors_of b (waiting s') = functors_of b (waiting s)"
    and "\<And>b. in_active s' b \<Longrightarrow> in_active s b"
  shows "no_dangling wfd s'" "active_alive s'" "\<And>b. b \<noteq> a \<Longrightarrow> owner_fine s' b" "quiet_queue s'"
proof -
  have slot: "get_slot s' b = get_slot s b" for b using assms(2) by (simp add: get_slot_def)
  show "no_dangling wfd s'" using lifetimesD(1) [OF assms(1)] assms(3,4) by (simp add: no_dangling_def slot)
  show "active_alive s'" using lifetimesD(3) [OF assms(1)] assms(8) by (simp add: active_alive_def slot)
  show "quiet_queue s'" using lifetimesD(4) [OF assms(1)] assms(6) by (auto simp: quiet_queue_def)
  show "owner_fine s' b" if "b \<noteq> a" for b
    using lifetimesD(2) [OF assms(1), of b] assms(3,5) assms(7) [OF that] by (simp add: owner_fine_def slot)
qed

lemma same_lifetimes:
  assumes "lifetimes wfd s"
    and "cs_conns s' = cs_conns s" and "loop_poller (cs_loop s') = loop_poller (cs_loop s)"
    and "wakeup_channel (cs_loop s') = wakeup_channel (cs_loop s)" and "cs_owned s' = cs_owned s"
    and "waiting s' = waiting s" and "\<And>a. in_active s' a \<Longrightarrow> get_slot s a \<noteq> Freed"
  shows "lifetimes wfd s'"
proof -
  have slot: "get_slot s' b = get_slot s b" for b using assms(2) by (simp add: get_slot_def)
  show ?thesis
    using assms(1,3-7)
    by (simp add: lifetimes_def no_dangling_def owner_fine_def active_alive_def quiet_queue_def slot)
qed

lemma safe_handle:
  assumes inv: "loop_inv L s" and lf: "lifetimes wfd s" and ph: "cs_phase s = InEvents ((a, r) # rs)"
  shows "\<exists>s'. with_conn True a (conn_dispatch r rd wr) (s\<lparr>cs_phase := InEvents rs\<rparr>) = Some s' \<and> lifetimes wfd s'"
proof -
  let ?s = "s\<lparr>cs_phase := InEvents rs\<rparr>"
  have own: "own_fds (cs_conns ?s)" and act: "active_fine s" using inv by (simp_all add: loop_inv_def)
  have w: "waiting ?s = waiting s" by (simp add: waiting_def ph)
  have ins: "in_active s a" by (simp add: in_active_def ph)
  obtain c where c: "get_slot s a = Alive c"
    using lifetimesD(3) [OF lf] ins by (cases "get_slot s a") (auto simp: active_alive_def)
  have "event_ok s a" using act ph by (simp add: active_fine_def)
  then have "\<not> gone (on_loop (loop_poller (cs_loop s)) c)"
    using c registered_not_gone by (simp add: event_ok_def)
  then have keep: "a \<in> set (cs_owned s) \<or> FDestroyed \<in> set (functors_of a (waiting s))"
    and addr: "ch_addr (c_channel c) = a"
    using lifetimesD(2) [OF lf, of a] c by (auto simp: owner_fine_def)
  have p: "no_dangling wfd ?s" "active_alive ?s" "\<And>b. b \<noteq> a \<Longrightarrow> owner_fine ?s b" "quiet_queue ?s"
    using phase_lifetimes [OF lf, of ?s a] unfolding w by (auto simp: in_active_def ph)
  have keep': "a \<in> set (cs_owned ?s) \<or> FDestroyed \<in> set (functors_of a (waiting ?s))"
    using keep unfolding w by simp
  show ?thesis
    using p keep' addr no_shutdown_dispatch c
    by (intro alive_with_conn [OF own, of _ a c]) (auto simp: waiting_phase(3) shareable simp del: list.set)
qed

lemma safe_functor:
  assumes inv: "loop_inv L s" and lf: "lifetimes wfd s" and ph: "cs_phase s = InFunctors (FnConn a f # fs)"
  shows "\<exists>s'. with_conn True a (run_functor f wr) (s\<lparr>cs_phase := InFunctors fs, cs_ran := rs\<rparr>) = Some s' \<and> lifetimes wfd s'"
proof -
  let ?s = "s\<lparr>cs_phase := InFunctors fs, cs_ran := rs\<rparr>"
  have own: "own_fds (cs_conns ?s)" and fine: "slots_fine L (loop_poller (cs_loop s)) (waiting s) (cs_conns s)"
    using inv by (simp_all add: loop_inv_def)
  have w: "waiting s = FnConn a f # waiting ?s" by (simp add: waiting_def ph)
  have "f \<noteq> FShutdown" using lifetimesD(4) [OF lf] w by (auto simp: quiet_queue_def)
  then obtain c where c: "get_slot s a = Alive c"
    using slots_alive [OF fine, of a] by (auto simp: w get_slot_def)
  note a = get_slot_AliveD [OF c]
  have st: "c_state c \<noteq> KConnecting"
    using slots_fineD(1) [OF fine, of a c] a by (auto simp: conn_fine_def w)
  have o: "ch_addr (c_channel c) = a"
    "a \<in> set (cs_owned s) \<or> FDestroyed \<in> set (f # functors_of a (waiting ?s))
      \<or> gone (on_loop (loop_poller (cs_loop s)) c)"
    using lifetimesD(2) [OF lf, of a] c by (auto simp: owner_fine_def w)
  have "gone (run_functor FDestroyed wr (on_loop (loop_poller (cs_loop s)) c))"
    using destroyed_gone [of "on_loop (loop_poller (cs_loop s)) c"] st by (simp add: run_functor_def on_loop_def)
  then have keep: "a \<in> set (cs_owned s) \<or> FDestroyed \<in> set (functors_of a (waiting ?s))
      \<or> gone (run_functor f wr (on_loop (loop_poller (cs_loop s)) c))"
    using o(2) gone_functor by (cases "f = FDestroyed") auto
  have p: "no_dangling wfd ?s" "active_alive ?s" "\<And>b. b \<noteq> a \<Longrightarrow> owner_fine ?s b" "quiet_queue ?s"
    using phase_lifetimes [OF lf, of ?s a] by (auto simp: w in_active_def)
  show ?thesis
    using p keep o(1) no_shutdown_functor c
    by (intro alive_with_conn [OF own, of _ a c]) (auto simp: waiting_phase shareable)
qed

lemma safe_establish:
  assumes inv: "loop_inv L s" and lf: "lifetimes wfd s" and ph: "cs_phase s = InFunctors (FnEstablish a # fs)"
  shows "\<exists>s'. with_conn True a connectEstablished (s\<lparr>cs_phase := InFunctors fs, cs_ran := rs\<rparr>) = Some s' \<and> lifetimes wfd s'"
proof -
  let ?s = "s\<lparr>cs_phase := InFunctors fs, cs_ran := rs\<rparr>"
  have own: "own_fds (cs_conns ?s)" and fine: "slots_fine L (loop_poller (cs_loop s)) (waiting s) (cs_conns s)"
    using inv by (simp_all add: loop_inv_def)
  have w: "waiting s = FnEstablish a # waiting ?s" by (simp add: waiting_def ph)
  obtain c where c: "get_slot s a = Alive c"
    using slots_alive [OF fine, of a] by (auto simp: w get_slot_def)
  note a = get_slot_AliveD [OF c]
  have st: "c_state c = KConnecting" "functors_of a (waiting s) = []"
    using slots_fineD(1) [OF fine, of a c] a by (auto simp: conn_fine_def w split: if_splits)
  then have keep: "a \<in> set (cs_owned s)" "ch_addr (c_channel c) = a"
    using lifetimesD(2) [OF lf, of a] c by (auto simp: owner_fine_def gone_def on_loop_def)
  have p: "no_dangling wfd ?s" "active_alive ?s" "\<And>b. b \<noteq> a \<Longrightarrow> owner_fine ?s b" "quiet_queue ?s"
    using phase_lifetimes [OF lf, of ?s a] by (auto simp: w in_active_def)
  show ?thesis
    using p keep c
    by (intro alive_with_conn [OF own, of _ a c]) (auto simp: waiting_phase shareable no_shutdown_ops)
qed

lemma safe_new:
  assumes inv: "loop_inv L s" and lf: "lifetimes wfd s"
  shows "\<exists>s'. conn_loop_act (NewConn in_loop nm f wc hw) s = Some s' \<and> lifetimes wfd s'"
proof (cases "fd_in_use s f")
  case True
  then show ?thesis using lf by simp
next
  case False
  let ?a = "length (cs_conns s)"
  define c where "c = new_conn nm (new_channel ?a f) (loop_poller (cs_loop s)) wc hw"
  let ?s = "s\<lparr>cs_conns := cs_conns s @ [Alive c], cs_owned := ?a # cs_owned s\<rparr>"
  have fine: "slots_fine L (loop_poller (cs_loop s)) (waiting s) (cs_conns s)" and own: "own_fds (cs_conns s)"
    using inv by (simp_all add: loop_inv_def)
  note own' = slots_fine_new(2) [OF fine own fd_free [OF False] c_def, of "waiting s"]
  have w: "waiting ?s = waiting s" by (simp add: waiting_def)
  have slot: "get_slot ?s b = (if b = ?a then Alive c else get_slot s b)" for b
    by (auto simp: get_slot_def nth_append)
  have addr: "ch_addr (c_channel c) = ?a" by (simp add: c_def new_conn_def new_channel_def)
  have old: "get_slot s b = Alive x \<Longrightarrow> b \<noteq> ?a" for b x using get_slot_AliveD [of s b x] by auto
  have p: "no_dangling wfd ?s" "\<And>b. owner_fine ?s b" "active_alive ?s" "quiet_queue ?s"
  proof -
    show "no_dangling wfd ?s"
      using lifetimesD(1) [OF lf] unfolding no_dangling_def by (auto simp: slot dest: old)
    show "owner_fine ?s b" for b
      using lifetimesD(2) [OF lf, of b] addr by (auto simp: owner_fine_def slot w)
    show "active_alive ?s" using lifetimesD(3) [OF lf] by (auto simp: active_alive_def in_active_def slot)
    show "quiet_queue ?s" using lifetimesD(4) [OF lf] by (simp add: quiet_queue_def w)
  qed
  show ?thesis
  proof (cases in_loop)
    case True
    have "\<exists>s'. with_conn True ?a connectEstablished ?s = Some s' \<and> lifetimes wfd s'"
      using p addr own' slot
      by (intro alive_with_conn [of ?s _ ?a c]) (auto simp: shareable no_shutdown_ops)
    then show ?thesis using True False by (simp add: c_def Let_def)
  next
    case out: False
    let ?s' = "?s\<lparr>cs_loop := queueInLoop False (FnEstablish ?a) (cs_loop s)\<rparr>"
    have q: "loop_poller (cs_loop ?s') = loop_poller (cs_loop s)" "wakeup_channel (cs_loop ?s') = wakeup_channel (cs_loop s)"
      "waiting ?s' = waiting s @ [FnEstablish ?a]"
      using fold_queue_sel [of False "[FnEstablish ?a]" "cs_loop s"]
      by (simp_all add: waiting_def split: conn_phase.splits)
    have slot': "get_slot ?s' b = get_slot ?s b" for b by (simp add: get_slot_def)
    have "no_dangling wfd ?s'" using p(1) q by (simp add: no_dangling_def slot')
    moreover have "\<forall>b. owner_fine ?s' b" using p(2) q by (simp add: owner_fine_def slot' w)
    moreover have "active_alive ?s'" using p(3) by (simp add: active_alive_def in_active_def slot')
    moreover have "quiet_queue ?s'" using p(4) q w by (simp add: quiet_queue_def)
    ultimately show ?thesis using out False by (simp add: lifetimes_def c_def Let_def)
  qed
qed

lemma lets_go_sel [simp]:
  "cs_conns (owner_lets_go op a s) = cs_conns s" "cs_loop (owner_lets_go op a s) = cs_loop s"
  "cs_phase (owner_lets_go op a s) = cs_phase s" "cs_ran (owner_lets_go op a s) = cs_ran s"
  "cs_users (owner_lets_go op a s) = cs_users s" "waiting (owner_lets_go op a s) = waiting s"
  "get_slot (owner_lets_go op a s) b = get_slot s b"
  by (simp_all add: owner_lets_go_def waiting_def get_slot_def)

lemma lets_go_owned: "uop \<noteq> OwnerDestroysInLoop \<Longrightarrow> owner_fine s b \<Longrightarrow> owner_fine (owner_lets_go uop a s) b"
proof -
  have "b \<in> set (cs_owned (owner_lets_go uop a s)) \<or> FDestroyed \<in> set (functors_of b (waiting s))"
    if "uop \<noteq> OwnerDestroysInLoop" "b \<in> set (cs_owned s)"
    using that by (auto simp: owner_lets_go_def)
  moreover have "set (cs_owned (owner_lets_go uop a s)) \<subseteq> set (cs_owned s)" by (auto simp: owner_lets_go_def)
  ultimately show "uop \<noteq> OwnerDestroysInLoop \<Longrightarrow> owner_fine s b \<Longrightarrow> owner_fine (owner_lets_go uop a s) b"
    unfolding owner_fine_def lets_go_sel by blast
qed

lemma safe_user:
  assumes inv: "loop_inv L s" and lf: "lifetimes wfd s" and op: "safe_op (UserOp th a uop)"
  shows "\<exists>s'. conn_loop_act (UserOp th a uop) s = Some s' \<and> lifetimes wfd s'"
proof (cases "user_call th uop \<and> get_slot s a \<noteq> Freed")
  case True
  then obtain c where c: "get_slot s a = Alive c" by (cases "get_slot s a") auto
  have uop: "uop \<noteq> OwnerDestroysInLoop" "\<not> (\<not> th \<and> uop = UserShutdown False)" using op by (auto simp: safe_op_def)
  have own: "own_fds (cs_conns s)" using inv by (simp add: loop_inv_def)
  let ?c = "conn_apply uop (on_loop (loop_poller (cs_loop s)) c)"
  have o: "ch_addr (c_channel c) = a" "a \<in> set (cs_owned s) \<or> FDestroyed \<in> set (functors_of a (waiting s))
      \<or> gone (on_loop (loop_poller (cs_loop s)) c)"
    using lifetimesD(2) [OF lf, of a] c by (auto simp: owner_fine_def)
  then have "a \<in> set (cs_owned s) \<or> FDestroyed \<in> set (functors_of a (waiting s)) \<or> gone ?c"
    using gone_user True by blast
  then have "\<exists>s1. with_conn th a (conn_apply uop) s = Some s1 \<and> lifetimes wfd s1"
    using lifetimesD [OF lf] no_shutdown_user [of th uop] uop True shareable_apply [of th uop]
    by (intro alive_with_conn [OF own _ _ _ c o(1)]) auto
  then obtain s1 where s1: "with_conn th a (conn_apply uop) s = Some s1" "lifetimes wfd s1" by blast
  have "lifetimes wfd (owner_lets_go uop a s1)"
    using lifetimesD [OF s1(2)] lets_go_owned [OF uop(1)]
    by (simp add: lifetimes_def no_dangling_def active_alive_def in_active_def quiet_queue_def)
  then show ?thesis using s1(1) uop(1) True by auto
next
  case False
  then show ?thesis using lf by auto
qed

lemma safe_act:
  assumes inv: "loop_inv L s" and lf: "lifetimes wfd s" and op: "safe_op op"
  shows "\<exists>s'. conn_loop_act op s = Some s' \<and> lifetimes wfd s'"
proof (cases op)
  case (NewConn in_loop nm f wc hw)
  then show ?thesis using safe_new [OF inv lf] by blast
next
  case (HandleNext rd wr)
  show ?thesis
  proof (cases "\<exists>a r rs. cs_phase s = InEvents ((a, r) # rs)")
    case True
    then show ?thesis using safe_handle [OF inv lf] by (auto simp: HandleNext)
  next
    case False
    then show ?thesis using lf by (auto simp: HandleNext split: conn_phase.splits list.splits prod.splits)
  qed
next
  case (RunNext wr)
  show ?thesis
  proof (cases "cs_phase s")
    case (InFunctors fs)
    show ?thesis
    proof (cases fs)
      case (Cons f fs')
      then show ?thesis
        using safe_functor [OF inv lf] safe_establish [OF inv lf] by (cases f) (simp_all add: RunNext InFunctors)
    qed (simp add: RunNext InFunctors lf)
  qed (simp_all add: RunNext lf)
next
  case (UserOp th a uop)
  then show ?thesis using safe_user [OF inv lf] op by blast
next
  case (Polled reports)
  have "get_slot s a \<noteq> Freed" if m: "may_report s a" for a
  proof
    assume "get_slot s a = Freed"
    then obtain f where "f \<noteq> ch_fd (wakeup_channel (cs_loop s))" "channels (loop_poller (cs_loop s)) f = Some a"
      using m by (auto simp: may_report_def Let_def list_ex_iff)
    then have "\<exists>c. get_slot s a = Alive c"
      using lifetimesD(1) [OF lf] unfolding no_dangling_def by blast
    with \<open>get_slot s a = Freed\<close> show False by simp
  qed
  then have "lifetimes wfd (s\<lparr>cs_phase := InEvents reports\<rparr>)"
    if "list_all (may_report s) (map fst reports)" "cs_phase s = InPoll"
    using that by (intro same_lifetimes [OF lf]) (auto simp: waiting_def in_active_def list_all_iff)
  then show ?thesis using lf by (auto simp: Polled)
next
  case SwapFunctors
  have "lifetimes wfd (s\<lparr>cs_loop := (cs_loop s)\<lparr>calling := True, pending := []\<rparr>, cs_phase := InFunctors (pending (cs_loop s))\<rparr>)"
    if "cs_phase s = InEvents []"
    by (rule same_lifetimes [OF lf]) (simp_all add: waiting_def in_active_def that)
  then show ?thesis using lf by (auto simp: SwapFunctors split: conn_phase.splits list.splits)
next
  case FinishFunctors
  have "lifetimes wfd (s\<lparr>cs_loop := (cs_loop s)\<lparr>calling := False\<rparr>, cs_phase := InPoll, cs_ran := []\<rparr>)"
    if "cs_phase s = InFunctors []"
    by (rule same_lifetimes [OF lf]) (simp_all add: waiting_def in_active_def that)
  then show ?thesis using lf by (auto simp: FinishFunctors split: conn_phase.splits list.splits)
next
  case (UserKeeps a)
  have "lifetimes wfd (s\<lparr>cs_users := us\<rparr>)" for us
    using lifetimesD(3) [OF lf] by (intro same_lifetimes [OF lf]) (simp_all add: waiting_def in_active_def active_alive_def)
  then show ?thesis using lf by (simp add: UserKeeps)
next
  case (UserDrops a)
  have "lifetimes wfd (s\<lparr>cs_users := us\<rparr>)" for us
    using lifetimesD(3) [OF lf] by (intro same_lifetimes [OF lf]) (simp_all add: waiting_def in_active_def active_alive_def)
  then show ?thesis by (simp add: UserDrops)
qed

lemma safe_run:
  "loop_inv L s \<Longrightarrow> lifetimes wfd s \<Longrightarrow> list_all safe_op ops \<Longrightarrow> \<exists>s'. conn_loop_run ops s = Some s' \<and> lifetimes wfd s'"
proof (induction ops arbitrary: L s)
  case (Cons op ops)
  then obtain s1 where s1: "conn_loop_act op s = Some s1" "lifetimes wfd s1"
    using safe_act [of L s wfd op] by auto
  have inv: "loop_inv (\<lambda>a. L a @ ops_of a op s) s1" by (rule inv_act [OF Cons.prems(1) s1(1)])
  from Cons.IH [OF inv_drop [OF inv] drop_lifetimes [OF inv s1(2)]] Cons.prems(3) show ?case
    by (simp add: conn_loop_step_def s1(1))
qed simp

lemma start_lifetimes: "lifetimes wfd (start_conn_loop wa wfd now)"
proof -
  have l: "pending (new_loop wa wfd now) = []" "ch_fd (wakeup_channel (new_loop wa wfd now)) = wfd"
    "\<And>f b. channels (loop_poller (new_loop wa wfd now)) f = Some b \<Longrightarrow> f = wfd"
    by (auto simp: new_loop_def split_beta Let_def enableReading_def updateChannel_def new_channel_def new_poller_def
        poller_update_def split: if_splits)
  show ?thesis
    using l by (auto simp: lifetimes_def no_dangling_def owner_fine_def active_alive_def in_active_def
        quiet_queue_def waiting_def get_slot_def start_conn_loop_def)
qed

section \<open>Clean reports\<close>

definition clean_poll :: "loop_op \<Rightarrow> bool" where
  "clean_poll op \<longleftrightarrow> (case op of Polled rs \<Rightarrow> list_all (\<lambda>(a, r). clean_event r) rs | _ \<Rightarrow> True)"

definition clean_active :: "conn_loop \<Rightarrow> bool" where
  "clean_active s \<longleftrightarrow> (case cs_phase s of InEvents rs \<Rightarrow> list_all (\<lambda>(a, r). clean_event r) rs | _ \<Rightarrow> True)"

lemma clean_ops: "clean_active s \<Longrightarrow> list_all clean_op (ops_of a op s)"
proof (cases op)
  case (UserOp th b uop)
  then show ?thesis by (cases uop) simp_all
qed (auto simp: clean_active_def split: conn_phase.splits list.splits loop_fn.splits prod.splits)

lemma clean_act:
  assumes "clean_active s" and "clean_poll op" and "conn_loop_act op s = Some s'"
  shows "clean_active s'"
  using assms by (cases op) (auto simp: clean_active_def clean_poll_def Let_def dest!: with_conn_phase
      split: if_splits conn_phase.splits list.splits loop_fn.splits prod.splits)

lemma clean_step: "clean_active s \<Longrightarrow> clean_poll op \<Longrightarrow> conn_loop_step op s = Some s' \<Longrightarrow> clean_active s'"
  using clean_act by (auto simp: conn_loop_step_def clean_active_def)

lemma clean_life: "clean_active s \<Longrightarrow> list_all clean_poll ops \<Longrightarrow> list_all clean_op (life_of a ops s)"
  using clean_ops clean_step by (induction ops arbitrary: s) (auto split: option.splits)

lemmas run_conn_loop = start_conn_loop_def new_loop_def fd_in_use_def with_conn_def get_slot_def on_loop_def
  enableReading_def updateChannel_def new_channel_def new_conn_def new_poller_def poller_update_def
  connectEstablished_def with_channel_def connectionCallback_def log_event_def tie_def Let_def
  queue_functor_def queueInLoop_def enqueue_def needs_wakeup_def wakeup_def shutdown_def run_functor_def
  connectDestroyed_def removeChannel_def held_def drop_unheld_def conn_loop_step_def may_report_def
  owner_lets_go_def in_active_def waiting_def hasChannel_def

section \<open>Properties of connections on one loop\<close>

text \<open>C4. A loop with many connections is many connections with a loop each: whatever the
  interleaving of poll results, handlers, functors, calls from any thread, new and released
  connections, a connection that is alive is, up to the poller it shares, the result of its own
  operations on a poller of its own, with the functors that wait for it in the shared queue, in their
  order, as its queue; and the poller knows its descriptor exactly when its own would.\<close>

theorem loop_refines_conns:
  assumes "conn_loop_run ops (start_conn_loop wa wfd now) = Some s" and "get_slot s a = Alive c"
  shows "\<exists>nm p wc hw.
    let d = fst (conn_run (life_of a ops (start_conn_loop wa wfd now))
                   (new_conn nm (new_channel a (ch_fd (c_channel c))) p wc hw))
    in d = c\<lparr>c_poller := c_poller d, c_queue := functors_of a (waiting s)\<rparr>
       \<and> hasChannel (c_channel d) (c_poller d) = hasChannel (c_channel c) (loop_poller (cs_loop s))"
proof -
  obtain nm p wc hw where
    m: "moved (functors_of a (waiting s)) (on_loop (loop_poller (cs_loop s)) c)
      (fst (conn_run (life_of a ops (start_conn_loop wa wfd now))
         (new_conn nm (new_channel a (ch_fd (c_channel c))) p wc hw)))" (is "moved _ _ ?d")
    using run_fine [OF assms] by (auto simp: conn_fine_def)
  have "?d = c\<lparr>c_poller := c_poller ?d, c_queue := functors_of a (waiting s)\<rparr>"
    using m by (intro conn.equality) (simp_all add: moved_iff on_loop_def)
  moreover have "hasChannel (c_channel ?d) (c_poller ?d) = hasChannel (c_channel c) (loop_poller (cs_loop s))"
    using m by (simp add: moved_iff on_loop_def hasChannel_def)
  ultimately show ?thesis by (intro exI [of _ nm] exI [of _ p] exI [of _ wc] exI [of _ hw]) (simp only: Let_def simp_thms)
qed


text \<open>The two provisos are needed. A thread calls \<^verbatim>\<open>shutdown()\<close> when the functors with
  \<^verbatim>\<open>connectDestroyed\<close> are already swapped out, and drops its pointer: \<^verbatim>\<open>shutdownInLoop\<close> runs in the
  next round, on a connection that is gone.\<close>

lemma shutdown_touches_freed:
  "conn_loop_run [NewConn True nm 7 wc hw, UserKeeps 0, UserOp False 0 OwnerDestroys, Polled [], SwapFunctors,
      UserOp False 0 (UserShutdown False), UserDrops 0, RunNext wr, FinishFunctors, Polled [], SwapFunctors, RunNext wr]
    (start_conn_loop 1 5 now) = None"
  by (simp add: run_conn_loop)

text \<open>So every guarantee of a single connection holds of each connection of a loop: what was
  received is what the user took and what is still readable, what was sent and what waits to be sent
  are the payloads accepted in its own life, and its user hears UP once and DOWN once, when it is
  disconnected; the latter provided no event reports a hang-up together with urgent data only.\<close>

theorem loop_keeps_guarantees:
  assumes "conn_loop_run ops (start_conn_loop wa wfd now) = Some s" and "get_slot s a = Alive c"
    and "list_all clean_poll ops"
  shows "c_taken c @ readable (inputBuffer c) = c_received c
    \<and> (\<exists>nm p wc hw. c_sent c @ readable (outputBuffer c)
        = snd (conn_run (life_of a ops (start_conn_loop wa wfd now))
            (new_conn nm (new_channel a (ch_fd (c_channel c))) p wc hw)))
    \<and> filter (\<lambda>e. \<exists>up. e = Connection up) (c_log c) = expected_notices (c_state c)
    \<and> count_list (c_log c) Close \<le> 1"
proof -
  let ?ops = "life_of a ops (start_conn_loop wa wfd now)"
  obtain nm p wc hw where
    m: "moved (functors_of a (waiting s)) (on_loop (loop_poller (cs_loop s)) c)
      (fst (conn_run ?ops (new_conn nm (new_channel a (ch_fd (c_channel c))) p wc hw)))"
      (is "moved _ _ (fst (conn_run _ ?c0))")
    using run_fine [OF assms(1,2)] by (auto simp: conn_fine_def)
  have "conn_ok ?c0" by (rule new_conn_ok) (simp add: new_channel_def isWriting_def)
  note ok = conn_run_props [OF this, of ?ops]
  have "life_ok ?c0" by (rule new_conn_life) (simp add: new_channel_def)
  moreover have "list_all clean_op ?ops"
    by (rule clean_life [OF _ assms(3)]) (simp add: clean_active_def start_conn_loop_def)
  ultimately have life: "life_ok (fst (conn_run ?ops ?c0))" by (rule life_run)
  have "out_stream ?c0 = []" by (simp add: out_stream_def new_conn_def)
  then have "c_sent c @ readable (outputBuffer c) = snd (conn_run ?ops ?c0)"
    using ok m by (simp add: out_stream_def moved_iff on_loop_def)
  moreover have "c_taken c @ readable (inputBuffer c) = c_received c"
    using ok m by (simp add: conn_ok_def moved_iff on_loop_def)
  moreover have "filter (\<lambda>e. \<exists>up. e = Connection up) (c_log c) = expected_notices (c_state c)
      \<and> count_list (c_log c) Close \<le> 1"
    using life m by (cases "c_state c") (simp_all add: life_ok_def notices_def closes_def moved_iff on_loop_def)
  ultimately show ?thesis by blast
qed

text \<open>Two connections on one loop, one of them told of its end while the other is still connecting.\<close>

definition two_conns :: "loop_op list" where
  "two_conns = [NewConn True ''a'' 7 False False, NewConn False ''b'' 8 False False, UserKeeps 0,
     UserOp False 0 OwnerDestroys, Polled [], SwapFunctors, RunNext (Wrote 0), RunNext (Wrote 0), FinishFunctors]"

lemma two_conns_run:
  "\<exists>s c d. conn_loop_run two_conns (start_conn_loop 1 5 0) = Some s \<and> get_slot s 0 = Alive c \<and> get_slot s 1 = Alive d
    \<and> c_state c = KDisconnected \<and> c_state d = KConnected"
  by (simp add: two_conns_def run_conn_loop)

lemma two_conns_clean: "list_all clean_poll two_conns" "list_all safe_op two_conns"
  by (simp_all add: two_conns_def clean_poll_def safe_op_def)

theorem loop_refines_conns_witness:
  "\<exists>s c nm p wc hw. get_slot s 1 = Alive c \<and> c_state c = KConnected
    \<and> (let d = fst (conn_run (life_of 1 two_conns (start_conn_loop 1 5 0))
                   (new_conn nm (new_channel 1 (ch_fd (c_channel c))) p wc hw))
       in d = c\<lparr>c_poller := c_poller d, c_queue := functors_of 1 (waiting s)\<rparr>)"
proof -
  obtain s c d where r: "conn_loop_run two_conns (start_conn_loop 1 5 0) = Some s" "get_slot s 1 = Alive d"
      "c_state d = KConnected"
    using two_conns_run by blast
  from loop_refines_conns [OF r(1,2)] r(2,3) show ?thesis unfolding Let_def by blast
qed


theorem loop_keeps_guarantees_witness:
  "\<exists>s c. get_slot s 0 = Alive c \<and> c_state c = KDisconnected
    \<and> filter (\<lambda>e. \<exists>up. e = Connection up) (c_log c) = [Connection True, Connection False]"
proof -
  obtain s c where r: "conn_loop_run two_conns (start_conn_loop 1 5 0) = Some s" "get_slot s 0 = Alive c"
      "c_state c = KDisconnected"
    using two_conns_run by blast
  from loop_keeps_guarantees [OF r(1,2) two_conns_clean(1)] r(2,3) show ?thesis by auto
qed

end
