(* ===== verification/Echo.thy ===== *)
theory Echo
  imports TcpConn "HOL-Library.Sublist"
begin

text \<open>
  The echo example: \<^verbatim>\<open>EchoServer\<close> of \<^verbatim>\<open>example/example_echoserver.cpp\<close> and \<^verbatim>\<open>EchoClient\<close> with
  its \<^verbatim>\<open>main\<close> of \<^verbatim>\<open>example/example_echoclient.cpp\<close>, over one connection, whose ends are two
  connections of \<open>TcpConn\<close>, from when both ends are established (\<^verbatim>\<open>waituntilconnect\<close>). The network
  delivers to an end what the other end's kernel took, in order: what is in flight is what one has
  sent and the other not yet received, and a read returns a part of it.

  The steps are those of the client's main thread, of its loop thread and of the server's loop
  thread, in any order; a connection made by a retry is not followed.
\<close>

section \<open>The two programs\<close>

definition exit_msg :: bytes where "exit_msg = [101, 120, 105, 116, 10]"
definition quit_msg :: bytes where "quit_msg = [113, 117, 105, 116, 10]"
definition bye_msg :: bytes where "bye_msg = [98, 121, 101, 10]"

text \<open>\<^verbatim>\<open>EchoServer::onMessage\<close>: the flag is that of the loop, \<open>wr1\<close> and \<open>wr2\<close> what the writes return.\<close>

definition EchoServer_onMessage :: "write_result \<Rightarrow> write_result \<Rightarrow> conn \<times> bool \<Rightarrow> conn \<times> bool" where
  "EchoServer_onMessage wr1 wr2 = (\<lambda>(c, quit).
     let (msg, c1) = readAll c;
         c2 = (if msg = exit_msg then shutdown True (conn_send True bye_msg wr1 c1) else c1)
     in (conn_send True msg wr2 c2, if msg = quit_msg then True else quit))"

text \<open>The main thread of the client writes, waits on the condition variable, is woken, and prints
  whether what came back is what it wrote.\<close>

datatype main_phase = Writing | Waiting | Woken | Printed bool

record echo_user =
  sent_all :: bytes
  got :: bytes
  conn_held :: bool
  main_at :: main_phase

definition notify_one :: "echo_user \<Rightarrow> echo_user" where
  "notify_one u = (if main_at u = Waiting then u\<lparr>main_at := Woken\<rparr> else u)"

definition EchoClient_onConnection :: "conn \<Rightarrow> echo_user \<Rightarrow> echo_user" where
  "EchoClient_onConnection c u = u\<lparr>conn_held := connected c\<rparr>"

definition EchoClient_onMessage :: "conn \<times> echo_user \<Rightarrow> conn \<times> echo_user" where
  "EchoClient_onMessage = (\<lambda>(c, u).
     let (msg, c') = readAll c; u' = u\<lparr>got := got u @ msg\<rparr>
     in (c', if length (got u') = length (sent_all u') then notify_one u' else u'))"

definition EchoClient_write :: "bytes \<Rightarrow> conn \<times> echo_user \<Rightarrow> conn" where
  "EchoClient_write message = (\<lambda>(c, u). if conn_held u then conn_send False message (Wrote 0) c else c)"

text \<open>\<^verbatim>\<open>generateRandomString\<close> on the results of \<^verbatim>\<open>rand()\<close>.\<close>

definition alphanum :: bytes where
  "alphanum = map word_of_nat ([48..<58] @ [65..<91] @ [97..<123])"

definition generateRandomString :: "nat list \<Rightarrow> bytes" where
  "generateRandomString rs = map (\<lambda>r. alphanum ! (r mod length alphanum)) rs"

text \<open>An event with the user's message callback inside \<^verbatim>\<open>handleRead\<close>.\<close>

definition app_handler :: "(conn \<times> 'a \<Rightarrow> conn \<times> 'a) \<Rightarrow> read_result \<Rightarrow> write_result \<Rightarrow> event_cb
    \<Rightarrow> conn \<times> 'a \<Rightarrow> conn \<times> 'a" where
  "app_handler onMessage rd wr cb = (\<lambda>(c, x).
     let c' = conn_handler rd wr cb c
     in if cb = ReadCb \<and> fst (readFd rd (inputBuffer c)) > 0 then onMessage (c', x) else (c', x))"

definition app_dispatch :: "(conn \<times> 'a \<Rightarrow> conn \<times> 'a) \<Rightarrow> event_mask \<Rightarrow> read_result \<Rightarrow> write_result
    \<Rightarrow> conn \<times> 'a \<Rightarrow> conn \<times> 'a" where
  "app_dispatch onMessage r rd wr = (\<lambda>(c, x).
     handleEvent True (\<lambda>s. c_channel (fst s)) (app_handler onMessage rd wr)
       (c\<lparr>c_channel := set_revents r (c_channel c)\<rparr>, x))"

section \<open>The client, the network and the server\<close>

record echo =
  cli :: conn
  usr :: echo_user
  srv :: conn
  srv_quit :: bool

text \<open>What \<^verbatim>\<open>readv\<close> returns: a part of what is in flight, 0 at the end of the stream, else \<^verbatim>\<open>EAGAIN\<close>.\<close>

definition arrived :: "nat \<Rightarrow> conn \<Rightarrow> conn \<Rightarrow> read_result" where
  "arrived n peer me =
     (let flight = drop (length (c_received me)) (c_sent peer);
          d = take (min n (iov_capacity (inputBuffer me))) flight
      in if d \<noteq> [] then ReadBytes d
         else if flight = [] \<and> c_wr_shut peer then ReadBytes []
         else ReadError EWOULDBLOCK)"

definition established_conn :: "string \<Rightarrow> fd \<Rightarrow> bool \<Rightarrow> conn" where
  "established_conn nm f wc = connectEstablished (new_conn nm (new_channel 1 f) new_poller wc False)"

definition start_echo :: echo where
  "start_echo = \<lparr>cli = established_conn ''EchoClient'' 7 True,
     usr = \<lparr>sent_all = [], got = [], conn_held = True, main_at = Writing\<rparr>,
     srv = established_conn ''EchoServer'' 9 False, srv_quit = False\<rparr>"

datatype echo_op = MainWrite "nat list" | MainWait | SpuriousWake | MainCompare
  | ClientEvent event_mask nat write_result | ClientFunctor write_result | ClientOwner
  | ServerEvent event_mask nat write_result write_result write_result | ServerFunctor write_result
  | ServerOwner

text \<open>\<^verbatim>\<open>cond.wait(lock)\<close> has no predicate: it may also return without a notification (\<open>SpuriousWake\<close>).
  A step of the client's loop thread, which tells \<^verbatim>\<open>onConnection\<close> when the connection goes down.\<close>

definition cli_does :: "conn \<times> echo_user \<Rightarrow> echo \<Rightarrow> echo" where
  "cli_does = (\<lambda>(c, u) e. e\<lparr>cli := c,
     usr := (if connection_told (cli e) c then EchoClient_onConnection c u else u)\<rparr>)"

fun echo_step :: "echo_op \<Rightarrow> echo \<Rightarrow> echo" where
  "echo_step (MainWrite rs) e =
     (if main_at (usr e) = Writing
      then let s = generateRandomString rs; u = (usr e)\<lparr>sent_all := sent_all (usr e) @ s\<rparr>
           in e\<lparr>usr := u, cli := EchoClient_write s (cli e, u)\<rparr>
      else e)"
| "echo_step MainWait e =
     (if main_at (usr e) = Writing then e\<lparr>usr := (usr e)\<lparr>main_at := Waiting\<rparr>\<rparr> else e)"
| "echo_step SpuriousWake e =
     (if main_at (usr e) = Waiting then e\<lparr>usr := (usr e)\<lparr>main_at := Woken\<rparr>\<rparr> else e)"
| "echo_step MainCompare e =
     (if main_at (usr e) = Woken
      then e\<lparr>usr := (usr e)\<lparr>main_at := Printed (got (usr e) = sent_all (usr e))\<rparr>,
             cli := shutdown False (cli e)\<rparr>
      else e)"
| "echo_step (ClientEvent r n wr) e =
     (if conn_registered (cli e)
      then cli_does (app_dispatch EchoClient_onMessage r (arrived n (srv e) (cli e)) wr (cli e, usr e)) e
      else e)"
| "echo_step (ClientFunctor wr) e = cli_does (conn_apply (RunQueued wr) (cli e), usr e) e"
| "echo_step ClientOwner e = e\<lparr>cli := conn_apply OwnerDestroys (cli e)\<rparr>"
| "echo_step (ServerEvent r n wr wr1 wr2) e =
     (if conn_registered (srv e)
      then let (c, q) = app_dispatch (EchoServer_onMessage wr1 wr2) r (arrived n (cli e) (srv e)) wr
                          (srv e, srv_quit e)
           in e\<lparr>srv := c, srv_quit := q\<rparr>
      else e)"
| "echo_step (ServerFunctor wr) e = e\<lparr>srv := conn_apply (RunQueued wr) (srv e)\<rparr>"
| "echo_step ServerOwner e = e\<lparr>srv := conn_apply OwnerDestroys (srv e)\<rparr>"

definition echo_run :: "echo_op list \<Rightarrow> echo" where
  "echo_run ops = fold echo_step ops start_echo"

section \<open>What a step does to the streams\<close>

text \<open>The payloads that wait in the queue of a connection.\<close>

fun queued_payloads :: "conn_functor list \<Rightarrow> bytes" where
  "queued_payloads [] = []"
| "queued_payloads (FSend s # fs) = s @ queued_payloads fs"
| "queued_payloads (_ # fs) = queued_payloads fs"

lemma queued_append [simp]: "queued_payloads (xs @ ys) = queued_payloads xs @ queued_payloads ys"
  by (induction xs rule: queued_payloads.induct) simp_all

definition write_ok :: "write_result \<Rightarrow> bool" where
  "write_ok wr \<longleftrightarrow> (case wr of Wrote n \<Rightarrow> True | WriteFailed e \<Rightarrow> \<not> send_fault e)"

lemma accepts_ok: "write_ok wr \<Longrightarrow> c_state c \<noteq> KDisconnected \<Longrightarrow> send_accepts s wr c"
  by (cases wr) (simp_all add: write_ok_def send_accepts_def send_direct_def Let_def)

text \<open>What a step keeps: the bytes the kernel took stay taken, the input is left alone.\<close>

definition input_kept :: "conn \<Rightarrow> conn \<Rightarrow> bool" where
  "input_kept c c' \<longleftrightarrow> inputBuffer c' = inputBuffer c \<and> c_received c' = c_received c
     \<and> c_taken c' = c_taken c \<and> prefix (c_sent c) (c_sent c')
     \<and> (c_state c' = c_state c \<or> c_state c' = KDisconnected)
     \<and> queued_payloads (c_queue c') = queued_payloads (c_queue c)"

lemma input_kept_trans: "input_kept c c' \<Longrightarrow> input_kept c' c'' \<Longrightarrow> input_kept c c''"
  by (auto simp: input_kept_def intro: prefix_order.trans)

lemma input_kept_refl [simp]: "input_kept c c"
  by (simp add: input_kept_def)

lemma quiet_sendInLoop: "input_kept c (sendInLoop s wr c)"
proof -
  have d: "input_kept c (snd (snd (send_direct s wr c)))"
    by (cases wr) (simp_all add: input_kept_def send_direct_def Let_def queue_functor_def)
  have r: "input_kept x (send_rest s n x)" for n x
    by (simp add: input_kept_def send_rest_def Let_def queue_functor_def)
  show ?thesis using d input_kept_trans [OF d r] by (simp add: sendInLoop_def split_beta)
qed

lemma quiet_handlers:
  "input_kept c (handleClose c)" "input_kept c (handleError c)" "input_kept c (handleWrite wr c)"
  "input_kept c (shutdownInLoop c)" "input_kept c (forceCloseInLoop c)" "input_kept c (connectDestroyed c)"
  "input_kept c (log_event ev c)"
  by (simp_all add: input_kept_def handleClose_def handleError_def handleWrite_def shutdownInLoop_def
      forceCloseInLoop_def connectDestroyed_def connectionCallback_def Let_def queue_functor_def)

text \<open>\<^verbatim>\<open>handleRead\<close> on an empty input buffer.\<close>

lemma handleRead_bytes:
  assumes "conn_ok c" and "d \<noteq> []" and "readable (inputBuffer c) = []"
  shows "readable (inputBuffer (handleRead (ReadBytes d) c)) = d"
    and "c_received (handleRead (ReadBytes d) c) = c_received c @ d"
    and "c_taken (handleRead (ReadBytes d) c) = c_taken c" "c_sent (handleRead (ReadBytes d) c) = c_sent c"
    and "c_state (handleRead (ReadBytes d) c) = c_state c" "c_queue (handleRead (ReadBytes d) c) = c_queue c"
    and "outputBuffer (handleRead (ReadBytes d) c) = outputBuffer c"
    and "c_channel (handleRead (ReadBytes d) c) = c_channel c"
  using assms readFd_spec [of "inputBuffer c" d]
  by (simp_all add: handleRead_def conn_ok_def split_beta Let_def)

lemma handleRead_none:
  assumes "conn_ok c" and "rd = ReadBytes [] \<or> rd = ReadError en"
  shows "readable (inputBuffer (handleRead rd c)) = readable (inputBuffer c)"
    and "c_received (handleRead rd c) = c_received c" and "c_taken (handleRead rd c) = c_taken c"
    and "prefix (c_sent c) (c_sent (handleRead rd c))"
    and "c_state (handleRead rd c) = c_state c \<or> c_state (handleRead rd c) = KDisconnected"
    and "queued_payloads (c_queue (handleRead rd c)) = queued_payloads (c_queue c)"
proof -
  let ?c = "c\<lparr>inputBuffer := snd (readFd rd (inputBuffer c)), c_received := c_received c @ []\<rparr>"
  have r: "readable (snd (readFd rd (inputBuffer c))) = readable (inputBuffer c)"
    using assms readFd_spec(2) [of "inputBuffer c" "[]"] by (auto simp: conn_ok_def)
  have "input_kept ?c (handleRead rd c)"
    using assms readFd_spec(3) [of "inputBuffer c" "[]"] quiet_handlers(1) [of ?c]
      input_kept_trans [OF quiet_handlers(7) [of ?c Fatal] quiet_handlers(7) [where ev = Fatal]]
    by (auto simp: handleRead_def conn_ok_def split_beta Let_def handleError_def)
  with r show "readable (inputBuffer (handleRead rd c)) = readable (inputBuffer c)"
    "c_received (handleRead rd c) = c_received c" "c_taken (handleRead rd c) = c_taken c"
    "prefix (c_sent c) (c_sent (handleRead rd c))"
    "c_state (handleRead rd c) = c_state c \<or> c_state (handleRead rd c) = KDisconnected"
    "queued_payloads (c_queue (handleRead rd c)) = queued_payloads (c_queue c)"
    by (simp_all add: input_kept_def)
qed

lemma readAll_props:
  assumes ok: "conn_ok c"
  shows "fst (readAll c) = readable (inputBuffer c)" and "conn_ok (snd (readAll c))"
    and "readable (inputBuffer (snd (readAll c))) = []"
    and "c_taken (snd (readAll c)) = c_taken c @ readable (inputBuffer c)"
    and "out_stream (snd (readAll c)) = out_stream c"
    and "c_received (snd (readAll c)) = c_received c" "c_sent (snd (readAll c)) = c_sent c"
    and "c_state (snd (readAll c)) = c_state c" "c_queue (snd (readAll c)) = c_queue c"
proof -
  have wf: "buffer_wf (inputBuffer c)" using ok by (simp add: conn_ok_def)
  show "fst (readAll c) = readable (inputBuffer c)" by (simp add: readAll_def tryRead_def Let_def)
  show "conn_ok (snd (readAll c))" "out_stream (snd (readAll c)) = out_stream c"
    using conn_retrieve_props [OF ok] by (simp_all add: readAll_def Let_def)
  show "readable (inputBuffer (snd (readAll c))) = []"
    "c_taken (snd (readAll c)) = c_taken c @ readable (inputBuffer c)"
    "c_received (snd (readAll c)) = c_received c" "c_sent (snd (readAll c)) = c_sent c"
    "c_state (snd (readAll c)) = c_state c" "c_queue (snd (readAll c)) = c_queue c"
    using bq.contents_pull [OF wf, of "length (readable (inputBuffer c))"] bq.queue_laws [OF wf]
    by (auto simp: readAll_def conn_retrieve_def tryRead_def split_beta Let_def)
qed

text \<open>The read callback runs once per event: \<open>P\<close> holds until it ran, \<open>Q\<close> from then on.\<close>

lemma guard_once:
  assumes "\<And>s cb. cb \<noteq> ReadCb \<Longrightarrow> P s \<Longrightarrow> P (run cb s)" and "\<And>s. P s \<Longrightarrow> Q (run ReadCb s)"
    and "\<And>s. P s \<Longrightarrow> Q s" and "\<And>s. Q s \<Longrightarrow> Q (run WriteCb s)" and "P s"
  shows "Q (handleEventWithGuard view run s)"
proof -
  have 1: "P x \<Longrightarrow> P (if b then run CloseCb x else x)" and 2: "P x \<Longrightarrow> P (if b then run ErrorCb x else x)"
    and 3: "P x \<Longrightarrow> Q (if b then run ReadCb x else x)" and 4: "Q x \<Longrightarrow> Q (if b then run WriteCb x else x)" for x b
    using assms(1-4) by simp_all
  show ?thesis
    unfolding handleEventWithGuard_def Let_def by (intro 4 3 2 1 assms(5))
qed

lemma dispatch_once:
  assumes "\<And>s cb. cb \<noteq> ReadCb \<Longrightarrow> P s \<Longrightarrow> P (app_handler onMessage rd wr cb s)"
    and "\<And>s. P s \<Longrightarrow> Q (app_handler onMessage rd wr ReadCb s)"
    and "\<And>s. P s \<Longrightarrow> Q s" and "\<And>s. Q s \<Longrightarrow> Q (app_handler onMessage rd wr WriteCb s)"
    and "P (c\<lparr>c_channel := set_revents r (c_channel c)\<rparr>, x)"
  shows "Q (app_dispatch onMessage r rd wr (c, x))"
  using guard_once [where P = P and Q = Q, OF assms] by (simp add: app_dispatch_def handleEvent_def)

lemma app_handler_quiet:
  assumes "cb \<noteq> ReadCb" and "conn_ok c"
  obtains c' where "app_handler onMessage rd wr cb (c, x) = (c', x)" and "input_kept c c'" and "conn_ok c'"
    and "out_stream c' = out_stream c"
proof
  show "app_handler onMessage rd wr cb (c, x) = (conn_handler rd wr cb c, x)"
    using assms(1) by (simp add: app_handler_def)
  show "input_kept c (conn_handler rd wr cb c)"
    using assms(1) quiet_handlers by (cases cb) (simp_all add: conn_handler_def)
  show "conn_ok (conn_handler rd wr cb c)" "out_stream (conn_handler rd wr cb c) = out_stream c"
    using conn_handler_props [OF assms(2)] by blast+
qed

text \<open>What a read returns continues what was received.\<close>

lemma arrived_cases:
  assumes "prefix (c_received me) (c_sent peer)"
  obtains d where "arrived n peer me = ReadBytes d" and "d \<noteq> []" and "prefix (c_received me @ d) (c_sent peer)"
  | en where "arrived n peer me = ReadBytes [] \<or> arrived n peer me = ReadError en"
proof -
  obtain f where f: "c_sent peer = c_received me @ f" using assms by (auto simp: prefix_def)
  define d where "d = take (min n (iov_capacity (inputBuffer me))) f"
  have "prefix (c_received me @ d) (c_sent peer)" by (simp add: f d_def take_is_prefix)
  moreover have "arrived n peer me = (if d \<noteq> [] then ReadBytes d
      else if f = [] \<and> c_wr_shut peer then ReadBytes [] else ReadError EWOULDBLOCK)"
    by (simp add: arrived_def f d_def Let_def)
  ultimately show thesis using that by (cases "d = []") (auto split: if_splits)
qed

section \<open>The invariant\<close>

definition cli_ok :: "bytes \<Rightarrow> conn \<times> echo_user \<Rightarrow> bool" where
  "cli_ok S = (\<lambda>(c, u). conn_ok c \<and> readable (inputBuffer c) = [] \<and> got u = c_taken c \<and> prefix (c_received c) S
     \<and> prefix (out_stream c @ (if c_state c = KDisconnected then [] else queued_payloads (c_queue c))) (sent_all u)
     \<and> (c_state c = KConnected \<longrightarrow> out_stream c @ queued_payloads (c_queue c) = sent_all u \<and> conn_held u))"

lemma cli_ok_quiet:
  assumes "cli_ok S (c, u)" and "input_kept c c'" and "conn_ok c'" and "out_stream c' = out_stream c"
  shows "cli_ok S (c', u)"
  using assms by (auto simp: cli_ok_def input_kept_def dest: append_prefixD)

lemma EchoClient_onMessage_sel:
  "fst (EchoClient_onMessage (c, u)) = snd (readAll c)"
  "got (snd (EchoClient_onMessage (c, u))) = got u @ fst (readAll c)"
  "sent_all (snd (EchoClient_onMessage (c, u))) = sent_all u"
  "conn_held (snd (EchoClient_onMessage (c, u))) = conn_held u"
  by (simp_all add: EchoClient_onMessage_def notify_one_def split_beta Let_def)

lemma cli_read:
  assumes ok: "cli_ok (c_sent peer) (c, u)" and rd: "rd = arrived n peer me" and recv: "c_received c = c_received me"
  shows "cli_ok (c_sent peer) (app_handler EchoClient_onMessage rd wr ReadCb (c, u))
    \<and> prefix (c_sent c) (c_sent (fst (app_handler EchoClient_onMessage rd wr ReadCb (c, u))))"
proof -
  have c: "conn_ok c" "readable (inputBuffer c) = []" using ok by (simp_all add: cli_ok_def)
  have "prefix (c_received me) (c_sent peer)" using ok recv by (simp add: cli_ok_def)
  then show ?thesis
  proof (cases rule: arrived_cases [where n = n])
    case (1 d)
    let ?c = "handleRead (ReadBytes d) c"
    note h = handleRead_bytes [OF c(1) 1(2) c(2)]
    have ok': "conn_ok ?c" and out: "out_stream ?c = out_stream c" using handleRead_props [OF c(1)] by blast+
    note r = readAll_props [OF ok']
    have "app_handler EchoClient_onMessage rd wr ReadCb (c, u) = EchoClient_onMessage (?c, u)"
      using 1 c(1) readFd_spec(3) [of "inputBuffer c" d]
      by (simp add: app_handler_def rd conn_handler_def conn_ok_def)
    moreover have "cli_ok (c_sent peer) (EchoClient_onMessage (?c, u))"
    proof -
      obtain c2 u2 where e: "EchoClient_onMessage (?c, u) = (c2, u2)" by (cases "EchoClient_onMessage (?c, u)")
      have "c2 = snd (readAll ?c)" "got u2 = got u @ fst (readAll ?c)" "sent_all u2 = sent_all u"
          "conn_held u2 = conn_held u"
        using EchoClient_onMessage_sel [of ?c u] by (simp_all add: e)
      then show ?thesis using ok r h out 1(3) recv by (simp add: cli_ok_def e split: if_splits)
    qed
    ultimately show ?thesis using r h by (simp add: EchoClient_onMessage_sel)
  next
    case (2 en)
    note h = handleRead_none [OF c(1), of rd en] and rd' = 2 [folded rd]
    have "app_handler EchoClient_onMessage rd wr ReadCb (c, u) = (handleRead rd c, u)"
      using rd' c(1) readFd_spec(3) [of "inputBuffer c" "[]"]
      by (auto simp: app_handler_def conn_handler_def conn_ok_def)
    then show ?thesis
      using ok h [OF rd'] handleRead_props [OF c(1), of rd] by (auto simp: cli_ok_def dest: append_prefixD)
  qed
qed

lemma cli_dispatch:
  assumes ok: "cli_ok (c_sent peer) (c, u)"
  shows "cli_ok (c_sent peer) (app_dispatch EchoClient_onMessage r (arrived n peer c) wr (c, u))
    \<and> prefix (c_sent c) (c_sent (fst (app_dispatch EchoClient_onMessage r (arrived n peer c) wr (c, u))))"
proof -
  let ?Q = "\<lambda>x. cli_ok (c_sent peer) x \<and> prefix (c_sent c) (c_sent (fst x))"
  let ?P = "\<lambda>x. ?Q x \<and> c_received (fst x) = c_received c"
  have quiet: "?Q (app_handler EchoClient_onMessage rd wr cb x)
      \<and> c_received (fst (app_handler EchoClient_onMessage rd wr cb x)) = c_received (fst x)"
    if "cb \<noteq> ReadCb" and q: "?Q x" for cb x rd
  proof -
    obtain c1 u1 where x: "x = (c1, u1)" by (cases x)
    have "conn_ok c1" using q by (simp add: cli_ok_def x)
    from app_handler_quiet [OF \<open>cb \<noteq> ReadCb\<close> this] obtain c' where
      "app_handler EchoClient_onMessage rd wr cb (c1, u1) = (c', u1)" "input_kept c1 c'" "conn_ok c'"
      "out_stream c' = out_stream c1" by metis
    then show ?thesis using q cli_ok_quiet by (auto simp: x input_kept_def intro: prefix_order.trans)
  qed
  have read: "?Q (app_handler EchoClient_onMessage (arrived n peer c) wr ReadCb x)" if "?P x" for x
    using that cli_read [of peer "fst x" "snd x"] by (auto intro: prefix_order.trans)
  have "?P (c\<lparr>c_channel := set_revents r (c_channel c)\<rparr>, u)"
    using ok by (auto simp: cli_ok_def conn_ok_def writes_pending_def out_stream_def split: if_splits)
  then show ?thesis
  proof (rule dispatch_once [where P = ?P and Q = ?Q, rotated -1])
    show "?P (app_handler EchoClient_onMessage (arrived n peer c) wr cb x)" if "cb \<noteq> ReadCb" "?P x" for x cb
      using quiet [OF that(1), of x] that(2) by simp
    show "?Q (app_handler EchoClient_onMessage (arrived n peer c) wr ReadCb x)" if "?P x" for x using read [OF that] .
    show "?Q x" if "?P x" for x using that by simp
    show "?Q (app_handler EchoClient_onMessage (arrived n peer c) wr WriteCb x)" if "?Q x" for x using quiet [of WriteCb x] that by simp
  qed
qed

text \<open>The server. \<open>S\<close> are the bytes the client's kernel took, none of them a newline.\<close>

definition srv_ok :: "bytes \<Rightarrow> conn \<times> bool \<Rightarrow> bool" where
  "srv_ok S = (\<lambda>(c, quit). conn_ok c \<and> readable (inputBuffer c) = [] \<and> prefix (c_received c) S
     \<and> queued_payloads (c_queue c) = [] \<and> prefix (out_stream c) (c_taken c)
     \<and> (c_state c = KConnected \<longrightarrow> out_stream c = c_taken c) \<and> \<not> quit)"

lemma srv_ok_quiet:
  assumes "srv_ok S (c, q)" and "input_kept c c'" and "conn_ok c'" and "out_stream c' = out_stream c"
  shows "srv_ok S (c', q)"
  using assms by (auto simp: srv_ok_def input_kept_def)

lemma newline_msgs: "10 \<in> set exit_msg" "10 \<in> set quit_msg"
  by (simp_all add: exit_msg_def quit_msg_def)

lemma no_newline:
  assumes "10 \<notin> set S" and "prefix (xs @ d) S"
  shows "d \<noteq> exit_msg" and "d \<noteq> quit_msg"
  using assms newline_msgs set_mono_prefix [OF assms(2)] by auto

lemma srv_read:
  assumes ok: "srv_ok (c_sent peer) (c, q)" and rd: "rd = arrived n peer me" and recv: "c_received c = c_received me"
    and nl: "10 \<notin> set (c_sent peer)" and w: "write_ok wr2"
  shows "srv_ok (c_sent peer) (app_handler (EchoServer_onMessage wr1 wr2) rd wr ReadCb (c, q))
    \<and> prefix (c_sent c) (c_sent (fst (app_handler (EchoServer_onMessage wr1 wr2) rd wr ReadCb (c, q))))"
proof -
  let ?on = "EchoServer_onMessage wr1 wr2"
  have c: "conn_ok c" "readable (inputBuffer c) = []" using ok by (simp_all add: srv_ok_def)
  have "prefix (c_received me) (c_sent peer)" using ok recv by (simp add: srv_ok_def)
  then show ?thesis
  proof (cases rule: arrived_cases [where n = n])
    case (1 d)
    let ?c = "handleRead (ReadBytes d) c"
    note h = handleRead_bytes [OF c(1) 1(2) c(2)]
    have ok': "conn_ok ?c" and out: "out_stream ?c = out_stream c" using handleRead_props [OF c(1)] by blast+
    define c1 where "c1 = snd (readAll ?c)"
    note r = readAll_props [OF ok', folded c1_def]
    have app: "app_handler ?on rd wr ReadCb (c, q) = (conn_send True d wr2 c1, q)"
      using 1 c(1) readFd_spec(3) [of "inputBuffer c" d] no_newline [OF nl 1(3)] r(1) h(1)
      by (simp add: app_handler_def rd conn_handler_def conn_ok_def EchoServer_onMessage_def c1_def split_beta Let_def)
    show ?thesis
    proof (cases "c_state c = KConnected")
      case True
      then have st: "c_state c1 = KConnected" using r h by simp
      have "out_stream (sendInLoop d wr2 c1) = out_stream c1 @ d" "conn_ok (sendInLoop d wr2 c1)"
        using sendInLoop_props [OF r(2), of d wr2] accepts_ok [OF w, of c1 d] st by simp_all
      moreover have "input_kept c1 (sendInLoop d wr2 c1)" by (rule quiet_sendInLoop)
      ultimately show ?thesis
        using ok True r h out 1(3) recv st
        unfolding app by (auto simp: srv_ok_def conn_send_def input_kept_def)
    next
      case False
      then show ?thesis
        using ok r h out 1(3) recv
        unfolding app by (auto simp: srv_ok_def conn_send_def intro: prefix_order.trans)
    qed
  next
    case (2 en)
    note h = handleRead_none [OF c(1), of rd en] and rd' = 2 [folded rd]
    have "app_handler ?on rd wr ReadCb (c, q) = (handleRead rd c, q)"
      using rd' c(1) readFd_spec(3) [of "inputBuffer c" "[]"]
      by (auto simp: app_handler_def conn_handler_def conn_ok_def)
    then show ?thesis
      using ok h [OF rd'] handleRead_props [OF c(1), of rd] by (auto simp: srv_ok_def)
  qed
qed

lemma srv_dispatch:
  assumes ok: "srv_ok (c_sent peer) (c, q)" and nl: "10 \<notin> set (c_sent peer)" and w: "write_ok wr2"
  shows "srv_ok (c_sent peer) (app_dispatch (EchoServer_onMessage wr1 wr2) r (arrived n peer c) wr (c, q))
    \<and> prefix (c_sent c) (c_sent (fst (app_dispatch (EchoServer_onMessage wr1 wr2) r (arrived n peer c) wr (c, q))))"
proof -
  let ?on = "EchoServer_onMessage wr1 wr2"
  let ?Q = "\<lambda>x. srv_ok (c_sent peer) x \<and> prefix (c_sent c) (c_sent (fst x))"
  let ?P = "\<lambda>x. ?Q x \<and> c_received (fst x) = c_received c"
  have quiet: "?Q (app_handler ?on rd wr cb x) \<and> c_received (fst (app_handler ?on rd wr cb x)) = c_received (fst x)"
    if "cb \<noteq> ReadCb" and q: "?Q x" for cb x rd
  proof -
    obtain c1 q1 where x: "x = (c1, q1)" by (cases x)
    have "conn_ok c1" using q by (simp add: srv_ok_def x)
    from app_handler_quiet [OF \<open>cb \<noteq> ReadCb\<close> this] obtain c' where
      "app_handler ?on rd wr cb (c1, q1) = (c', q1)" "input_kept c1 c'" "conn_ok c'"
      "out_stream c' = out_stream c1" by metis
    then show ?thesis using q srv_ok_quiet by (auto simp: x input_kept_def intro: prefix_order.trans)
  qed
  have read: "?Q (app_handler ?on (arrived n peer c) wr ReadCb x)" if "?P x" for x
    using that srv_read [of peer "fst x" "snd x", OF _ _ _ nl w] by (auto intro: prefix_order.trans)
  have "?P (c\<lparr>c_channel := set_revents r (c_channel c)\<rparr>, q)"
    using ok by (auto simp: srv_ok_def conn_ok_def writes_pending_def out_stream_def)
  then show ?thesis
  proof (rule dispatch_once [where P = ?P and Q = ?Q, rotated -1])
    show "?P (app_handler ?on (arrived n peer c) wr cb x)" if "cb \<noteq> ReadCb" "?P x" for x cb
      using quiet [OF that(1), of x] that(2) by simp
    show "?Q (app_handler ?on (arrived n peer c) wr ReadCb x)" if "?P x" for x using read [OF that] .
    show "?Q x" if "?P x" for x using that by simp
    show "?Q (app_handler ?on (arrived n peer c) wr WriteCb x)" if "?Q x" for x using quiet [of WriteCb x] that by simp
  qed
qed

lemma cli_ok_mono: "cli_ok S x \<Longrightarrow> prefix S S' \<Longrightarrow> cli_ok S' x"
  by (auto simp: cli_ok_def intro: prefix_order.trans)

lemma srv_ok_mono: "srv_ok S x \<Longrightarrow> prefix S S' \<Longrightarrow> srv_ok S' x"
  by (auto simp: srv_ok_def intro: prefix_order.trans)

text \<open>A functor that is not a payload, and a payload.\<close>

lemma functor_quiet:
  assumes "\<And>s. f \<noteq> FSend s"
  shows "input_kept c (run_functor f wr c)"
  using assms quiet_handlers by (cases f) (auto simp: run_functor_def)

lemma functor_props:
  assumes "conn_ok c" and "c_queue c = f # fs"
  shows "conn_ok (conn_apply (RunQueued wr) c)"
    and "out_stream (conn_apply (RunQueued wr) c) = out_stream c @ (case f of
      FSend s \<Rightarrow> if send_accepts s wr (c\<lparr>c_queue := fs\<rparr>) then s else [] | _ \<Rightarrow> [])"
  using conn_apply_props [OF assms(1), of "RunQueued wr"] assms(2)
  by (simp_all add: op_accepts_def split: conn_functor.splits)

lemma functor_other: "\<nexists>s. f = FSend s \<Longrightarrow> (case f of FSend s \<Rightarrow> g s | _ \<Rightarrow> []) = []"
  by (cases f) simp_all

lemma out_stream_queue: "out_stream (c\<lparr>c_queue := fs\<rparr>) = out_stream c"
  by (simp add: out_stream_def)

lemma cli_functor:
  assumes ok: "cli_ok S (c, u)" and w: "write_ok wr"
  shows "cli_ok S (conn_apply (RunQueued wr) c, u) \<and> prefix (c_sent c) (c_sent (conn_apply (RunQueued wr) c))"
proof (cases "c_queue c")
  case Nil
  then show ?thesis using ok by simp
next
  case (Cons f fs)
  let ?c = "c\<lparr>c_queue := fs\<rparr>"
  let ?c' = "conn_apply (RunQueued wr) c"
  have c: "conn_ok c" using ok by (simp add: cli_ok_def)
  note p = functor_props [OF c Cons, of wr]
  have c': "?c' = run_functor f wr ?c" by (simp add: Cons)
  show ?thesis
  proof (cases "\<exists>s. f = FSend s")
    case True
    then obtain s where f: "f = FSend s" by blast
    have q: "input_kept ?c ?c'" using quiet_sendInLoop by (simp add: Cons f run_functor_def)
    have st: "c_state ?c' = c_state c" by (simp add: Cons f run_functor_def sendInLoop_state)
    have acc: "c_state c \<noteq> KDisconnected \<Longrightarrow> send_accepts s wr ?c" using accepts_ok [OF w, of ?c s] by simp
    have "\<not> send_accepts s wr ?c" if "c_state c = KDisconnected" using that by (simp add: send_accepts_def)
    then show ?thesis
      using ok p q st acc by (auto simp: cli_ok_def input_kept_def Cons f simp del: conn_apply.simps)
  next
    case False
    then have q: "input_kept ?c ?c'" unfolding c' by (intro functor_quiet) blast
    have "queued_payloads (c_queue c) = queued_payloads fs" using False by (cases f) (simp_all add: Cons)
    then have "cli_ok S (?c, u)" using ok by (auto simp: cli_ok_def conn_ok_def writes_pending_def out_stream_def)
    moreover have "out_stream ?c' = out_stream ?c"
      using p(2) unfolding out_stream_queue functor_other [OF False] append_Nil2 .
    ultimately have "cli_ok S (?c', u)" using p(1) q cli_ok_quiet by blast
    then show ?thesis using q by (simp add: input_kept_def del: conn_apply.simps)
  qed
qed

lemma srv_functor:
  assumes ok: "srv_ok S (c, q)"
  shows "srv_ok S (conn_apply (RunQueued wr) c, q) \<and> prefix (c_sent c) (c_sent (conn_apply (RunQueued wr) c))"
proof (cases "c_queue c")
  case Nil
  then show ?thesis using ok by simp
next
  case (Cons f fs)
  let ?c = "c\<lparr>c_queue := fs\<rparr>"
  let ?c' = "conn_apply (RunQueued wr) c"
  have c: "conn_ok c" using ok by (simp add: srv_ok_def)
  note p = functor_props [OF c Cons, of wr]
  have c': "?c' = run_functor f wr ?c" by (simp add: Cons)
  have q0: "srv_ok S (?c, q)"
    using ok by (cases f) (auto simp: srv_ok_def conn_ok_def writes_pending_def out_stream_def Cons)
  have "input_kept ?c ?c' \<and> out_stream ?c' = out_stream ?c"
  proof (cases "\<exists>s. f = FSend s")
    case True
    then obtain s where f: "f = FSend s" by blast
    then have "s = []" using ok by (simp add: srv_ok_def Cons)
    then show ?thesis using p(2) quiet_sendInLoop by (auto simp: out_stream_def run_functor_def Cons f)
  next
    case False
    then have "input_kept ?c ?c'" unfolding c' by (intro functor_quiet) blast
    moreover have "out_stream ?c' = out_stream ?c"
      using p(2) unfolding out_stream_queue functor_other [OF False] append_Nil2 .
    ultimately show ?thesis by blast
  qed
  then show ?thesis using srv_ok_quiet [OF q0, of ?c'] p(1) by (simp add: input_kept_def del: conn_apply.simps)
qed

definition echo_inv :: "echo \<Rightarrow> bool" where
  "echo_inv e \<longleftrightarrow> cli_ok (c_sent (srv e)) (cli e, usr e) \<and> srv_ok (c_sent (cli e)) (srv e, srv_quit e)
     \<and> 10 \<notin> set (sent_all (usr e))"

lemma cli_sent: "cli_ok S (c, u) \<Longrightarrow> prefix (c_sent c) (sent_all u)"
  by (auto simp: cli_ok_def out_stream_def dest!: append_prefixD)

lemma random_no_newline: "10 \<notin> set (generateRandomString rs)"
proof -
  have "list_all (\<lambda>b. b \<noteq> 10) alphanum" by (simp add: alphanum_def upt_rec)
  moreover have "length alphanum = 62" by (simp add: alphanum_def)
  ultimately have "alphanum ! (r mod length alphanum) \<noteq> 10" for r
    by (simp add: list_all_length)
  then show ?thesis by (auto simp: generateRandomString_def)
qed

fun echo_op_ok :: "echo_op \<Rightarrow> bool" where
  "echo_op_ok (ClientFunctor wr) = write_ok wr"
| "echo_op_ok (ServerEvent r n wr wr1 wr2) = write_ok wr2"
| "echo_op_ok op = True"

lemma told_held: "cli_ok S (c, u) \<Longrightarrow> cli_ok S (c, EchoClient_onConnection c u)"
  by (auto simp: cli_ok_def EchoClient_onConnection_def connected_def)

lemma client_sent_all:
  "sent_all (snd (app_dispatch EchoClient_onMessage r rd wr (c, u))) = sent_all u"
proof -
  have "sent_all (snd (app_handler EchoClient_onMessage rd wr cb x)) = sent_all (snd x)" for cb x
    by (cases x) (simp add: app_handler_def EchoClient_onMessage_sel Let_def)
  then show ?thesis
    using guard_props [where P = "\<lambda>x. sent_all (snd x) = sent_all u"
        and run = "app_handler EchoClient_onMessage rd wr" and view = "\<lambda>s. c_channel (fst s)"]
    by (simp add: app_dispatch_def handleEvent_def)
qed

lemma cli_does_inv:
  assumes "echo_inv e" and "cli_ok (c_sent (srv e)) (c, u) \<and> prefix (c_sent (cli e)) (c_sent c)"
    and "sent_all u = sent_all (usr e)"
  shows "echo_inv (cli_does (c, u) e)"
  using assms told_held srv_ok_mono
  by (auto simp: echo_inv_def cli_does_def EchoClient_onConnection_def)

lemma write_cli_ok:
  fixes c u s
  defines "u' \<equiv> u\<lparr>sent_all := sent_all u @ s\<rparr>"
  assumes ok: "cli_ok S (c, u)"
  shows "cli_ok S (EchoClient_write s (c, u'), u')" and "c_sent (EchoClient_write s (c, u')) = c_sent c"
proof -
  show "c_sent (EchoClient_write s (c, u')) = c_sent c"
    by (simp add: EchoClient_write_def conn_send_def)
  show "cli_ok S (EchoClient_write s (c, u'), u')"
  proof (cases "c_state c = KConnected")
    case True
    then have "out_stream c @ queued_payloads (c_queue c) @ s = sent_all u @ s"
      using ok by (simp add: cli_ok_def flip: append_assoc)
    moreover have "EchoClient_write s (c, u') = queue_functor (FSend s) c"
      using True ok by (simp add: EchoClient_write_def conn_send_def cli_ok_def u'_def)
    moreover have "conn_ok (queue_functor (FSend s) c) \<and> out_stream (queue_functor (FSend s) c) = out_stream c"
      using same_streams_ok [OF same_streams_simps(3)] ok by (simp add: cli_ok_def)
    moreover have "c_queue (queue_functor (FSend s) c) = c_queue c @ [FSend s]" by (simp add: queue_functor_def)
    ultimately show ?thesis using ok True by (simp add: cli_ok_def u'_def flip: append_assoc)
  next
    case False
    then show ?thesis using ok by (auto simp: cli_ok_def EchoClient_write_def conn_send_def u'_def split: if_splits)
  qed
qed

lemma main_cli_ok:
  assumes "cli_ok S (c, u)"
  shows "cli_ok S (c, u\<lparr>main_at := m\<rparr>)" and "cli_ok S (shutdown False c, u)"
    and "cli_ok S (conn_apply OwnerDestroys c, u)"
    and "c_sent (shutdown False c) = c_sent c" "c_sent (conn_apply OwnerDestroys c) = c_sent c"
  using assms
  by (auto simp: cli_ok_def queue_functor_def conn_ok_def writes_pending_def out_stream_def shutdown_def Let_def
      split: if_splits)

lemma srv_owner:
  assumes "srv_ok S (c, q)"
  shows "srv_ok S (conn_apply OwnerDestroys c, q)" and "c_sent (conn_apply OwnerDestroys c) = c_sent c"
  using assms by (auto simp: srv_ok_def queue_functor_def conn_ok_def writes_pending_def out_stream_def)

lemma echo_step_inv:
  assumes inv: "echo_inv e" and op: "echo_op_ok op"
  shows "echo_inv (echo_step op e)"
proof -
  have c: "cli_ok (c_sent (srv e)) (cli e, usr e)" and s: "srv_ok (c_sent (cli e)) (srv e, srv_quit e)"
    and nl: "10 \<notin> set (sent_all (usr e))" using inv by (simp_all add: echo_inv_def)
  have nl': "10 \<notin> set (c_sent (cli e))" using set_mono_prefix [OF cli_sent [OF c]] nl by blast
  show ?thesis
  proof (cases op)
    case (MainWrite rs)
    then show ?thesis
      using write_cli_ok [OF c] c s nl random_no_newline by (simp add: echo_inv_def Let_def)
  next
    case MainWait
    then show ?thesis using main_cli_ok(1) [OF c] c s nl by (simp add: echo_inv_def)
  next
    case SpuriousWake
    then show ?thesis using main_cli_ok(1) [OF c] c s nl by (simp add: echo_inv_def)
  next
    case MainCompare
    then show ?thesis using main_cli_ok(2) [OF main_cli_ok(1) [OF c]] main_cli_ok(4) [OF c] c s nl by (simp add: echo_inv_def)
  next
    case (ClientEvent r n wr)
    obtain c' u' where d: "app_dispatch EchoClient_onMessage r (arrived n (srv e) (cli e)) wr (cli e, usr e) = (c', u')"
      by fastforce
    show ?thesis
      using cli_does_inv [OF inv, of c' u'] cli_dispatch [OF c, of r n wr]
        client_sent_all [of r "arrived n (srv e) (cli e)" wr "cli e" "usr e"] inv
      by (simp add: ClientEvent d)
  next
    case (ClientFunctor wr)
    then show ?thesis using cli_does_inv [OF inv cli_functor [OF c, of wr]] op by simp
  next
    case ClientOwner
    then show ?thesis using main_cli_ok(3,5) [OF c] s nl by (simp add: echo_inv_def del: conn_apply.simps)
  next
    case (ServerEvent r n wr wr1 wr2)
    obtain c' q' where d: "app_dispatch (EchoServer_onMessage wr1 wr2) r (arrived n (cli e) (srv e)) wr
        (srv e, srv_quit e) = (c', q')" by fastforce
    show ?thesis
      using srv_dispatch [OF s nl', of wr2 wr1 r n wr] op inv cli_ok_mono [OF c] nl
      by (simp add: ServerEvent d echo_inv_def)
  next
    case (ServerFunctor wr)
    then show ?thesis using srv_functor [OF s, of wr] cli_ok_mono [OF c] nl by (simp add: echo_inv_def del: conn_apply.simps)
  next
    case ServerOwner
    then show ?thesis using srv_owner [OF s] c nl by (simp add: echo_inv_def del: conn_apply.simps)
  qed
qed

lemma established_sel:
  "conn_ok (established_conn nm f wc)" "c_received (established_conn nm f wc) = []" "c_taken (established_conn nm f wc) = []"
  "c_sent (established_conn nm f wc) = []" "c_queue (established_conn nm f wc) = []"
  "readable (inputBuffer (established_conn nm f wc)) = []" "readable (outputBuffer (established_conn nm f wc)) = []"
  "c_state (established_conn nm f wc) = KConnected"
proof -
  have "conn_ok (new_conn nm (new_channel 1 f) new_poller wc False)"
    by (rule new_conn_ok) (simp add: new_channel_def isWriting_def)
  then show "conn_ok (established_conn nm f wc)"
    using same_streams_ok [OF quiet_ops(8)] by (simp add: established_conn_def new_conn_def)
qed (simp_all add: established_conn_def connectEstablished_def connectionCallback_def new_conn_def Let_def)

lemma echo_run_inv: "list_all echo_op_ok ops \<Longrightarrow> echo_inv e \<Longrightarrow> echo_inv (fold echo_step ops e)"
  by (induction ops arbitrary: e) (simp_all add: echo_step_inv)

lemma start_echo_inv: "echo_inv start_echo"
  by (simp add: echo_inv_def cli_ok_def srv_ok_def start_echo_def established_sel out_stream_def)

lemma echo_prefix:
  assumes "echo_inv e"
  shows "prefix (got (usr e)) (sent_all (usr e))"
proof -
  have c: "cli_ok (c_sent (srv e)) (cli e, usr e)" and s: "srv_ok (c_sent (cli e)) (srv e, srv_quit e)"
    using assms by (simp_all add: echo_inv_def)
  have "got (usr e) = c_received (cli e)" using c by (auto simp: cli_ok_def conn_ok_def)
  also have "prefix \<dots> (c_sent (srv e))" using c by (simp add: cli_ok_def)
  also have "prefix \<dots> (c_taken (srv e))" using s by (auto simp: srv_ok_def out_stream_def dest: append_prefixD)
  also have "c_taken (srv e) = c_received (srv e)" using s by (auto simp: srv_ok_def conn_ok_def)
  also have "prefix \<dots> (c_sent (cli e))" using s by (simp add: srv_ok_def)
  also have "prefix \<dots> (sent_all (usr e))" by (rule cli_sent [OF c])
  finally show ?thesis .
qed

text \<open>What an event of the client does to the main thread.\<close>

definition woken :: "echo_user \<Rightarrow> echo_user \<Rightarrow> bool" where
  "woken u u' \<longleftrightarrow> got u' = got u \<and> main_at u' = main_at u
     \<or> length (got u) < length (got u') \<and> prefix (got u) (got u')
       \<and> main_at u' = (if length (got u') = length (sent_all u) \<and> main_at u = Waiting then Woken else main_at u)"

lemma read_wakes:
  assumes ok: "cli_ok S (c, u)"
  shows "woken u (snd (app_handler EchoClient_onMessage rd wr ReadCb (c, u)))"
proof (cases "\<exists>d. d \<noteq> [] \<and> rd = ReadBytes d")
  case True
  then obtain d where d: "d \<noteq> []" "rd = ReadBytes d" by blast
  have c: "conn_ok c" "readable (inputBuffer c) = []" using ok by (simp_all add: cli_ok_def)
  have "fst (readAll (handleRead rd c)) = d"
    using readAll_props(1) [OF handleRead_props(1) [OF c(1)]] handleRead_bytes(1) [OF c(1) d(1) c(2)] d(2) by simp
  moreover have "length (got u) + length d = length (sent_all u) \<Longrightarrow> length (got u) < length (sent_all u)"
    using d(1) by (metis length_greater_0_conv less_add_same_cancel1)
  ultimately show ?thesis
    using d c readFd_spec(3) [of "inputBuffer c" d]
    by (auto simp: app_handler_def conn_handler_def conn_ok_def EchoClient_onMessage_def woken_def notify_one_def
        split_beta Let_def)
next
  case False
  have "buffer_wf (inputBuffer c)" using ok by (simp add: cli_ok_def conn_ok_def)
  then have "\<not> 0 < fst (readFd rd (inputBuffer c))"
    using False readFd_spec(3) [of "inputBuffer c" "[]"] by (cases rd) auto
  then show ?thesis by (simp add: app_handler_def woken_def Let_def)
qed

lemma client_wakes:
  assumes ok: "cli_ok (c_sent peer) (c, u)"
  shows "woken u (snd (app_dispatch EchoClient_onMessage r (arrived n peer c) wr (c, u)))"
proof -
  let ?P = "\<lambda>x. cli_ok (c_sent peer) x \<and> snd x = u"
  let ?Q = "\<lambda>x. woken u (snd x)"
  let ?rd = "arrived n peer c"
  have "?P (c\<lparr>c_channel := set_revents r (c_channel c)\<rparr>, u)"
    using ok by (auto simp: cli_ok_def conn_ok_def writes_pending_def out_stream_def split: if_splits)
  then show ?thesis
  proof (rule dispatch_once [where P = ?P and Q = ?Q, rotated -1])
    show "?P (app_handler EchoClient_onMessage ?rd wr cb x)" if cb: "cb \<noteq> ReadCb" and "?P x" for x cb
    proof -
      obtain c1 where x: "x = (c1, u)" "cli_ok (c_sent peer) (c1, u)" using \<open>?P x\<close> by (cases x) auto
      then have "conn_ok c1" by (simp add: cli_ok_def)
      from app_handler_quiet [OF cb this] obtain c' where
        "app_handler EchoClient_onMessage ?rd wr cb (c1, u) = (c', u)" "input_kept c1 c'" "conn_ok c'"
        "out_stream c' = out_stream c1" by metis
      then show ?thesis using cli_ok_quiet [OF x(2)] by (simp add: x(1))
    qed
    show "?Q (app_handler EchoClient_onMessage ?rd wr ReadCb x)" if "?P x" for x
      using that read_wakes [of "c_sent peer" "fst x" u] by (cases x) auto
    show "?Q x" if "?P x" for x using that by (simp add: woken_def)
    show "?Q (app_handler EchoClient_onMessage ?rd wr WriteCb x)" if "?Q x" for x
      using that by (cases x) (simp add: app_handler_def Let_def)
  qed
qed

text \<open>The main thread and what it knows.\<close>

definition main_inv :: "echo \<Rightarrow> bool" where
  "main_inv e \<longleftrightarrow> (case main_at (usr e) of Woken \<Rightarrow> got (usr e) = sent_all (usr e) | Printed same \<Rightarrow> same | _ \<Rightarrow> True)"

lemma cli_does_usr:
  "got (usr (cli_does (c, u) e)) = got u" "sent_all (usr (cli_does (c, u) e)) = sent_all u"
  "main_at (usr (cli_does (c, u) e)) = main_at u"
  by (simp_all add: cli_does_def EchoClient_onConnection_def)

lemma client_event_usr:
  assumes "echo_inv e"
  shows "woken (usr e) (usr (echo_step (ClientEvent r n wr) e))"
    and "sent_all (usr (echo_step (ClientEvent r n wr) e)) = sent_all (usr e)"
proof -
  have c: "cli_ok (c_sent (srv e)) (cli e, usr e)" using assms by (simp add: echo_inv_def)
  obtain c' u' where d: "app_dispatch EchoClient_onMessage r (arrived n (srv e) (cli e)) wr (cli e, usr e) = (c', u')"
    by fastforce
  show "woken (usr e) (usr (echo_step (ClientEvent r n wr) e))"
    using client_wakes [OF c, of r n wr] by (auto simp: d woken_def cli_does_usr)
  show "sent_all (usr (echo_step (ClientEvent r n wr) e)) = sent_all (usr e)"
    using client_sent_all [of r "arrived n (srv e) (cli e)" wr "cli e" "usr e"] by (simp add: d cli_does_usr)
qed

lemma main_step:
  assumes inv: "echo_inv e" and op: "echo_op_ok op" "op \<noteq> SpuriousWake" and m: "main_inv e"
  shows "main_inv (echo_step op e)"
proof (cases op)
  case (ClientEvent r n wr)
  have pre: "prefix (got (usr (echo_step op e))) (sent_all (usr (echo_step op e)))"
    by (rule echo_prefix [OF echo_step_inv [OF inv op(1)]])
  have w: "woken (usr e) (usr (echo_step op e))" and a: "sent_all (usr (echo_step op e)) = sent_all (usr e)"
    unfolding ClientEvent by (rule client_event_usr [OF inv])+
  show ?thesis
  proof (cases "main_at (usr (echo_step op e)) = Woken")
    case True
    have "got (usr (echo_step op e)) = sent_all (usr e)"
      using w m True pre a prefix_length_le [OF pre] not_equal_is_parallel
      by (auto simp: woken_def main_inv_def dest: prefix_order.antisym prefix_length_le split: if_splits)
    then show ?thesis using True a by (simp add: main_inv_def)
  next
    case False
    then show ?thesis using w m by (auto simp: woken_def main_inv_def split: main_phase.splits if_splits)
  qed
qed (use m op(2) in \<open>auto simp: main_inv_def cli_does_usr Let_def split_beta split: main_phase.splits\<close>)

lemma waiting_step:
  assumes inv: "echo_inv e" and op: "echo_op_ok op" "op \<noteq> SpuriousWake"
    and stuck: "main_at (usr e) = Waiting" "got (usr e) = sent_all (usr e)"
  shows "main_at (usr (echo_step op e)) = Waiting \<and> got (usr (echo_step op e)) = sent_all (usr (echo_step op e))"
proof (cases op)
  case (ClientEvent r n wr)
  have "prefix (got (usr (echo_step op e))) (sent_all (usr (echo_step op e)))"
    by (rule echo_prefix [OF echo_step_inv [OF inv op(1)]])
  moreover have "woken (usr e) (usr (echo_step op e))" "sent_all (usr (echo_step op e)) = sent_all (usr e)"
    unfolding ClientEvent by (rule client_event_usr [OF inv])+
  ultimately show ?thesis using stuck by (auto simp: woken_def dest: prefix_length_le)
qed (use stuck op(2) in \<open>auto simp: cli_does_usr Let_def split_beta\<close>)

text \<open>A main thread that is past its wait does not wait again.\<close>

definition past_wait :: "main_phase \<Rightarrow> bool" where
  "past_wait m \<longleftrightarrow> (case m of Woken \<Rightarrow> True | Printed _ \<Rightarrow> True | _ \<Rightarrow> False)"

lemma past_wait_step:
  assumes inv: "echo_inv e" and past: "past_wait (main_at (usr e))"
  shows "past_wait (main_at (usr (echo_step op e)))"
proof (cases op)
  case (ClientEvent r n wr)
  then show ?thesis
    using client_event_usr(1) [OF inv, of r n wr] past
    by (auto simp: woken_def past_wait_def split: main_phase.splits if_splits)
qed (use past in \<open>auto simp: cli_does_usr Let_def split_beta past_wait_def split: main_phase.splits\<close>)

lemma past_wait_run:
  "list_all echo_op_ok ops \<Longrightarrow> echo_inv e \<Longrightarrow> past_wait (main_at (usr e))
    \<Longrightarrow> past_wait (main_at (usr (fold echo_step ops e)))"
  by (induction ops arbitrary: e) (simp_all add: echo_step_inv past_wait_step)

lemma waiting_forever:
  assumes "list_all echo_op_ok ops" and "echo_inv e" and "main_at (usr e) = Waiting" and "got (usr e) = sent_all (usr e)"
  shows "main_at (usr (fold echo_step ops e)) = Waiting \<longleftrightarrow> SpuriousWake \<notin> set ops"
  using assms
proof (induction ops arbitrary: e)
  case (Cons op ops)
  have e: "echo_inv (echo_step op e)" using Cons.prems(1,2) by (simp add: echo_step_inv)
  show ?case
  proof (cases "op = SpuriousWake")
    case True
    then have "past_wait (main_at (usr (echo_step op e)))" using Cons.prems(3) by (simp add: past_wait_def)
    from past_wait_run [OF _ e this] Cons.prems(1)
    have "past_wait (main_at (usr (fold echo_step ops (echo_step op e))))" by simp
    then show ?thesis using True by (auto simp: past_wait_def)
  next
    case False
    then show ?thesis
      using Cons.IH [OF _ e] Cons.prems(1) waiting_step [OF Cons.prems(2) _ False Cons.prems(3,4)] by auto
  qed
qed simp

lemma main_run: "list_all echo_op_ok ops \<Longrightarrow> SpuriousWake \<notin> set ops \<Longrightarrow> echo_inv e \<Longrightarrow> main_inv e \<Longrightarrow> main_inv (fold echo_step ops e)"
  by (induction ops arbitrary: e) (auto simp: echo_step_inv main_step)

section \<open>Properties of the echo\<close>

text \<open>C11. Whatever the threads of client and server, the kernels and the network do, unless a write
  fails for good, what the client has got back is the beginning of what it wrote; and while both
  ends are connected nothing is lost on the way: what is missing is in flight to the client, in the
  server's output buffer, in flight to the server, in the client's output buffer or waiting in the
  queue of its loop, in this order.\<close>

theorem echo_returns_what_was_written:
  assumes "list_all echo_op_ok ops" and "e = echo_run ops"
  shows "prefix (got (usr e)) (sent_all (usr e))
    \<and> (c_state (cli e) = KConnected \<longrightarrow> c_state (srv e) = KConnected \<longrightarrow>
        sent_all (usr e) = got (usr e) @ drop (length (c_received (cli e))) (c_sent (srv e))
          @ readable (outputBuffer (srv e)) @ drop (length (c_received (srv e))) (c_sent (cli e))
          @ readable (outputBuffer (cli e)) @ queued_payloads (c_queue (cli e)))"
proof -
  have inv: "echo_inv e"
    unfolding assms(2) echo_run_def by (rule echo_run_inv [OF assms(1) start_echo_inv])
  have "sent_all (usr e) = got (usr e) @ drop (length (c_received (cli e))) (c_sent (srv e))
          @ readable (outputBuffer (srv e)) @ drop (length (c_received (srv e))) (c_sent (cli e))
          @ readable (outputBuffer (cli e)) @ queued_payloads (c_queue (cli e))"
    if up: "c_state (cli e) = KConnected" "c_state (srv e) = KConnected"
  proof -
    have flight: "xs @ drop (length xs) ys = ys" if "prefix xs ys" for xs ys :: bytes
      using that by (auto simp: prefix_def)
    have c: "got (usr e) = c_received (cli e)" "prefix (c_received (cli e)) (c_sent (srv e))"
        "out_stream (cli e) @ queued_payloads (c_queue (cli e)) = sent_all (usr e)"
      and s: "out_stream (srv e) = c_received (srv e)" "prefix (c_received (srv e)) (c_sent (cli e))"
      using inv up by (auto simp: echo_inv_def cli_ok_def srv_ok_def conn_ok_def)
    have "got (usr e) @ drop (length (c_received (cli e))) (c_sent (srv e)) @ readable (outputBuffer (srv e))
        = c_received (srv e)"
      using flight [OF c(2)] s(1) by (simp add: c(1) out_stream_def flip: append_assoc)
    then show ?thesis
      using flight [OF s(2)] c(3) by (simp add: out_stream_def flip: append_assoc)
  qed
  then show ?thesis using echo_prefix [OF inv] by blast
qed

text \<open>When the wait ends only by a notification the client prints that both are the same.\<close>

theorem notified_client_finds_the_same:
  assumes "list_all echo_op_ok ops" and "SpuriousWake \<notin> set ops"
    and "main_at (usr (echo_run ops)) = Printed same"
  shows "same"
proof -
  have "main_inv (echo_run ops)"
    unfolding echo_run_def
    by (rule main_run [OF assms(1,2) start_echo_inv]) (simp add: main_inv_def start_echo_def)
  then show ?thesis using assms(3) by (simp add: main_inv_def)
qed

text \<open>C12. But it is notified only while it waits, and it waits without looking: if everything is back
  before it waits, nothing that its loop, the server, the kernels or the network do, as long as no
  write fails for good, ends the wait.
  Whatever follows, it is still waiting, unless the wait returned spuriously.\<close>

theorem echo_client_misses_the_last_notification:
  assumes "list_all echo_op_ok ops" and "main_at (usr (echo_run ops)) = Writing"
    and "got (usr (echo_run ops)) = sent_all (usr (echo_run ops))" and "list_all echo_op_ok later"
  shows "main_at (usr (echo_run (ops @ [MainWait] @ later))) = Waiting \<longleftrightarrow> SpuriousWake \<notin> set later"
proof -
  let ?e = "echo_step MainWait (echo_run ops)"
  have "echo_inv (echo_run ops)"
    unfolding echo_run_def by (rule echo_run_inv [OF assms(1) start_echo_inv])
  then have "echo_inv ?e" by (rule echo_step_inv) simp
  moreover have "main_at (usr ?e) = Waiting" "got (usr ?e) = sent_all (usr ?e)" using assms(2,3) by simp_all
  ultimately show ?thesis using waiting_forever [OF assms(4)] by (simp add: echo_run_def)
qed

text \<open>One string there and back.\<close>

definition one_echo :: "echo_op list" where
  "one_echo = [MainWrite [10, 45], ClientFunctor (Wrote 2), ServerEvent EPOLLIN 2 (Wrote 0) (Wrote 0) (Wrote 2),
     ClientEvent EPOLLIN 2 (Wrote 0)]"

lemma one_echo_ok: "list_all echo_op_ok one_echo"
  by (simp add: one_echo_def write_ok_def)

lemma alnum: "generateRandomString [10, 45] = [65, 106]"
  by (simp add: generateRandomString_def alphanum_def upt_rec)

lemmas run_echo = start_echo_def established_conn_def new_conn_def new_channel_def new_poller_def connectEstablished_def
  connectionCallback_def log_event_def with_channel_def enableReading_def updateChannel_def poller_update_def
  tie_def Let_def alnum EchoClient_write_def conn_send_def queue_functor_def connected_def
  cli_does_def run_functor_def sendInLoop_def send_direct_def isWriting_def event_masks new_buffer_def
  readableBytes_def connection_told_def app_dispatch_def handleEvent_def handleEventWithGuard_def app_handler_def
  conn_handler_def set_revents_def EPOLLHUP_def EPOLLERR_def arrived_def handleRead_def readFd_def
  writableBytes_def write_at_def iov_capacity_def extrabufSize_def kInitialSize_def EchoServer_onMessage_def
  readAll_def tryRead_def readable_def conn_retrieve_def retrieve_def retrieveAll_def exit_msg_def quit_msg_def
  EchoClient_onMessage_def notify_one_def conn_registered_def hasChannel_def one_echo_def echo_run_def

lemma one_echo_run:
  "sent_all (usr (echo_run one_echo)) = [65, 106] \<and> got (usr (echo_run one_echo)) = [65, 106]
    \<and> main_at (usr (echo_run one_echo)) = Writing
    \<and> c_state (cli (echo_run one_echo)) = KConnected \<and> c_state (srv (echo_run one_echo)) = KConnected"
  by (simp add: run_echo)

theorem echo_returns_what_was_written_witness:
  "got (usr (echo_run one_echo)) = [65, 106]
    \<and> sent_all (usr (echo_run one_echo)) = got (usr (echo_run one_echo))
        @ drop (length (c_received (cli (echo_run one_echo)))) (c_sent (srv (echo_run one_echo)))
        @ readable (outputBuffer (srv (echo_run one_echo)))
        @ drop (length (c_received (srv (echo_run one_echo)))) (c_sent (cli (echo_run one_echo)))
        @ readable (outputBuffer (cli (echo_run one_echo))) @ queued_payloads (c_queue (cli (echo_run one_echo)))"
  using echo_returns_what_was_written [OF one_echo_ok refl] one_echo_run by blast

theorem notified_client_finds_the_same_witness:
  "main_at (usr (echo_run [MainWrite [10, 45], MainWait, ClientFunctor (Wrote 2),
     ServerEvent EPOLLIN 2 (Wrote 0) (Wrote 0) (Wrote 2), ClientEvent EPOLLIN 2 (Wrote 0), MainCompare])) = Printed True"
proof -
  let ?ops = "[MainWrite [10, 45], MainWait, ClientFunctor (Wrote 2),
     ServerEvent EPOLLIN 2 (Wrote 0) (Wrote 0) (Wrote 2), ClientEvent EPOLLIN 2 (Wrote 0), MainCompare]"
  have "\<exists>same. main_at (usr (echo_run ?ops)) = Printed same" by (simp add: run_echo shutdown_def) blast
  then obtain same where s: "main_at (usr (echo_run ?ops)) = Printed same" by blast
  have "list_all echo_op_ok ?ops" by (simp add: write_ok_def)
  from notified_client_finds_the_same [OF this _ s] s show ?thesis by simp
qed

theorem echo_client_misses_the_last_notification_witness:
  "main_at (usr (echo_run (one_echo @ [MainWait] @ [ServerEvent EPOLLIN 5 (Wrote 0) (Wrote 0) (Wrote 0),
     ClientEvent EPOLLIN 5 (Wrote 0), ClientFunctor (Wrote 0), MainCompare]))) = Waiting"
  by (subst echo_client_misses_the_last_notification) (simp_all add: one_echo_ok one_echo_run write_ok_def)

end
