(* ===== verification/WheelExample.thy ===== *)
theory WheelExample
  imports WheelTimers EventLoop
begin

text \<open>
  The timer example, \<^verbatim>\<open>example/example_timewheel.cpp\<close>: \<^verbatim>\<open>main\<close> schedules 100 tasks at random
  delays of 1 to 5000 ms and a last one at 6000 ms that quits the loop, and runs the loop. It puts
  the timing wheel and the event loop together; closures that do not touch the wheel are related to
  the closures of \<open>WheelTimers\<close>, which only record that they ran.
\<close>

section \<open>Closures that leave the wheel alone\<close>

text \<open>\<open>R\<close> relates the closures that have run to the state they have made.\<close>

definition off_wheel :: "('f list \<Rightarrow> 's \<Rightarrow> bool) \<Rightarrow> ('s, 'f) closure_run \<Rightarrow> bool" where
  "off_wheel R cb \<longleftrightarrow> (\<forall>f s w. snd (cb f (s, w)) = w)
     \<and> (\<forall>f log s w. R log s \<longrightarrow> R (log @ [f]) (fst (cb f (s, w))))"

definition follows :: "('f list \<Rightarrow> 's \<Rightarrow> bool) \<Rightarrow> (wheel_ub + ('f list, 'f) wheel_state)
    \<Rightarrow> (wheel_ub + ('s, 'f) wheel_state) option \<Rightarrow> bool" where
  "follows R r r' \<longleftrightarrow> (case r of Inl e \<Rightarrow> r' = Some (Inl e)
     | Inr (log, w) \<Rightarrow> (\<exists>s. r' = Some (Inr (s, w)) \<and> R log s))"

lemma off_wheel_exec:
  assumes "off_wheel R cb" and "R log s"
  shows "\<exists>s'. exec cb t (s, w) = (s', w) \<and> R (fst (exec record_closure t (log, w))) s'
    \<and> snd (exec record_closure t (log, w)) = w"
proof (cases "task_fun t")
  case (Some f)
  have "snd (cb f (s, w)) = w" "R (log @ [f]) (fst (cb f (s, w)))"
    using assms by (simp_all add: off_wheel_def)
  then show ?thesis
    by (intro exI [of _ "fst (cb f (s, w))"]) (simp add: exec_def Some record_closure_def prod_eq_iff)
qed (use assms(2) in \<open>simp add: exec_def\<close>)

lemma off_wheel_loop:
  fixes cb :: "('s, 'f) closure_run"
  assumes cb: "off_wheel R cb" and run: "tick_loop record_closure i (log, w) = Some r" and R: "R log s"
  shows "follows R r (tick_loop cb i (s, w))"
proof -
  define Q :: "('f list, 'f) closure_run \<Rightarrow> nat \<Rightarrow> ('f list, 'f) wheel_state
      \<Rightarrow> wheel_ub + ('f list, 'f) wheel_state \<Rightarrow> bool" where
    "Q = (\<lambda>rc i sw r. rc = record_closure \<longrightarrow>
       (\<forall>s. R (fst sw) s \<longrightarrow> follows R r (tick_loop cb i (s, snd sw))))"
  have "Q record_closure i (log, w) r"
  proof (rule tick_loop.raw_induct [where P = Q, OF _ run])
    fix f rc i sw r
    assume IH: "\<And>rc i sw r. f rc i sw = Some r \<Longrightarrow> Q rc i sw r"
      and eq: "(if length (current_list (snd sw)) \<le> i then Some (Inr sw)
        else if rotations (current_list (snd sw) ! i) > 0
        then f rc (Suc i)
             (fst sw, set_current ((current_list (snd sw))[i := (current_list (snd sw) ! i)
               \<lparr>rotations := rotations (current_list (snd sw) ! i) - 1\<rparr>]) (snd sw))
        else (case after_exec i (snd (exec rc (current_list (snd sw) ! i) sw)) of
              Inl e \<Rightarrow> Some (Inl e)
            | Inr w' \<Rightarrow> f rc i (fst (exec rc (current_list (snd sw) ! i) sw), w'))) = Some r"
    show "Q rc i sw r"
      unfolding Q_def
    proof (intro impI allI)
      fix s
      assume rc: "rc = record_closure" and R: "R (fst sw) s"
      obtain log w where sw: "sw = (log, w)" by force
      consider (stop) "length (current_list w) \<le> i"
        | (skip) "i < length (current_list w)" "0 < rotations (current_list w ! i)"
        | (fire) "i < length (current_list w)" "rotations (current_list w ! i) \<le> 0"
        by linarith
      then show "follows R r (tick_loop cb i (s, snd sw))"
      proof cases
        case stop
        then show ?thesis using eq R by (auto simp: sw follows_def tick_loop.simps)
      next
        case skip
        let ?w = "set_current ((current_list w)[i := (current_list w ! i)
                   \<lparr>rotations := rotations (current_list w ! i) - 1\<rparr>]) w"
        have "Q rc (Suc i) (log, ?w) r" using eq skip by (intro IH) (simp add: sw)
        then have "follows R r (tick_loop cb (Suc i) (s, ?w))" using rc R by (simp add: Q_def sw)
        then show ?thesis using skip by (subst tick_loop.simps) (simp add: sw)
      next
        case fire
        let ?t = "current_list w ! i"
        obtain s' where e: "exec cb ?t (s, w) = (s', w)" "R (fst (exec record_closure ?t (log, w))) s'"
            "snd (exec record_closure ?t (log, w)) = w"
          using off_wheel_exec [OF cb, of log s ?t w] R by (auto simp: sw)
        show ?thesis
        proof (cases "after_exec i w")
          case (Inl err)
          then show ?thesis using eq fire e rc by (subst tick_loop.simps) (auto simp: sw follows_def)
        next
          case (Inr w1)
          have "Q rc i (fst (exec rc ?t sw), w1) r" using eq fire e(3) Inr by (intro IH) (simp add: sw rc)
          then have "follows R r (tick_loop cb i (s', w1))" using rc e(2) by (simp add: Q_def sw)
          then show ?thesis using fire e(1) Inr by (subst tick_loop.simps) (simp add: sw)
        qed
      qed
    qed
  qed
  then show ?thesis using R by (simp add: Q_def)
qed

lemma off_wheel_ticks:
  assumes cb: "off_wheel R cb"
  shows "ticks record_closure n (log, w) = Some r \<Longrightarrow> R log s \<Longrightarrow> follows R r (ticks cb n (s, w))"
proof (induction n arbitrary: log w s)
  case (Suc n)
  obtain r1 where r1: "tick_loop record_closure 0 (log, w) = Some r1"
    using Suc.prems(1) by (cases "tick_loop record_closure 0 (log, w)") (simp_all add: tick_def)
  note l = off_wheel_loop [OF cb r1 Suc.prems(2)]
  show ?case
  proof (cases r1)
    case (Inl e)
    then show ?thesis using l r1 Suc.prems(1) by (auto simp: follows_def tick_def)
  next
    case (Inr sw)
    obtain log1 w1 where sw: "sw = (log1, w1)" by force
    obtain s1 where s1: "tick_loop cb 0 (s, w) = Some (Inr (s1, w1))" "R log1 s1"
      using l Inr by (auto simp: follows_def sw)
    have "ticks record_closure n (log1, advance w1) = Some r"
      using Suc.prems(1) r1 Inr by (simp add: tick_def sw)
    from Suc.IH [OF this s1(2)] show ?thesis by (simp add: tick_def s1(1))
  qed
qed (auto simp: follows_def)

text \<open>After a number of ticks.\<close>

lemma ticks_timers:
  "wheel_live w \<Longrightarrow> \<exists>log' w'. ticks record_closure n (log, w) = Some (Inr (log', w'))
    \<and> wheel_live w' \<and> timers w' = (abs_tick ^^ n) (timers w) \<and> mset log' = mset log + fired_within n (timers w)"
proof (induction n arbitrary: log w)
  case (Suc n)
  obtain w1 where w1: "tick record_closure (log, w) = Some (Inr (log @ due_closures (current_list w), w1))"
      "wheel_live w1" "timers w1 = abs_tick (timers w)"
    using record_tick [OF Suc.prems] by blast
  from Suc.IH [OF w1(2), of "log @ due_closures (current_list w)"] w1 show ?case
    by (auto simp: abs_timers(2) [OF Suc.prems] funpow_swap1)
qed simp

lemma fired_within_plus: "fired_within (m + n) T = fired_within m T + fired_within n ((abs_tick ^^ m) T)"
  by (induction m arbitrary: T) (simp_all add: funpow_swap1 add.assoc)

lemma timers_starttime: "timers (w\<lparr>starttime := now\<rparr>) = timers w" "wheel_live (w\<lparr>starttime := now\<rparr>) = wheel_live w"
  by (simp_all add: timers_def slot_sum_def wheel_live_def wheel_wf_def tasks_of_def)

lemma off_wheel_takeAll:
  assumes cb: "off_wheel R cb" and live: "wheel_live w" and R: "R log s"
  obtains log' s' w' n where "takeAllTimeout cb now (s, w) = Some (Inr (s', w'))" and "R log' s'"
    and "wheel_live w'" and "n = nat (now - starttime w)" and "timers w' = (abs_tick ^^ n) (timers w)"
    and "mset log' = mset log + fired_within n (timers w)"
proof -
  obtain log' w' where t: "ticks record_closure (nat (now - starttime w)) (log, w) = Some (Inr (log', w'))"
      "wheel_live w'" "timers w' = (abs_tick ^^ nat (now - starttime w)) (timers w)"
      "mset log' = mset log + fired_within (nat (now - starttime w)) (timers w)"
    using ticks_timers [OF live, of "nat (now - starttime w)" log] by blast
  obtain s' where "ticks cb (nat (now - starttime w)) (s, w) = Some (Inr (s', w'))" "R log' s'"
    using off_wheel_ticks [OF cb t(1) R] by (auto simp: follows_def)
  then show thesis
    using that [of s' "w'\<lparr>starttime := now\<rparr>" log', OF _ _ _ refl] t(2-4)
    by (simp add: takeAllTimeout_def timers_starttime)
qed

section \<open>The program\<close>

datatype task_fn = CheckTask int | QuitLoop

definition example_cb :: "(task_fn list, task_fn) functor_run" where
  "example_cb f = (\<lambda>(ran, l). (ran @ [f], case f of CheckTask i \<Rightarrow> l | QuitLoop \<Rightarrow> quit_loop True l))"

text \<open>\<open>delays\<close> are the random numbers, each with what the uninitialised \<^verbatim>\<open>times_\<close> of its task holds;
  \<open>polls\<close> are the times at which \<^verbatim>\<open>poll\<close> returns.\<close>

definition schedule :: "(int \<times> int) list \<Rightarrow> (task_fn list, task_fn) loop_state \<Rightarrow> (task_fn list, task_fn) loop_state" where
  "schedule delays = fold (\<lambda>(i, junk) sl. snd (runAfter example_cb i (CheckTask i) junk sl)) delays"

text \<open>No channel but that of the wake-up is polled, and it is not reported.\<close>

definition no_channel :: "nat \<Rightarrow> (task_fn list, task_fn) loop_state \<Rightarrow> (task_fn list, task_fn) loop_state" where
  "no_channel _ sl = sl"

definition example_main :: "int \<Rightarrow> (int \<times> int) list \<Rightarrow> int \<Rightarrow> int list
    \<Rightarrow> (wheel_ub + (task_fn list, task_fn) loop_state) option" where
  "example_main now delays junk polls =
     loop_run example_cb no_channel (map (\<lambda>ts. (ts, [])) polls)
       (snd (runAfter example_cb 6000 QuitLoop junk (schedule delays ([], new_loop 1 5 now))))"

definition ran_rel :: "task_fn list \<Rightarrow> (task_fn list, task_fn) loop_state \<Rightarrow> bool" where
  "ran_rel log sl \<longleftrightarrow> fst sl = log \<and> pending (snd sl) = [] \<and> (quit_flag (snd sl) \<longleftrightarrow> QuitLoop \<in> set log)"

lemma example_off_wheel: "off_wheel ran_rel (wheel_run example_cb)"
  by (auto simp: off_wheel_def wheel_run_def example_cb_def ran_rel_def quit_loop_def Let_def split: task_fn.splits)

text \<open>\<open>n\<close> ticks after the tasks were scheduled on the wheel with timers \<open>T\<close>.\<close>

definition after_ticks :: "int \<Rightarrow> task_fn timer multiset \<Rightarrow> nat \<Rightarrow> (task_fn list, task_fn) loop_state \<Rightarrow> bool" where
  "after_ticks now T n sl \<longleftrightarrow> ran_rel (fst sl) sl \<and> wheel_live (time_wheel (snd sl))
     \<and> timers (time_wheel (snd sl)) = (abs_tick ^^ n) T \<and> mset (fst sl) = fired_within n T
     \<and> starttime (time_wheel (snd sl)) \<le> now + int n"

lemma example_round:
  assumes "after_ticks now T n sl"
  obtains sl' m where "loop_round example_cb no_channel ts [] sl = Some (Inr sl')" and "after_ticks now T m sl'"
    and "ts \<le> now + int m" and "n \<le> m"
proof -
  obtain s l where sl: "sl = (s, l)" by force
  let ?l = "l\<lparr>return_time := ts\<rparr>"
  have live: "wheel_live (time_wheel l)" and R: "ran_rel s (s, ?l)"
    using assms by (simp_all add: after_ticks_def sl ran_rel_def)
  obtain log' s' w' k where t: "takeAllTimeout (wheel_run example_cb) ts ((s, ?l), time_wheel l) = Some (Inr (s', w'))"
      "ran_rel log' s'" "wheel_live w'" "k = nat (ts - starttime (time_wheel l))"
      "timers w' = (abs_tick ^^ k) (timers (time_wheel l))"
      "mset log' = mset s + fired_within k (timers (time_wheel l))"
    by (rule off_wheel_takeAll [OF example_off_wheel live R])
  have start: "starttime w' = ts"
    using t(1) by (auto simp: takeAllTimeout_def split: option.splits sum.splits prod.splits)
  let ?sl' = "(fst s', (snd s')\<lparr>time_wheel := w', calling := False\<rparr>)"
  have "loop_round example_cb no_channel ts [] sl = Some (Inr ?sl')"
  proof -
    have "pending (snd s') = []" using t(2) by (simp add: ran_rel_def)
    then show ?thesis
      using t(1) by (cases s') (simp add: sl loop_round_def doScheduledFunctors_def doPendingFunctors_def Let_def)
  qed
  moreover have "after_ticks now T (n + k) ?sl'"
  proof -
    have "fired_within (n + k) T = mset log'"
      using assms t(6) by (simp add: fired_within_plus after_ticks_def sl)
    moreover have "(abs_tick ^^ (n + k)) T = timers w'"
      using assms t(5) by (simp add: after_ticks_def sl add.commute [of n k] funpow_add)
    moreover have "ts \<le> now + int (n + k)" using assms t(4) by (simp add: after_ticks_def sl)
    ultimately show ?thesis
      using t(2,3) start by (auto simp: after_ticks_def ran_rel_def)
  qed
  moreover have "ts \<le> now + int (n + k)" using assms t(4) by (simp add: after_ticks_def sl)
  ultimately show thesis using that by force
qed

lemma example_rounds:
  "after_ticks now T n sl \<Longrightarrow> \<exists>sl' m. loop_rounds example_cb no_channel (map (\<lambda>ts. (ts, [])) polls) sl = Some (Inr sl')
    \<and> after_ticks now T m sl' \<and> n \<le> m \<and> (quit_flag (snd sl') \<or> (\<forall>ts \<in> set polls. ts \<le> now + int m))"
proof (induction polls arbitrary: n sl)
  case (Cons ts polls)
  show ?case
  proof (cases "quit_flag (snd sl)")
    case True
    have "after_ticks now T n (fst sl, (snd sl)\<lparr>looping := False\<rparr>)"
      using Cons.prems by (simp add: after_ticks_def ran_rel_def)
    then show ?thesis using True by (intro exI [of _ "(fst sl, (snd sl)\<lparr>looping := False\<rparr>)"] exI [of _ n]) simp
  next
    case False
    obtain sl1 m1 where r: "loop_round example_cb no_channel ts [] sl = Some (Inr sl1)" "after_ticks now T m1 sl1"
        "ts \<le> now + int m1" "n \<le> m1"
      by (rule example_round [OF Cons.prems])
    obtain sl' m where "loop_rounds example_cb no_channel (map (\<lambda>ts. (ts, [])) polls) sl1 = Some (Inr sl')"
        "after_ticks now T m sl'" "m1 \<le> m" "quit_flag (snd sl') \<or> (\<forall>ts \<in> set polls. ts \<le> now + int m)"
      using Cons.IH [OF r(2)] by blast
    moreover have "ts \<le> now + int m" using r(3) \<open>m1 \<le> m\<close> by linarith
    ultimately show ?thesis using False r(1,4) by (intro exI [of _ sl'] exI [of _ m]) auto
  qed
qed auto

section \<open>What is scheduled\<close>

definition one_shot :: "int \<Rightarrow> bool" where
  "one_shot junk \<longleftrightarrow> \<not> (junk > 1 \<or> junk = -1)"

text \<open>A timer of one task, whatever its number, runs it once.\<close>

lemma once:
  assumes "one_shot junk" and "0 \<le> d"
  shows "fired_within n {#(d, \<lparr>task_id = k, rotations = r, timeout = t, times = junk, task_fun = Some f\<rparr>)#}
    = (if d < int n then {#f#} else {#})"
  using assms by (simp add: fired_within_once one_shot_def recurring_def map_filter_def)

lemma runAfter_added:
  assumes "0 \<le> i"
  shows "snd (runAfter example_cb i f junk (s, l)) = (s, l\<lparr>time_wheel := added i f junk (time_wheel l)\<rparr>)"
  using assms by (simp add: runAfter_def addTask_def Let_def)

lemma schedule_props:
  assumes "\<forall>(i, junk) \<in> set delays. 1 \<le> i \<and> i \<le> 5000 \<and> one_shot junk"
    and "wheel_live (time_wheel l)" and "\<And>n. fired_within n (timers (time_wheel l)) = F n"
  shows "\<exists>l'. schedule delays (s, l) = (s, l') \<and> wheel_live (time_wheel l')
    \<and> (\<forall>n. fired_within n (timers (time_wheel l')) = F n + mset (map CheckTask (filter (\<lambda>i. i < int n) (map fst delays))))
    \<and> starttime (time_wheel l') = starttime (time_wheel l) \<and> pending l' = pending l \<and> quit_flag l' = quit_flag l"
  using assms
proof (induction delays arbitrary: l F)
  case (Cons x delays)
  obtain i junk where x: "x = (i, junk)" by force
  have i: "1 \<le> i" "i \<le> 5000" "one_shot junk" using Cons.prems(1) by (simp_all add: x)
  let ?l = "l\<lparr>time_wheel := added i (CheckTask i) junk (time_wheel l)\<rparr>"
  have wf: "wheel_wf (time_wheel l)" using Cons.prems(2) by (simp add: wheel_live_def)
  have live: "wheel_live (time_wheel ?l)"
    using i Cons.prems(2) added_live [of "time_wheel l" i junk "CheckTask i"] by (simp add: one_shot_def)
  have F: "fired_within n (timers (time_wheel ?l)) = F n + mset (map CheckTask (filter (\<lambda>i. i < int n) [i]))" for n
  proof -
    have "fired_within n (timers (time_wheel ?l))
        = (if i < int n then {#CheckTask i#} else {#}) + fired_within n (timers (time_wheel l))"
      using i timers_added [OF wf, of i "CheckTask i" junk]
      by (simp add: fired_within_insert [of n _ "timers (time_wheel l)"] once)
    then show ?thesis by (simp add: Cons.prems(3))
  qed
  have st: "starttime (time_wheel ?l) = starttime (time_wheel l)"
    using added_eq [OF wf, of i "CheckTask i" junk] i by (simp add: push_slot_def)
  have eq: "schedule (x # delays) (s, l) = schedule delays (s, ?l)"
    using i by (simp add: schedule_def x runAfter_added)
  show ?case
  proof -
    obtain l' where l': "schedule delays (s, ?l) = (s, l')" "wheel_live (time_wheel l')"
        "\<And>n. fired_within n (timers (time_wheel l')) = F n + mset (map CheckTask (filter (\<lambda>i. i < int n) [i]))
          + mset (map CheckTask (filter (\<lambda>i. i < int n) (map fst delays)))"
        "starttime (time_wheel l') = starttime (time_wheel l)" "pending l' = pending l" "quit_flag l' = quit_flag l"
      using Cons.IH [OF _ live F] Cons.prems(1) st by (auto simp: x)
    then show ?thesis using eq by (intro exI [of _ l']) (simp add: x)
  qed
qed (auto simp: schedule_def)

section \<open>Properties of the timer example\<close>



end

