(* ===== verification/RpcExample.thy ===== *)
theory RpcExample
  imports Rpc
begin

text \<open>
  The remote call example: \<^verbatim>\<open>EchoService\<close> of \<^verbatim>\<open>example/rpc/example_echoserver_rpc.cpp\<close> and
  \<^verbatim>\<open>EchoRpcClient\<close> of \<^verbatim>\<open>example/rpc/example_echoclient_rpc.cpp\<close> (the same class again in
  \<^verbatim>\<open>example_echoclient_zk.cpp\<close>), on the two ends of \<open>Rpc\<close>.

  The message \<^verbatim>\<open>HelloMsg\<close> is that of \<^verbatim>\<open>example/rpc/echo.proto\<close>; its serializer and parser are generated
  from it and are parameters: \<open>ser\<close>, and \<open>parse\<close>, which is \<open>None\<close> when the bytes are no message.
  Objects made by \<^verbatim>\<open>new\<close> get the next address; a closure of \<^verbatim>\<open>NewCallback\<close> is known by the
  response it is bound to.
\<close>

section \<open>The service\<close>

record hello_msg =
  hello_id :: int
  information :: bytes

definition back_from_server :: bytes where
  "back_from_server = map of_char ''back from server''"

definition EchoService_echo :: "hello_msg \<Rightarrow> hello_msg" where
  "EchoService_echo request =
     \<lparr>hello_id = hello_id request, information = information request @ back_from_server\<rparr>"

definition EchoService :: "(bytes \<Rightarrow> hello_msg option) \<Rightarrow> (unit, hello_msg) service" where
  "EchoService parse = \<lparr>full_name = ''Echo.EchoService'',
     FindMethodByName = (\<lambda>m. if m = ''echo'' then Some () else None), ParseRequest = (\<lambda>_. parse)\<rparr>"

text \<open>What \<^verbatim>\<open>done->Run()\<close> sends, which the service calls at the end.\<close>

definition echo_reply :: "(hello_msg \<Rightarrow> bytes) \<Rightarrow> unit \<Rightarrow> hello_msg \<Rightarrow> bytes" where
  "echo_reply ser _ request = ser (EchoService_echo request)"

section \<open>The client\<close>

record echo_rpc_client =
  time_count :: int
  next_new :: nat
  chan :: "hello_msg rpc_client"
  printed :: "(int \<times> bytes) list"

definition new_echo_client :: echo_rpc_client where
  "new_echo_client = \<lparr>time_count = 0, next_new = 0, chan = new_rpc_client Map.empty, printed = []\<rparr>"

definition EchoRpcClient_echo :: "(hello_msg \<Rightarrow> bytes) \<Rightarrow> bytes \<Rightarrow> echo_rpc_client \<Rightarrow> echo_rpc_client" where
  "EchoRpcClient_echo ser info k =
     (let msg = \<lparr>hello_id = time_count k, information = info\<rparr>;
          response = next_new k;
          c = (chan k)\<lparr>heap := (heap (chan k))(response \<mapsto> \<lparr>hello_id = 0, information = []\<rparr>)\<rparr>
      in k\<lparr>time_count := time_count k + 1, next_new := Suc response,
           chan := CallMethod ''Echo.EchoService'' ''echo'' (ser msg) (Some response) (Some response) c\<rparr>)"

text \<open>\<^verbatim>\<open>delete\<close>: of an object that is there.\<close>

definition delete_response :: "nat \<Rightarrow> echo_rpc_client \<Rightarrow> echo_rpc_client option" where
  "delete_response r k =
     (case heap (chan k) r of
        None \<Rightarrow> None
      | Some m \<Rightarrow> Some (k\<lparr>chan := (chan k)\<lparr>heap := (heap (chan k))(r := None)\<rparr>\<rparr>))"

definition EchoRpcClient_cb :: "nat \<Rightarrow> echo_rpc_client \<Rightarrow> echo_rpc_client option" where
  "EchoRpcClient_cb response k =
     (case heap (chan k) response of
        None \<Rightarrow> None
      | Some m \<Rightarrow> delete_response response (k\<lparr>printed := printed k @ [(hello_id m, information m)]\<rparr>))"

text \<open>
  \<^verbatim>\<open>rpcChannelCli::onRpcHeader\<close> with a closure that does what the user wrote, where \<open>Rpc.complete\<close>
  only records that it ran. \<^verbatim>\<open>ParseFromString\<close> leaves an empty message when the bytes are none.
\<close>

definition complete_call :: "(nat \<Rightarrow> echo_rpc_client \<Rightarrow> echo_rpc_client option) \<Rightarrow> (bytes \<Rightarrow> hello_msg option)
    \<Rightarrow> bytes \<Rightarrow> outstanding \<Rightarrow> echo_rpc_client \<Rightarrow> echo_rpc_client option" where
  "complete_call run parse payload out k =
     (case o_response out of
        None \<Rightarrow> Some k
      | Some r \<Rightarrow>
          (case heap (chan k) r of
             None \<Rightarrow> None
           | Some m \<Rightarrow>
               (let m' = (case parse payload of Some x \<Rightarrow> x | None \<Rightarrow> \<lparr>hello_id = 0, information = []\<rparr>);
                    k1 = k\<lparr>chan := (chan k)\<lparr>heap := (heap (chan k))(r \<mapsto> m')\<rparr>\<rparr>
                in Option.bind (case o_done out of None \<Rightarrow> Some k1 | Some d \<Rightarrow> run d k1) (delete_response r))))"

definition echo_client_answer :: "(nat \<Rightarrow> echo_rpc_client \<Rightarrow> echo_rpc_client option) \<Rightarrow> (bytes \<Rightarrow> hello_msg option)
    \<Rightarrow> rpc_header \<Rightarrow> bytes \<Rightarrow> echo_rpc_client \<Rightarrow> echo_rpc_client option" where
  "echo_client_answer run parse message payload k =
     (if message_type message = Response then
        let i = uint (msg_id message); c = chan k in
        case outstandings c i of
          None \<Rightarrow> Some k
        | Some out \<Rightarrow> complete_call run parse payload out (k\<lparr>chan := c\<lparr>outstandings := (outstandings c)(i := None)\<rparr>\<rparr>)
      else Some k)"

text \<open>A closure that reads the response and does not delete it.\<close>

definition reading_cb :: "nat \<Rightarrow> echo_rpc_client \<Rightarrow> echo_rpc_client option" where
  "reading_cb response k =
     (case heap (chan k) response of
        None \<Rightarrow> None
      | Some m \<Rightarrow> Some (k\<lparr>printed := printed k @ [(hello_id m, information m)],
          chan := (chan k)\<lparr>runs := runs (chan k) @ [(response, m)]\<rparr>\<rparr>))"

section \<open>The two programs\<close>

definition rpc_example_server :: "(bytes \<Rightarrow> hello_msg option) \<Rightarrow> (unit, hello_msg) rpc_server" where
  "rpc_example_server parse = RegisterService (EchoService parse) new_rpc_server"

text \<open>\<^verbatim>\<open>main\<close> of the client calls \<^verbatim>\<open>echo\<close> five times without waiting: \<open>infos\<close> are the random strings.\<close>

definition rpc_example_client :: "(hello_msg \<Rightarrow> bytes) \<Rightarrow> bytes list \<Rightarrow> echo_rpc_client" where
  "rpc_example_client ser infos = fold (EchoRpcClient_echo ser) infos new_echo_client"

section \<open>A call there and back\<close>

text \<open>The client's request at the server, the service, and the answer on the way back.\<close>

definition echo_answer :: "(hello_msg \<Rightarrow> bytes) \<Rightarrow> (bytes \<Rightarrow> hello_msg option) \<Rightarrow> nat \<Rightarrow> echo_rpc_client
    \<Rightarrow> (unit, hello_msg) rpc_server \<Rightarrow> nat \<times> rpc_header \<times> bytes" where
  "echo_answer ser parse conn k s =
     (let (header, payload) = last (c_requests (chan k));
          s' = server_onRpcHeader conn header payload s
      in last (s_sent (run_done (echo_reply ser) 0 s')))"

text \<open>The channel of the example is that of \<open>Rpc\<close>: with a closure that only reads, what becomes of it is
  what \<open>client_onRpcHeader\<close> says.\<close>

lemma reading_refines_channel:
  assumes "\<forall>i out. outstandings (chan k) i = Some out \<longrightarrow> o_done out = o_response out"
  shows "map_option chan (echo_client_answer reading_cb parse message payload k)
    = client_onRpcHeader (\<lambda>b _. case parse b of Some x \<Rightarrow> x | None \<Rightarrow> \<lparr>hello_id = 0, information = []\<rparr>)
        message payload (chan k)"
  using assms
  by (auto simp: echo_client_answer_def client_onRpcHeader_def complete_call_def complete_def reading_cb_def
      delete_response_def Let_def split: option.splits)

lemma echo_sent:
  assumes "0 \<le> next_id (chan k)" and "next_id (chan k) < 2 ^ 32"
    and "k' = EchoRpcClient_echo ser info k"
  shows "last (c_requests (chan k')) = (default_header\<lparr>message_type := Request,
      msg_id := word_of_int (next_id (chan k)), service_name := ''Echo.EchoService'', method_name := ''echo''\<rparr>,
      ser \<lparr>hello_id = time_count k, information = info\<rparr>)"
    and "outstandings (chan k') (next_id (chan k))
      = Some \<lparr>o_response = Some (next_new k), o_done = Some (next_new k)\<rparr>"
    and "heap (chan k') (next_new k) = Some \<lparr>hello_id = 0, information = []\<rparr>"
    and "uint (word_of_int (next_id (chan k)) :: 32 word) = next_id (chan k)"
  using assms uint_id [OF assms(1,2)] by (simp_all add: EchoRpcClient_echo_def CallMethod_def Let_def)

lemma echo_answered:
  assumes "\<And>m. parse (ser m) = Some m" and "0 \<le> next_id (chan k)" and "next_id (chan k) < 2 ^ 32"
    and "k' = EchoRpcClient_echo ser info k" and "s = rpc_example_server parse"
  shows "echo_answer ser parse conn k' s = (conn,
    default_header\<lparr>message_type := Response, msg_id := word_of_int (next_id (chan k))\<rparr>,
    ser \<lparr>hello_id = time_count k, information = info @ back_from_server\<rparr>)"
  using echo_sent [OF assms(2-4)] assms(1)
  by (simp add: echo_answer_def assms(5) rpc_example_server_def server_onRpcHeader_def RegisterService_def new_rpc_server_def
      EchoService_def run_done_def SendRpcResponse_def echo_reply_def EchoService_echo_def Let_def)

section \<open>Properties of the remote call example\<close>

text \<open>The call of the example, there and back: the server accepts what \<^verbatim>\<open>EchoRpcClient::echo\<close> sends
  and answers on the same connection, and a closure that leaves the response alone reads the number
  of the call and the text sent, followed by the server's.\<close>

theorem echo_call_comes_back:
  assumes "\<And>m. parse (ser m) = Some m" and "0 \<le> next_id (chan k)" and "next_id (chan k) < 2 ^ 32"
    and "k' = EchoRpcClient_echo ser info k" and "s = rpc_example_server parse"
    and "echo_answer ser parse conn k' s = (conn', header, payload)"
  shows "conn' = conn
    \<and> (\<exists>k2. echo_client_answer reading_cb parse header payload k' = Some k2
        \<and> printed k2 = printed k @ [(time_count k, info @ back_from_server)]
        \<and> heap (chan k2) (next_new k) = None)"
proof -
  have a: "conn' = conn"
      "header = default_header\<lparr>message_type := Response, msg_id := word_of_int (next_id (chan k))\<rparr>"
      "payload = ser \<lparr>hello_id = time_count k, information = info @ back_from_server\<rparr>"
    using echo_answered [OF assms(1-5)] assms(6) by simp_all
  have "printed k' = printed k" by (simp add: assms(4) EchoRpcClient_echo_def Let_def)
  then show ?thesis
    using echo_sent [OF assms(2-4)] assms(1)
    by (simp add: a echo_client_answer_def complete_call_def reading_cb_def delete_response_def Let_def)
qed

text \<open>A serializer for the witness: the number in unary, a sign, the text.\<close>

definition unary_ser :: "hello_msg \<Rightarrow> bytes" where
  "unary_ser m = replicate (nat \<bar>hello_id m\<bar>) 1 @ (if hello_id m < 0 then 2 else 0) # information m"

definition unary_parse :: "bytes \<Rightarrow> hello_msg option" where
  "unary_parse b = (let n = length (takeWhile (\<lambda>x. x = 1) b) in
     case drop n b of [] \<Rightarrow> None
     | sign # info \<Rightarrow> Some \<lparr>hello_id = (if sign = 2 then - int n else int n), information = info\<rparr>)"

lemma unary_roundtrip: "unary_parse (unary_ser m) = Some m"
  by (simp add: unary_parse_def unary_ser_def takeWhile_append Let_def)

theorem echo_call_comes_back_witness:
  "\<exists>header payload k2. echo_answer unary_ser unary_parse 7 (EchoRpcClient_echo unary_ser [104, 105] new_echo_client)
      (rpc_example_server unary_parse) = (7, header, payload)
    \<and> echo_client_answer reading_cb unary_parse header payload (EchoRpcClient_echo unary_ser [104, 105] new_echo_client) = Some k2
    \<and> printed k2 = [(0, [104, 105] @ back_from_server)]"
proof -
  let ?k' = "EchoRpcClient_echo unary_ser [104, 105] new_echo_client"
  obtain conn header payload where a: "echo_answer unary_ser unary_parse 7 ?k'
      (rpc_example_server unary_parse) = (conn, header, payload)"
    by (cases "echo_answer unary_ser unary_parse 7 ?k' (rpc_example_server unary_parse)")
  have k: "0 \<le> next_id (chan new_echo_client)" "next_id (chan new_echo_client) < 2 ^ 32"
      "printed new_echo_client = []" "time_count new_echo_client = 0"
    by (simp_all add: new_echo_client_def new_rpc_client_def)
  from echo_call_comes_back [OF unary_roundtrip k(1,2) refl refl a] a k(3,4) show ?thesis by auto
qed

text \<open>With the closure the example has, the first answer to arrive ends in undefined behaviour: \<^verbatim>\<open>cb\<close>
  deletes the response, and the channel's \<^verbatim>\<open>unique_ptr\<close> deletes it again.\<close>

theorem echo_response_is_deleted_twice:
  assumes "0 \<le> next_id (chan k)" and "next_id (chan k) < 2 ^ 32"
    and "k' = EchoRpcClient_echo ser info k"
    and "header = default_header\<lparr>message_type := Response, msg_id := msg_id (fst (last (c_requests (chan k'))))\<rparr>"
  shows "echo_client_answer EchoRpcClient_cb parse header payload k' = None"
  using echo_sent [OF assms(1-3)]
  by (simp add: assms(4) echo_client_answer_def complete_call_def EchoRpcClient_cb_def delete_response_def Let_def)

definition toy_ser :: "hello_msg \<Rightarrow> bytes" where
  "toy_ser m = word_of_int (hello_id m) # information m"

theorem echo_response_is_deleted_twice_witness:
  "echo_client_answer EchoRpcClient_cb (\<lambda>_. None) (default_header\<lparr>message_type := Response\<rparr>) [7]
     (EchoRpcClient_echo toy_ser [104, 105] new_echo_client) = None"
  using echo_response_is_deleted_twice [of new_echo_client "EchoRpcClient_echo toy_ser [104, 105] new_echo_client"
      toy_ser "[104, 105]" "default_header\<lparr>message_type := Response\<rparr>" "\<lambda>_. None" "[7]"]
  by (simp add: new_echo_client_def new_rpc_client_def EchoRpcClient_echo_def CallMethod_def default_header_def Let_def)

text \<open>After \<^verbatim>\<open>main\<close> has made its calls only the last is outstanding: every request carries the id 0, and
  the entry of a call is taken over by the next, so the responses of the others are never parsed or
  freed.\<close>

lemma calls_share_one_entry:
  "infos \<noteq> [] \<Longrightarrow> next_id (chan k) = 0 \<Longrightarrow> outstandings (chan k) = m
    \<Longrightarrow> (\<forall>i. i \<noteq> 0 \<longrightarrow> m i = None)
    \<Longrightarrow> outstandings (chan (fold (EchoRpcClient_echo ser) infos k))
        = [0 \<mapsto> \<lparr>o_response = Some (next_new k + length infos - 1), o_done = Some (next_new k + length infos - 1)\<rparr>]
      \<and> (\<forall>i < length infos. heap (chan (fold (EchoRpcClient_echo ser) infos k)) (next_new k + i) \<noteq> None)"
proof (induction infos arbitrary: k m)
  case (Cons x infos)
  let ?k = "EchoRpcClient_echo ser x k"
  have k: "next_id (chan ?k) = 0" "next_new ?k = Suc (next_new k)" "heap (chan ?k) (next_new k) \<noteq> None"
      "outstandings (chan ?k) = m(0 \<mapsto> \<lparr>o_response = Some (next_new k), o_done = Some (next_new k)\<rparr>)"
    using Cons.prems(2,3) by (simp_all add: EchoRpcClient_echo_def CallMethod_def Let_def)
  have m: "\<forall>i. i \<noteq> 0 \<longrightarrow> (m(0 \<mapsto> \<lparr>o_response = Some (next_new k), o_done = Some (next_new k)\<rparr>)) i = None"
    using Cons.prems(4) by simp
  have keep: "heap (chan k') r \<noteq> None \<Longrightarrow> heap (chan (fold (EchoRpcClient_echo ser) infos k')) r \<noteq> None" for k' r
    by (induction infos arbitrary: k') (simp_all add: EchoRpcClient_echo_def CallMethod_def Let_def)
  show ?case
  proof (cases "infos = []")
    case True
    have "m(0 \<mapsto> y) = [0 \<mapsto> y]" for y using Cons.prems(4) by (intro ext) simp
    then show ?thesis using True k by simp
  next
    case False
    note ih = Cons.IH [OF False k(1,4) m]
    have "heap (chan (fold (EchoRpcClient_echo ser) infos ?k)) (next_new k + i) \<noteq> None" if "i < length (x # infos)" for i
      using that ih keep [OF k(3)] k(2) by (cases i) simp_all
    then show ?thesis using ih k(2) False by simp
  qed
qed simp

theorem example_calls_take_over_each_other:
  assumes "infos \<noteq> []"
  shows "outstandings (chan (rpc_example_client ser infos))
      = [0 \<mapsto> \<lparr>o_response = Some (length infos - 1), o_done = Some (length infos - 1)\<rparr>]
    \<and> (\<forall>r < length infos. heap (chan (rpc_example_client ser infos)) r \<noteq> None)"
  using calls_share_one_entry [OF assms, of new_echo_client Map.empty ser]
  by (simp add: rpc_example_client_def new_echo_client_def new_rpc_client_def)

theorem example_calls_take_over_each_other_witness:
  "outstandings (chan (rpc_example_client unary_ser [[1], [2], [3], [4], [5]]))
    = [0 \<mapsto> \<lparr>o_response = Some 4, o_done = Some 4\<rparr>]"
  using example_calls_take_over_each_other [of "[[1], [2], [3], [4], [5]]" unary_ser]
  by (simp add: eval_nat_numeral)

end
