(* ===== verification/LogExample.thy ===== *)
theory LogExample
  imports Logger
begin

text \<open>
  \<^verbatim>\<open>example/example_log.cpp\<close>: five threads that log at the same time, first to the standard output,
  then to an \<^verbatim>\<open>AsyncLogging\<close> that is destroyed at the end of the program.

  A thread is the list of what it still has to do; a schedule says whose turn it is and what the clock
  shows then, \<open>None\<close> standing for the background thread of the log. The number of rounds \<^verbatim>\<open>LOG_NUM\<close> is
  an argument; measuring the time is left out, and of the standard output the lines \<^verbatim>\<open>main\<close> and \<^verbatim>\<open>test\<close>
  print themselves while no other thread runs.
\<close>

section \<open>Threads that take turns\<close>

type_synonym schedule = "(nat option \<times> timestamp) list"
type_synonym 'a outcome = "((nat \<times> 'a) option \<times> timestamp) list"

fun run_threads :: "schedule \<Rightarrow> 'a list list \<Rightarrow> 'a outcome \<times> 'a list list" where
  "run_threads [] todo = ([], todo)"
| "run_threads ((None, ts) # turns) todo =
     (let (acts, rest) = run_threads turns todo in ((None, ts) # acts, rest))"
| "run_threads ((Some i, ts) # turns) todo =
     (if i < length todo \<and> todo ! i \<noteq> [] then
        let (acts, rest) = run_threads turns (todo[i := tl (todo ! i)]) in ((Some (i, hd (todo ! i)), ts) # acts, rest)
      else run_threads turns todo)"

definition all_joined :: "'a list list \<Rightarrow> bool" where
  "all_joined todo = list_all (\<lambda>cs. cs = []) todo"

text \<open>What the threads did, without the turns of the background thread.\<close>

fun actions :: "'a outcome \<Rightarrow> ((nat \<times> 'a) \<times> timestamp) list" where
  "actions [] = []"
| "actions ((None, ts) # acts) = actions acts"
| "actions ((Some x, ts) # acts) = (x, ts) # actions acts"

definition actions_of :: "nat \<Rightarrow> 'a outcome \<Rightarrow> 'a list" where
  "actions_of i acts = map (snd \<circ> fst) (filter (\<lambda>s. fst (fst s) = i) (actions acts))"

section \<open>The program\<close>

text \<open>The two statements of \<^verbatim>\<open>fun\<close> and those of the loop in \<^verbatim>\<open>test\<close>; \<open>file\<close> is \<^verbatim>\<open>__FILE__\<close>.\<close>

definition fun_calls :: "string \<Rightarrow> nat \<Rightarrow> log_call list" where
  "fun_calls file n = concat (replicate n
     [\<lparr>lc_file = file, lc_line = 18, lc_level = DEBUG, lc_func = ''fun'', lc_message = ''debug in fun ''\<rparr>,
      \<lparr>lc_file = file, lc_line = 19, lc_level = INFO, lc_func = '''', lc_message = ''info in fun''\<rparr>])"

definition main_calls :: "string \<Rightarrow> nat \<Rightarrow> log_call list" where
  "main_calls file n = concat (replicate n
     [\<lparr>lc_file = file, lc_line = 31, lc_level = DEBUG, lc_func = ''test'', lc_message = ''debug in main ''\<rparr>,
      \<lparr>lc_file = file, lc_line = 32, lc_level = INFO, lc_func = '''', lc_message = ''info in main ''\<rparr>])"

definition THREAD_NUM :: nat where "THREAD_NUM = 5"

definition test_threads :: "string \<Rightarrow> nat \<Rightarrow> log_call list list" where
  "test_threads file n = main_calls file n # replicate (THREAD_NUM - 1) (fun_calls file n)"

text \<open>
  The first test writes to \<^verbatim>\<open>std::cout\<close>, which threads may use at the same time, but whose characters
  from different threads may interleave. A thread has the characters it is still to put and the
  statements it is still to execute; in its turn it begins a statement, which reads the clock, or
  puts one character. A statement puts its record with a newline, then the one of \<^verbatim>\<open>std::endl\<close>.
\<close>

type_synonym cout_thread = "string \<times> log_call list"

definition default_text :: "timestamp \<Rightarrow> nat \<Rightarrow> log_call \<Rightarrow> string" where
  "default_text ts t c = (case log_output DEBUG ts t c of None \<Rightarrow> [] | Some msg \<Rightarrow> msg @ [CHR 0x0A])"

fun run_cout :: "(nat \<Rightarrow> nat) \<Rightarrow> schedule \<Rightarrow> cout_thread list \<Rightarrow> (nat \<times> char) list \<times> cout_thread list" where
  "run_cout tids [] todo = ([], todo)"
| "run_cout tids ((None, ts) # turns) todo = run_cout tids turns todo"
| "run_cout tids ((Some i, ts) # turns) todo =
     (if i < length todo then
        case todo ! i of
          (ch # chs, cs) \<Rightarrow> let (out, rest) = run_cout tids turns (todo[i := (chs, cs)]) in ((i, ch) # out, rest)
        | ([], c # cs) \<Rightarrow> run_cout tids turns (todo[i := (default_text ts (tids i) c, cs)])
        | ([], []) \<Rightarrow> run_cout tids turns todo
      else run_cout tids turns todo)"

definition cout_joined :: "cout_thread list \<Rightarrow> bool" where
  "cout_joined todo = list_all (\<lambda>x. x = ([], [])) todo"

definition chars_of :: "nat \<Rightarrow> (nat \<times> char) list \<Rightarrow> string" where
  "chars_of i out = map snd (filter (\<lambda>x. fst x = i) out)"

text \<open>With \<^verbatim>\<open>setOutput\<close> a statement is one call of \<^verbatim>\<open>AsyncLogging::append\<close>.\<close>

definition async_ops :: "(nat \<Rightarrow> nat) \<Rightarrow> log_call outcome \<Rightarrow> logger_op list" where
  "async_ops tids acts = map (\<lambda>(x, ts). case x of Some (i, c) \<Rightarrow> Log ts (tids i) c | None \<Rightarrow> Other (Thread ts)) acts"

definition path_filename :: "string \<Rightarrow> string" where
  "path_filename path = last (split_at (CHR ''/'') path)"

definition kRollSize :: int where "kRollSize = 20 * 1024 * 1024"

definition make_AsyncLogging :: "log_env \<Rightarrow> string \<Rightarrow> int \<Rightarrow> (string \<rightharpoonup> string) \<Rightarrow> timestamp \<Rightarrow> async_log option" where
  "make_AsyncLogging env basename roll_size fs ts =
     map_option new_async_log (new_log_file env (path_filename basename) roll_size 3 1024 fs ts)"

text \<open>\<^verbatim>\<open>main\<close>, with a schedule for each \<^verbatim>\<open>test\<close> and the clock for the last steps of the log's thread: what
  the standard output got from the first, each character with the thread it is from, and the log
  after the second; \<open>None\<close> when a test does not
  come to its end or the program dies.\<close>

definition log_example_main :: "log_env \<Rightarrow> string \<Rightarrow> string \<Rightarrow> (nat \<Rightarrow> nat) \<Rightarrow> nat \<Rightarrow> schedule \<Rightarrow> (string \<rightharpoonup> string)
    \<Rightarrow> timestamp \<Rightarrow> schedule \<Rightarrow> timestamp list \<Rightarrow> ((nat \<times> char) list \<times> async_log) option" where
  "log_example_main env argv0 file tids n turns1 fs ts turns2 tss =
     (let (out1, rest1) = run_cout tids turns1 (map (Pair []) (test_threads file n));
          (done2, rest2) = run_threads turns2 (test_threads file n)
      in if cout_joined rest1 then
           Option.bind (make_AsyncLogging env argv0 kRollSize fs ts) (\<lambda>g_asyncLog.
           Option.bind (log_run env (logger_ops DEBUG (async_ops tids done2)) g_asyncLog) (\<lambda>a.
           if all_joined rest2 then
             Option.bind (al_destroy a) (\<lambda>a. Option.bind (log_run env (map Thread tss) a) (\<lambda>a.
             Some (out1, a)))
           else None))
         else None)"

section \<open>Every thread's actions in its order\<close>

lemma run_threads_rest:
  "length (snd (run_threads turns todo)) = length todo"
  by (induction turns todo rule: run_threads.induct) (simp_all add: Let_def split_beta)

lemma run_threads_order:
  "i < length todo \<Longrightarrow> actions_of i (fst (run_threads turns todo)) @ snd (run_threads turns todo) ! i = todo ! i"
proof (induction turns todo rule: run_threads.induct)
  case (3 j ts turns todo)
  then show ?case by (cases "i = j") (auto simp: actions_of_def Let_def split_beta)
qed (simp_all add: actions_of_def Let_def split_beta)

lemma run_threads_in:
  "((i, x), ts) \<in> set (actions (fst (run_threads turns todo))) \<Longrightarrow> i < length todo"
  by (induction turns todo rule: run_threads.induct) (auto simp: Let_def split_beta split: if_splits)

lemma sum_list_update_tl:
  "i < length todo \<Longrightarrow> todo ! i \<noteq> [] \<Longrightarrow> Suc (sum_list (map length (todo[i := tl (todo ! i)]))) = sum_list (map length todo)"
proof (induction todo arbitrary: i)
  case (Cons cs todo)
  then show ?case by (cases i) simp_all
qed simp

lemma run_threads_count:
  "length (actions (fst (run_threads turns todo))) + sum_list (map length (snd (run_threads turns todo)))
    = sum_list (map length todo)"
proof (induction turns todo rule: run_threads.induct)
  case (3 j ts turns todo)
  then show ?case using sum_list_update_tl [of j todo] by (auto simp: Let_def split_beta)
qed (simp_all add: Let_def split_beta)

lemma joined_order:
  assumes "run_threads turns todo = (acts, rest)" and "all_joined rest"
  shows "i < length todo \<Longrightarrow> actions_of i acts = todo ! i"
    and "length (actions acts) = sum_list (map length todo)"
proof -
  have e: "\<forall>j < length todo. rest ! j = []"
    using assms run_threads_rest [of turns todo] by (auto simp: all_joined_def list_all_length)
  then show "i < length todo \<Longrightarrow> actions_of i acts = todo ! i"
    using run_threads_order [of i todo turns] assms(1) by simp
  have "sum_list (map length rest) = 0" using assms(2) by (simp add: all_joined_def list_all_iff)
  then show "length (actions acts) = sum_list (map length todo)" using run_threads_count [of turns todo] unfolding assms(1) fst_conv snd_conv by linarith
qed

lemma test_threads_count: "sum_list (map length (test_threads file n)) = 10 * n" "length (test_threads file n) = 5"
  by (simp_all add: test_threads_def THREAD_NUM_def main_calls_def fun_calls_def length_concat
      sum_list_replicate eval_nat_numeral)


section \<open>The standard output\<close>

text \<open>What a thread puts: the records of its statements, each with the clock it read, in order.\<close>

definition statement_texts :: "nat \<Rightarrow> timestamp list \<Rightarrow> log_call list \<Rightarrow> string" where
  "statement_texts t stamps cs = concat (map (\<lambda>(ts, c). default_text ts t c) (zip stamps cs))"

lemma run_cout_thread:
  assumes "run_cout tids turns todo = (out, rest)" and "cout_joined rest" and "i < length todo"
  shows "\<exists>stamps. length stamps = length (snd (todo ! i))
    \<and> chars_of i out = fst (todo ! i) @ statement_texts (tids i) stamps (snd (todo ! i))"
  using assms
proof (induction turns arbitrary: todo out rest)
  case Nil
  then show ?case by (auto simp: cout_joined_def list_all_length chars_of_def statement_texts_def)
next
  case (Cons turn turns)
  note IH = Cons.IH [OF _ Cons.prems(2)]
  show ?case
  proof (cases "\<exists>j ts. turn = (Some j, ts) \<and> j < length todo")
    case True
    then obtain j ts where turn: "turn = (Some j, ts)" and j: "j < length todo" by blast
    consider ch chs cs where "todo ! j = (ch # chs, cs)" | c cs where "todo ! j = ([], c # cs)" | "todo ! j = ([], [])"
      by (metis list.exhaust surj_pair)
    then show ?thesis
    proof cases
      case 1
      obtain out1 where o: "run_cout tids turns (todo[j := (chs, cs)]) = (out1, rest)" "out = (j, ch) # out1"
        using Cons.prems(1) j 1 by (auto simp: turn split: prod.splits)
      from IH [OF o(1)] Cons.prems(3) show ?thesis
        by (cases "i = j") (auto simp: o(2) chars_of_def 1)
    next
      case 2
      let ?todo = "todo[j := (default_text ts (tids j) c, cs)]"
      have "run_cout tids turns ?todo = (out, rest)" using Cons.prems(1) j 2 by (simp add: turn)
      from IH [OF this] Cons.prems(3) obtain stamps where
        s: "length stamps = length (snd (?todo ! i))"
          "chars_of i out = fst (?todo ! i) @ statement_texts (tids i) stamps (snd (?todo ! i))" by auto
      show ?thesis
      proof (cases "i = j")
        case True
        then have "length (ts # stamps) = length (snd (todo ! i)) \<and> chars_of i out = fst (todo ! i)
            @ statement_texts (tids i) (ts # stamps) (snd (todo ! i))"
          using s 2 Cons.prems(3) by (simp add: statement_texts_def)
        then show ?thesis by blast
      next
        case False
        then show ?thesis using s by auto
      qed
    next
      case 3
      then show ?thesis using IH [of todo out] Cons.prems(1,3) j by (simp add: turn)
    qed
  next
    case False
    then have "run_cout tids turns todo = (out, rest)"
      using Cons.prems(1) by (cases turn; cases "fst turn") auto
    then show ?thesis using IH Cons.prems(3) by simp
  qed
qed

lemma cout_test:
  assumes "run_cout tids turns (map (Pair []) (test_threads file n)) = (out, rest)" and "cout_joined rest"
  shows "\<forall>i < 5. \<exists>stamps. length stamps = length (test_threads file n ! i)
    \<and> chars_of i out = statement_texts (tids i) stamps (test_threads file n ! i)"
  using run_cout_thread [OF assms] test_threads_count(2) by simp

definition plain_call :: "log_call \<Rightarrow> bool" where
  "plain_call c \<longleftrightarrow> CHR 0x0A \<notin> set (lc_file c @ lc_func c @ lc_message c)"

lemma test_calls_plain:
  assumes "CHR 0x0A \<notin> set file" and "c \<in> set cs" and "cs \<in> set (test_threads file n)"
  shows "plain_call c"
  using assms by (auto simp: test_threads_def main_calls_def fun_calls_def plain_call_def split: if_splits)

section \<open>Whole records in every buffer\<close>

definition whole :: "string \<Rightarrow> bool" where
  "whole s \<longleftrightarrow> s = [] \<or> last s = CHR 0x0A"

lemma whole_simps [simp]: "whole []" "whole (xs @ [CHR 0x0A])" "whole s \<Longrightarrow> whole t \<Longrightarrow> whole (s @ t)"
  by (auto simp: whole_def last_append)

definition whole_log :: "log_env \<Rightarrow> async_log \<Rightarrow> bool" where
  "whole_log env a \<longleftrightarrow> whole (lf_content env (al_file a))
     \<and> (\<forall>b. Some b \<in> insert (currentBuffer a) (set (full_buffers a) \<union> set (buffersToWrite a)) \<longrightarrow> whole b)"

lemma whole_append:
  assumes "whole_log env a" and "al_ok env a" and "whole line" and "al_append line a = Some a'"
  shows "whole_log env a'"
  using assms
  by (auto simp: whole_log_def al_append_def lb_append_def al_ok_def Let_def split: option.splits if_splits)

lemma whole_thread:
  assumes "whole_log env a" and "al_ok env a" and "\<not> (al_pc a = PDrop \<and> 25 < length (buffersToWrite a))"
    and "al_thread env ts a = Some a'" and "opens_succeed env"
  shows "whole_log env a'"
proof (cases "al_pc a")
  case PLock
  then show ?thesis using assms
    by (auto simp: al_thread_def whole_log_def swap_buffers_def al_ok_def pc_ok_def head_asserts_def Let_def split: if_splits)
next
  case (PWrite k)
  show ?thesis
  proof (cases "k < length (buffersToWrite a)")
    case True
    then obtain b where b: "buffersToWrite a ! k = Some b"
      and a': "a' = a\<lparr>al_file := lf_append env ts b (al_file a), al_pc := PWrite (Suc k)\<rparr>"
      using assms(4) PWrite by (auto simp: al_thread_def split: option.splits)
    have "whole b" using assms(1) nth_mem [OF True] unfolding whole_log_def b by blast
    have "lf_content env (al_file a') = lf_content env (al_file a) @ b"
      using assms(2,5) by (simp add: a' al_ok_def lf_append_props)
    then show ?thesis using assms(1) \<open>whole b\<close> by (simp add: whole_log_def a')
  next
    case False
    then show ?thesis using assms(1,4) PWrite by (auto simp: al_thread_def whole_log_def)
  qed
qed (use assms in \<open>auto simp: al_thread_def whole_log_def drop_buffers_def recycle_def split: if_splits option.splits\<close>)

lemma whole_run:
  "opens_succeed env \<Longrightarrow> whole_log env a \<Longrightarrow> al_ok env a \<Longrightarrow> \<not> overrun env ops a \<Longrightarrow> (\<forall>line. Append line \<in> set ops \<longrightarrow> whole line)
    \<Longrightarrow> log_run env ops a = Some a' \<Longrightarrow> whole_log env a'"
proof (induction ops arbitrary: a)
  case (Cons op ops)
  obtain a1 where a1: "log_apply env op a = Some a1" "al_ok env a1" using log_apply_props [OF Cons.prems(3)] by blast
  have "whole_log env a1"
  proof (cases op)
    case (Append line)
    then show ?thesis using whole_append [OF Cons.prems(2,3), of line a1] Cons.prems(5) a1(1) by auto
  next
    case Stop
    then show ?thesis using Cons.prems(2) a1(1) by (auto simp: al_stop_def whole_log_def)
  next
    case (Thread ts)
    then show ?thesis using whole_thread [OF Cons.prems(2,3) _ _ Cons.prems(1)] Cons.prems(4) a1(1) by simp
  qed
  then show ?case using Cons.IH [OF Cons.prems(1) _ a1(2)] Cons.prems(4-6) a1(1) by simp
qed simp


text \<open>A prefix of whole records is a number of records.\<close>

lemma whole_prefix:
  assumes "\<forall>r \<in> set rs. CHR 0x0A \<notin> set r" and "whole p" and "p @ t = concat (map (\<lambda>r. r @ [CHR 0x0A]) rs)"
  shows "\<exists>k. p = concat (map (\<lambda>r. r @ [CHR 0x0A]) (take k rs))"
  using assms
proof (induction rs arbitrary: p)
  case (Cons r rs)
  show ?case
  proof (cases "p = []")
    case True
    then have "p = concat (map (\<lambda>r. r @ [CHR 0x0A]) (take 0 (r # rs)))" by simp
    then show ?thesis by blast
  next
    case False
    have eq: "p @ t = (r @ [CHR 0x0A]) @ concat (map (\<lambda>r. r @ [CHR 0x0A]) rs)" using Cons.prems(3) by simp
    have "\<exists>p'. p = (r @ [CHR 0x0A]) @ p'"
    proof (rule ccontr)
      assume n: "\<nexists>p'. p = (r @ [CHR 0x0A]) @ p'"
      obtain us where "p = (r @ [CHR 0x0A]) @ us \<or> p @ us = r @ [CHR 0x0A]"
        using append_eq_append_conv2 [THEN iffD1, OF eq] by blast
      then have us: "p @ us = r @ [CHR 0x0A]" using n by blast
      moreover have "us \<noteq> []" using us n by auto
      ultimately have "p @ butlast us = r" by (metis butlast_append butlast_snoc)
      then have "last p \<in> set r" using False by (metis Un_iff last_in_set set_append)
      then show False using Cons.prems(1,2) False by (auto simp: whole_def)
    qed
    then obtain p' where p': "p = (r @ [CHR 0x0A]) @ p'" by blast
    have "whole p'" using Cons.prems(2) unfolding p' by (auto simp: whole_def split: if_splits)
    moreover have "p' @ t = concat (map (\<lambda>r. r @ [CHR 0x0A]) rs)" using eq unfolding p' by simp
    ultimately obtain k where "p' = concat (map (\<lambda>r. r @ [CHR 0x0A]) (take k rs))"
      using Cons.IH [of p'] Cons.prems(1) by auto
    then have "p = concat (map (\<lambda>r. r @ [CHR 0x0A]) (take (Suc k) (r # rs)))" using p' by simp
    then show ?thesis by blast
  qed
qed (simp add: whole_def)

section \<open>The asynchronous log\<close>

definition said :: "(nat \<Rightarrow> nat) \<Rightarrow> log_call outcome \<Rightarrow> string list" where
  "said tids acts = map (\<lambda>((i, c), ts). log_record ts (tids i) c) (actions acts)"

lemma records_said: "records DEBUG (async_ops tids acts) = said tids acts"
proof (induction acts rule: actions.induct)
  case (3 x ts acts)
  obtain i c where "x = (i, c)" by (cases x)
  then show ?case using 3 by (cases "lc_level c") (simp_all add: async_ops_def said_def log_enabled_def less_eq_log_level_def)
qed (simp_all add: async_ops_def said_def)

lemma said_in:
  "r \<in> set (said tids acts) \<Longrightarrow> \<exists>i c ts. ((i, c), ts) \<in> set (actions acts) \<and> r = log_record ts (tids i) c"
  by (auto simp: said_def)

lemma appends_whole:
  "Append line \<in> set (logger_ops g (async_ops tids acts)) \<Longrightarrow> whole line"
  by (induction acts rule: actions.induct) (auto simp: async_ops_def log_output_def whole_def split: if_splits option.splits)

lemma action_calls:
  assumes "run_threads turns todo = (acts, rest)" and "((i, x), ts) \<in> set (actions acts)"
  shows "x \<in> set (todo ! i) \<and> i < length todo"
proof -
  have i: "i < length todo" using run_threads_in [of i x ts turns todo] assms by simp
  have "x \<in> set (actions_of i acts)"
    using assms(2) by (force simp: actions_of_def)
  then show ?thesis using run_threads_order [OF i, of turns] assms(1) i by (metis Un_iff fst_conv set_append)
qed

lemma path_filename_no_slash: "CHR ''/'' \<notin> set (path_filename path)"
proof -
  have "\<forall>piece \<in> set (split_at s xs). s \<notin> set piece" for s :: char and xs
    by (induction s xs rule: split_at.induct) (auto split: list.splits)
  moreover have "split_at (CHR ''/'') path \<noteq> []" for path by (cases path) (auto split: list.splits)
  ultimately show ?thesis unfolding path_filename_def by (meson last_in_set)
qed

lemma make_log:
  "\<exists>f. make_AsyncLogging env path roll_size fs ts = Some (new_async_log f)
    \<and> new_log_file env (path_filename path) roll_size 3 1024 fs ts = Some f"
  using path_filename_no_slash [of path] by (simp add: make_AsyncLogging_def new_log_file_def)


lemma unstopped:
  "log_run env ops b = Some b' \<Longrightarrow> Stop \<notin> set ops \<Longrightarrow> al_pc b = PStart \<or> running b \<and> al_pc b \<noteq> PExit
    \<Longrightarrow> al_pc b' = PStart \<or> running b' \<and> al_pc b' \<noteq> PExit"
proof (induction ops arbitrary: b)
  case (Cons op ops)
  then obtain b1 where b1: "log_apply env op b = Some b1" "log_run env ops b1 = Some b'"
    by (auto split: option.splits simp del: log_apply.simps)
  have "al_pc b1 = PStart \<or> running b1 \<and> al_pc b1 \<noteq> PExit"
    using b1(1) Cons.prems(2,3)
    by (cases op; cases "al_pc b")
      (auto simp: al_append_def al_thread_def swap_buffers_def drop_buffers_def recycle_def Let_def
        split: option.splits if_splits)
  then show ?case using Cons.IH [OF b1(2)] Cons.prems(2) by simp
qed simp

lemma async_no_stop: "Stop \<notin> set (logger_ops g (async_ops tids acts))"
  by (induction acts rule: actions.induct) (auto simp: async_ops_def split: option.splits)

lemma async_stored:
  assumes "\<forall>r \<in> set (said tids acts). Suc (length r) < buffer_size"
  shows "concat (map stored (logger_ops DEBUG (async_ops tids acts))) = concat (map (\<lambda>r. r @ [CHR 0x0A]) (said tids acts))"
  using assms
proof (induction acts rule: actions.induct)
  case (3 x ts acts)
  obtain i c where "x = (i, c)" by (cases x)
  then show ?case using 3
    by (cases "lc_level c") (auto simp: async_ops_def said_def log_output_def log_enabled_def less_eq_log_level_def stored_def)
qed (simp_all add: async_ops_def said_def stored_def)

lemma new_log_whole:
  "new_log_file env b roll flush check fs ts = Some f \<Longrightarrow> whole_log env (new_async_log f) \<and> al_ok env (new_async_log f)
    \<and> lf_content env (al_file (new_async_log f)) @ in_memory (new_async_log f) = ''''"
  using new_log_file_props [of env b roll flush check fs ts f] new_async_log_ok [of env f]
  by (auto simp: whole_log_def new_async_log_def)

lemma whole_stop: "whole_log env a \<Longrightarrow> whole_log env (al_stop a)"
  by (simp add: whole_log_def al_stop_def)

text \<open>From the first statement to the end of the program: what the files hold then.\<close>

lemma files_after_main:
  assumes f: "new_log_file env b roll flush check fs ts = Some f"
    and a: "log_run env (logger_ops DEBUG (async_ops tids acts)) (new_async_log f) = Some a"
    and over: "\<not> overrun env (logger_ops DEBUG (async_ops tids acts)) (new_async_log f)"
    and rs: "\<forall>r \<in> set (said tids acts). CHR 0x0A \<notin> set r \<and> Suc (length r) < buffer_size"
    and pc: "al_pc a \<noteq> PStart" and few: "length (full_buffers a) < 25" "length (buffersToWrite a) \<le> 25"
    and steps: "steps_to_exit a \<le> length tss" and opens: "opens_succeed env"
  shows "\<exists>a1 a' k. al_destroy a = Some a1 \<and> log_run env (map Thread tss) a1 = Some a' \<and> al_pc a' = PExit
    \<and> split_at (CHR 0x0A) (lf_content env (al_file a')) = take k (said tids acts) @ [[]]
    \<and> (al_pc a = PLock \<longrightarrow> take k (said tids acts) = said tids acts)"
proof -
  let ?all = "concat (map (\<lambda>r. r @ [CHR 0x0A]) (said tids acts))"
  note new = new_log_whole [OF f]
  have ok: "al_ok env a" "lf_content env (al_file a) @ in_memory a = ?all"
    using log_run_props [of env "new_async_log f" "logger_ops DEBUG (async_ops tids acts)"] new a over async_stored [of tids acts] rs opens
    by auto
  have wh: "whole_log env a"
    using whole_run [OF opens conjunct1 [OF new] _ over _ a] new appends_whole by blast
  have run: "running a" using unstopped [OF a async_no_stop] pc by (simp add: new_async_log_def)
  have st: "al_ok env (al_stop a)" "stopped (al_stop a)" "steps_to_exit (al_stop a) \<le> length tss"
      "tail_lost (al_stop a) = tail_lost a"
      "length (full_buffers (al_stop a)) < 25" "length (buffersToWrite (al_stop a)) \<le> 25"
      "lf_content env (al_file (al_stop a)) @ in_memory (al_stop a) = ?all"
    using stop_props [OF ok(1)] ok pc few steps
    by (simp_all add: stopped_def al_stop_def steps_to_exit_def tail_lost_def cong: log_pc.case_cong)
  note over' = stopped_no_overrun [OF st(1,2,5,6)]
  obtain a' where a': "log_run env (map Thread tss) (al_stop a) = Some a'" "al_pc a' = PExit" "tail_lost a' = tail_lost a"
    using exiting_run [OF st(1-3)] st(4) by auto
  have none: "concat (map (stored \<circ> Thread) tss) = ''''" by (simp add: stored_def)
  have content: "lf_content env (al_file a') @ tail_lost a = ?all"
    using log_run_props [OF st(1), of "map Thread tss"] over' a' exit_memory [OF a'(2)] st(7) opens by (auto simp: none)
  have "whole_log env a'" using whole_run [OF opens whole_stop [OF wh] st(1) over' _ a'(1)] by auto
  then obtain k where k: "lf_content env (al_file a') = concat (map (\<lambda>r. r @ [CHR 0x0A]) (take k (said tids acts)))"
    using whole_prefix [OF _ _ content] rs by (auto simp: whole_log_def)
  have "\<forall>r \<in> set (take k (said tids acts)). CHR 0x0A \<notin> set r" using rs by (auto dest: in_set_takeD)
  then have lines: "split_at (CHR 0x0A) (lf_content env (al_file a')) = take k (said tids acts) @ [[]]"
    unfolding k by (rule split_records)
  have "take k (said tids acts) = said tids acts" if "al_pc a = PLock"
  proof -
    have "lf_content env (al_file a') = ?all" using content that by (simp add: tail_lost_def)
    then have "take k (said tids acts) @ [[]] = said tids acts @ [[]]" using lines split_records rs by metis
    then show ?thesis by simp
  qed
  then show ?thesis using a'(1,2) lines run by (auto simp: al_destroy_def)
qed


lemma test_records_plain:
  assumes "CHR 0x0A \<notin> set file" and "run_threads turns (test_threads file n) = (acts, rest)"
    and "r \<in> set (said tids acts)"
  shows "CHR 0x0A \<notin> set r"
proof -
  obtain i c ts where r: "((i, c), ts) \<in> set (actions acts)" "r = log_record ts (tids i) c" using said_in [OF assms(3)] by blast
  have "c \<in> set (test_threads file n ! i)" "test_threads file n ! i \<in> set (test_threads file n)"
    using action_calls [OF assms(2) r(1)] by simp_all
  then have "plain_call c" using test_calls_plain [OF assms(1)] by blast
  then show ?thesis unfolding r(2) plain_call_def by (rule no_newline_record)
qed

section \<open>Properties of the logging example\<close>

text \<open>C25. The logging example, from the first statement to the end. Let the tests have ended, the thread
  of the log have been started, no round of it have found more than 25 buffers (beyond that it drops
  records), every record be shorter than a buffer and every log file be opened. Then, however the
  threads took turns, the program returns. On the standard output the characters of the threads may
  have mixed, but those of each thread are exactly its records, each with the clock it read, in
  order. The second test says \<open>10 * n\<close> records, those of each thread in its order; and the log
  files hold, whole and in order, the first of them, up to what the background thread had not
  swapped out when the log was destroyed: all of them when it was waiting for more.\<close>

theorem log_example_keeps_whole_records:
  assumes "CHR 0x0A \<notin> set file"
    and "run_cout tids turns1 (map (Pair []) (test_threads file n)) = (out, rest1)" and "cout_joined rest1"
    and "run_threads turns2 (test_threads file n) = (acts2, rest2)" and "all_joined rest2"
    and "\<forall>r \<in> set (said tids acts2). Suc (length r) < buffer_size"
    and "make_AsyncLogging env argv0 kRollSize fs ts = Some g_asyncLog"
    and "log_run env (logger_ops DEBUG (async_ops tids acts2)) g_asyncLog = Some a"
    and "\<not> overrun env (logger_ops DEBUG (async_ops tids acts2)) g_asyncLog"
    and "al_pc a \<noteq> PStart" and "length (full_buffers a) < 25" and "length (buffersToWrite a) \<le> 25"
    and "steps_to_exit a \<le> length tss" and "opens_succeed env"
  shows "\<exists>a' k. log_example_main env argv0 file tids n turns1 fs ts turns2 tss = Some (out, a') \<and> al_pc a' = PExit
    \<and> (\<forall>i < 5. \<exists>stamps. length stamps = length (test_threads file n ! i)
        \<and> chars_of i out = statement_texts (tids i) stamps (test_threads file n ! i))
    \<and> length (said tids acts2) = 10 * n \<and> (\<forall>i < 5. actions_of i acts2 = test_threads file n ! i)
    \<and> split_at (CHR 0x0A) (lf_content env (al_file a')) = take k (said tids acts2) @ [[]]
    \<and> (al_pc a = PLock \<longrightarrow> take k (said tids acts2) = said tids acts2)"
proof -
  obtain f where f: "g_asyncLog = new_async_log f" "new_log_file env (path_filename argv0) kRollSize 3 1024 fs ts = Some f"
    using make_log [of env argv0 kRollSize fs ts] assms(7) by auto
  have rs: "\<forall>r \<in> set (said tids acts2). CHR 0x0A \<notin> set r \<and> Suc (length r) < buffer_size"
    using test_records_plain [OF assms(1,4)] assms(6) by blast
  obtain a1 a' k where end': "al_destroy a = Some a1" "log_run env (map Thread tss) a1 = Some a'" "al_pc a' = PExit"
      "split_at (CHR 0x0A) (lf_content env (al_file a')) = take k (said tids acts2) @ [[]]"
      "al_pc a = PLock \<longrightarrow> take k (said tids acts2) = said tids acts2"
    using files_after_main [OF f(2) assms(8,9) [unfolded f(1)] rs assms(10-14)] by blast
  have "log_example_main env argv0 file tids n turns1 fs ts turns2 tss = Some (out, a')"
    using assms(2-5,7,8) end'(1,2) by (simp add: log_example_main_def)
  moreover have "length (said tids acts2) = 10 * n" "\<forall>i < 5. actions_of i acts2 = test_threads file n ! i"
    using joined_order [OF assms(4,5)] test_threads_count by (simp_all add: said_def)
  ultimately show ?thesis using end'(3-5) cout_test [OF assms(2,3)] by blast
qed


lemma appends_fit:
  "al_pc a = PLock \<Longrightarrow> currentBuffer a = Some b \<Longrightarrow> length b + sum_list (map length ls) < buffer_size
    \<Longrightarrow> log_run env (map Append ls) a = Some (a\<lparr>currentBuffer := Some (b @ concat ls)\<rparr>) \<and> \<not> overrun env (map Append ls) a"
proof (induction ls arbitrary: a b)
  case (Cons l ls)
  let ?a = "a\<lparr>currentBuffer := Some (b @ l)\<rparr>"
  have "length l < buffer_size - length b" using Cons.prems(3) by simp
  then have "al_append l a = Some ?a" using Cons.prems by (simp add: al_append_def lb_avail_def lb_append_def)
  then show ?case using Cons.IH [of ?a "b @ l"] Cons.prems by simp
qed simp

definition one_round :: schedule where
  "one_round = map (\<lambda>i. (Some i, 0)) [1, 0, 1, 0, 2, 2, 3, 3, 4, 4]"

definition this_file :: string where "this_file = ''example_log.cpp''"

lemma one_round_said:
  "\<exists>acts rest. run_threads ((None, 0) # (None, 0) # one_round) (test_threads this_file 1) = ((None, 0) # (None, 0) # acts, rest)
    \<and> all_joined rest \<and> (\<forall>x \<in> set acts. fst x \<noteq> None \<and> snd x = 0) \<and> length acts = 10"
  by (simp add: one_round_def test_threads_def THREAD_NUM_def main_calls_def fun_calls_def all_joined_def eval_nat_numeral)

text \<open>From any state there are turns with which all threads come to their end.\<close>

lemma cout_can_end: "\<exists>turns out rest. run_cout tids turns todo = (out, rest) \<and> cout_joined rest"
proof (induction todo rule: wf_induct [OF wf_measures
    [of "[\<lambda>todo. sum_list (map (length \<circ> snd) todo), \<lambda>todo. sum_list (map (length \<circ> fst) todo)]"]])
  case (1 todo)
  show ?case
  proof (cases "cout_joined todo")
    case True
    then have "run_cout tids [] todo = ([], todo) \<and> cout_joined todo" by simp
    then show ?thesis by blast
  next
    case False
    then obtain i where i: "i < length todo" "todo ! i \<noteq> ([], [])" by (auto simp: cout_joined_def list_all_length)
    consider ch chs cs where "todo ! i = (ch # chs, cs)" | c cs where "todo ! i = ([], c # cs)"
      using i(2) by (metis list.exhaust surj_pair)
    then show ?thesis
    proof cases
      case 1
      have "(todo[i := (chs, cs)], todo) \<in> measures
          [\<lambda>todo. sum_list (map (length \<circ> snd) todo), \<lambda>todo. sum_list (map (length \<circ> fst) todo)]"
        using i(1) 1 elem_le_sum_list [of i "map (length \<circ> snd) todo"] elem_le_sum_list [of i "map (length \<circ> fst) todo"]
        by (simp add: map_update sum_list_update)
      with "1.IH" obtain turns out rest where "run_cout tids turns (todo[i := (chs, cs)]) = (out, rest)" "cout_joined rest"
        by blast
      then have "run_cout tids ((Some i, 0) # turns) todo = ((i, ch) # out, rest) \<and> cout_joined rest" using i(1) 1 by simp
      then show ?thesis by blast
    next
      case 2
      let ?todo = "todo[i := (default_text 0 (tids i) c, cs)]"
      have "(?todo, todo) \<in> measures
          [\<lambda>todo. sum_list (map (length \<circ> snd) todo), \<lambda>todo. sum_list (map (length \<circ> fst) todo)]"
        using i(1) 2 elem_le_sum_list [of i "map (length \<circ> snd) todo"]
        by (simp add: map_update sum_list_update)
      with "1.IH" obtain turns out rest where "run_cout tids turns ?todo = (out, rest)" "cout_joined rest"
        by blast
      then have "run_cout tids ((Some i, 0) # turns) todo = (out, rest) \<and> cout_joined rest" using i(1) 2 by simp
      then show ?thesis by blast
    qed
  qed
qed

lemma only_appends:
  "\<forall>x \<in> set acts. fst x \<noteq> None \<Longrightarrow>
    logger_ops DEBUG (async_ops tids acts) = map Append (map (\<lambda>r. r @ [CHR 0x0A]) (said tids acts))"
proof (induction acts rule: actions.induct)
  case (3 x ts acts)
  obtain i c where "x = (i, c)" by (cases x)
  then show ?case using 3
    by (cases "lc_level c") (auto simp: async_ops_def said_def log_output_def log_enabled_def less_eq_log_level_def)
qed (simp_all add: async_ops_def said_def)

lemma short_record:
  assumes "c \<in> set (test_threads this_file 1 ! i)" and "i < 5" and "t < 10"
  shows "length (log_record 0 t c) < 200"
proof -
  have "test_threads this_file 1 ! i \<in> {main_calls this_file 1, fun_calls this_file 1}"
    using assms(2) nth_mem [of i "test_threads this_file 1"] test_threads_count(2) [of this_file 1]
    by (auto simp: test_threads_def simp del: nth_mem)
  then have c: "length (lc_message c) \<le> 14" "length (lc_file c) = 15" "length (lc_func c) \<le> 4" "lc_line c < 100"
    using assms(1) by (auto simp: main_calls_def fun_calls_def this_file_def)
  have "length (show_nat t) \<le> 1" "length (show_nat (lc_line c)) \<le> 2"
    using length_show_nat [of t 0] length_show_nat [of "lc_line c" 1] c(4) assms(3) by simp_all
  moreover have "length (show_nat (tm_year (gmtime (get_time_t 0)))) \<le> 4"
    using length_show_nat [of 1970 3]
    by (simp add: get_time_t_def gmtime_def split_year.simps [of 0] year_days_def Let_def split: prod.split)
  ultimately show ?thesis using c(1-3)
    by (cases "lc_level c") (auto simp: log_record_def logger_begin_def logger_end_def get_time_format_8601_def Let_def
        pad2_def pad6_def LogLevelName_def)
qed

definition test_argv :: string where "test_argv = ''bin/example_log''"

lemma one_round_log:
  assumes acts: "\<forall>x \<in> set acts. fst x \<noteq> None \<and> snd x = (0 :: timestamp)" and ten: "length acts = 10"
    and short: "\<forall>r \<in> set (said tids acts). length r < 200"
  shows "\<exists>a. log_run env (logger_ops DEBUG (async_ops tids ((None, 0) # (None, 0) # acts))) (new_async_log f) = Some a
    \<and> \<not> overrun env (logger_ops DEBUG (async_ops tids ((None, 0) # (None, 0) # acts))) (new_async_log f)
    \<and> al_pc a = PLock \<and> full_buffers a = [] \<and> buffersToWrite a = []"
proof -
  let ?ls = "map (\<lambda>r. r @ [CHR 0x0A]) (said tids acts)"
  let ?a = "(new_async_log f)\<lparr>newBuffer1 := Some '''', newBuffer2 := Some '''', buffersToWrite := [], running := True,
      al_pc := PLock\<rparr>"
  have ops: "logger_ops DEBUG (async_ops tids ((None, 0) # (None, 0) # acts)) = Thread 0 # Thread 0 # map Append ?ls"
    using only_appends [of acts tids] acts by (simp add: async_ops_def)
  have "sum_list (map length ?ls) \<le> length ?ls * 200"
    using sum_list_mono [of "said tids acts" "\<lambda>r. length r + 1" "\<lambda>_. 200"] short by (force simp: o_def sum_list_triv)
  moreover have "length (actions acts) \<le> length acts" by (induction acts rule: actions.induct) simp_all
  then have "length ?ls \<le> 10" using ten by (simp add: said_def)
  ultimately have "length '''' + sum_list (map length ?ls) < buffer_size" by (simp add: buffer_size_def)
  from appends_fit [of ?a "''''" ?ls, OF _ _ this] show ?thesis
    unfolding ops by (simp add: al_thread_def new_async_log_def head_asserts_def del: map_map)
qed


theorem log_example_keeps_whole_records_witness:
  "\<exists>turns out a'. log_example_main test_env test_argv this_file Suc 1 turns Map.empty 0
      ((None, 0) # (None, 0) # one_round) (replicate 6 0) = Some (out, a')
    \<and> (\<exists>stamps. length stamps = 2 \<and> chars_of 3 out = statement_texts 4 stamps (fun_calls this_file 1))
    \<and> length (split_at (CHR 0x0A) (lf_content test_env (al_file a'))) = 11"
proof -
  obtain acts rest where r: "run_threads ((None, 0) # (None, 0) # one_round) (test_threads this_file 1)
      = ((None, 0) # (None, 0) # acts, rest)" "all_joined rest" "\<forall>x \<in> set acts. fst x \<noteq> None \<and> snd x = 0" "length acts = 10"
    using one_round_said by blast
  obtain turns out rest1 where r1: "run_cout Suc turns (map (Pair []) (test_threads this_file 1)) = (out, rest1)"
      "cout_joined rest1" using cout_can_end by blast
  let ?acts = "(None, 0) # (None, 0) # acts"
  have short: "\<forall>l \<in> set (said Suc ?acts). length l < 200"
  proof
    fix l
    assume l: "l \<in> set (said Suc ?acts)"
    obtain i c ts where c: "((i, c), ts) \<in> set (actions ?acts)" "l = log_record ts (Suc i) c" using said_in [OF l] by auto
    have "ts = 0" if "(x, ts) \<in> set (actions acts)" "\<forall>y \<in> set acts. fst y \<noteq> None \<and> snd y = (0 :: timestamp)"
      for x :: "nat \<times> log_call" and ts acts
      using that by (induction acts rule: actions.induct) auto
    then have "ts = 0" using c(1) r(3) by fastforce
    then show "length l < 200" using action_calls [OF r(1) c(1)] short_record [of c i "Suc i"] c(2) test_threads_count(2) [of this_file 1] by simp
  qed
  then have small: "\<forall>l \<in> set (said Suc ?acts). Suc (length l) < buffer_size" by (auto simp: buffer_size_def)
  obtain f where f: "make_AsyncLogging test_env test_argv kRollSize Map.empty 0 = Some (new_async_log f)"
    using make_log by blast
  have "\<forall>l \<in> set (said Suc acts). length l < 200" using short by (simp add: said_def)
  from one_round_log [OF r(3,4) this, of test_env f] obtain a where
    a: "log_run test_env (logger_ops DEBUG (async_ops Suc ?acts)) (new_async_log f) = Some a"
      "\<not> overrun test_env (logger_ops DEBUG (async_ops Suc ?acts)) (new_async_log f)"
      "al_pc a = PLock" "full_buffers a = []" "buffersToWrite a = []" by blast
  have nonl: "CHR 0x0A \<notin> set this_file" by (simp add: this_file_def)
  have st: "al_pc a \<noteq> PStart" "length (full_buffers a) < 25" "length (buffersToWrite a) \<le> 25"
      "steps_to_exit a \<le> length (replicate 6 (0 :: timestamp))" using a(3-5) by (simp_all add: steps_to_exit_def)
  have three: "test_threads this_file 1 ! 3 = fun_calls this_file 1" "length (fun_calls this_file 1) = 2"
    by (simp_all add: test_threads_def THREAD_NUM_def fun_calls_def eval_nat_numeral)
  obtain a' k where p: "log_example_main test_env test_argv this_file Suc 1 turns Map.empty 0
      ((None, 0) # (None, 0) # one_round) (replicate 6 0) = Some (out, a')"
    "\<forall>i < 5. \<exists>stamps. length stamps = length (test_threads this_file 1 ! i)
        \<and> chars_of i out = statement_texts (Suc i) stamps (test_threads this_file 1 ! i)"
    "length (said Suc ?acts) = 10 * 1"
    "split_at (CHR 0x0A) (lf_content test_env (al_file a')) = take k (said Suc ?acts) @ [[]]"
    "take k (said Suc ?acts) = said Suc ?acts"
    using log_example_keeps_whole_records [OF nonl r1 r(1,2) small f a(1,2) st test_env_opens] a(3) by blast
  have "\<exists>stamps. length stamps = 2 \<and> chars_of 3 out = statement_texts 4 stamps (fun_calls this_file 1)"
    using p(2) [rule_format, of 3] three by simp
  moreover have "length (split_at (CHR 0x0A) (lf_content test_env (al_file a'))) = 11" using p(3) unfolding p(4,5) by simp
  ultimately show ?thesis using p(1) by blast
qed

end
