(* ===== verification/Spec2Isabelle.thy ===== *)
theory Spec2Isabelle
  imports WheelTimers LoopPool Connector Acceptor TcpClient Registry ZkSession RpcEnds Logger JsonCodec Singleton ConnLoop Echo
    WheelExample RpcExample LogExample
begin

text \<open>
  Gd_rpc is a remote procedure call library for C++ over an event loop of its own, in the style of
  muduo, with protobuf messages, discovery through ZooKeeper and an asynchronous log. The sources
  are under \<^verbatim>\<open>src/gdrpc\<close>; file names below are relative to it.

  \<^bold>\<open>How the program works.\<close> A thread runs one \<^verbatim>\<open>EventLoop\<close> (\<^verbatim>\<open>net/eventLoop.cpp\<close>): it polls an
  \<^verbatim>\<open>EPollPoller\<close>, lets the \<^verbatim>\<open>Channel\<close> of each reported descriptor call back, turns a
  \<^verbatim>\<open>TimeWheel\<close> by the milliseconds gone by and runs the functors other threads have queued.
  A \<^verbatim>\<open>TcpServer\<close> accepts descriptors in its base loop through an \<^verbatim>\<open>Acceptor\<close> and gives each to a loop
  of an \<^verbatim>\<open>EventLoopThreadPool\<close> as a \<^verbatim>\<open>TcpConnection\<close>; a \<^verbatim>\<open>TcpClient\<close> gets its connections
  from a \<^verbatim>\<open>Connector\<close> that retries. A connection owns an input and an output \<^verbatim>\<open>Buffer\<close>.
  \<^verbatim>\<open>ProtocolCodec\<close> frames a protobuf header and message on a connection; \<^verbatim>\<open>RpcServer\<close> dispatches
  requests to services and answers, \<^verbatim>\<open>rpcChannelCli\<close> keeps the calls that wait for an answer.
  \<^verbatim>\<open>RpcServer::Run\<close> publishes its services through \<^verbatim>\<open>ZkClient\<close>, \<^verbatim>\<open>RpcCluster\<close> reads them
  back and chooses a server for each call by weighted round robin. \<^verbatim>\<open>Logger\<close> formats the records
  of all parts; \<^verbatim>\<open>AsyncLogging\<close> writes them to files that roll.

  \<^bold>\<open>Where it is modelled.\<close> One theory per component, each opening with what it holds.
    \<^item> \<open>Prelude\<close>: shared types and lemmas on lists, maps, decimal numbers and words.
    \<^item> \<open>TimingWheel\<close>, \<open>WheelTimers\<close>: \<^verbatim>\<open>util/timingWheel.hpp\<close>, \<^verbatim>\<open>.cpp\<close> and the calls of
      \<^verbatim>\<open>EventLoop\<close> that use it; the second theory refines it to a multiset of timers.
    \<^item> \<open>Buffer\<close>: the class \<^verbatim>\<open>Buffer\<close> of \<^verbatim>\<open>net/tcpConnection.hpp\<close>, refined to a queue of bytes.
    \<^item> \<open>Poller\<close>: \<^verbatim>\<open>net/channel.hpp\<close>, \<^verbatim>\<open>.cpp\<close>, \<^verbatim>\<open>net/epoll_poller.hpp\<close>, \<^verbatim>\<open>.cpp\<close>, with the
      interest list of the kernel as the abstract state.
    \<^item> \<open>EventLoop\<close>: \<^verbatim>\<open>net/eventLoop.hpp\<close>, \<^verbatim>\<open>.cpp\<close>; the functor queue between threads is a step relation.
    \<^item> \<open>LoopPool\<close>: \<^verbatim>\<open>net/eventLoop_thread.hpp\<close>, \<^verbatim>\<open>net/eventLoop_threadPool.hpp\<close> and their \<^verbatim>\<open>.cpp\<close>.
    \<^item> \<open>TcpConn\<close>: \<^verbatim>\<open>net/tcpConnection.hpp\<close>, \<^verbatim>\<open>.cpp\<close>.
    \<^item> \<open>ConnFrame\<close>, \<open>ConnLoop\<close>: connections of one \<^verbatim>\<open>EventLoop\<close> that share its poller and its queue,
      refined to connections of \<open>TcpConn\<close> that share nothing; who holds a \<^verbatim>\<open>shared_ptr\<close> to a connection
      is part of the state, and a connection that nobody holds is freed.
    \<^item> \<open>Connector\<close>: \<^verbatim>\<open>net/connector.hpp\<close>, \<^verbatim>\<open>.cpp\<close>, together with the functors and timers of its loop.
    \<^item> \<open>InetAddress\<close>, \<open>TcpServer\<close>, \<open>Acceptor\<close>, \<open>TcpClient\<close>: the files of these names in \<^verbatim>\<open>net\<close>,
      \<open>Acceptor\<close> with \<^verbatim>\<open>net/socket.hpp\<close>, \<^verbatim>\<open>.cpp\<close>; \<open>Callbacks\<close>: the callbacks server and client hand to their
      connections.
    \<^item> \<open>Cluster\<close>, \<open>Registry\<close>, \<open>ZkSession\<close>: \<^verbatim>\<open>rpc/clusterCli.hpp\<close>, \<^verbatim>\<open>rpc/zkClient.hpp\<close>, \<^verbatim>\<open>.cpp\<close>, and what
      \<^verbatim>\<open>RpcServer::Run\<close> publishes.
    \<^item> \<open>Codec\<close>, \<open>Rpc\<close>, \<open>RpcEnds\<close>: \<^verbatim>\<open>protocol/protocol.hpp\<close>, \<^verbatim>\<open>.cpp\<close>, \<^verbatim>\<open>protocol/rpcHeader.proto\<close>;
      \<^verbatim>\<open>rpc/rpcServer.hpp\<close>, \<^verbatim>\<open>rpc/rpcChannelCli.hpp\<close>, \<^verbatim>\<open>rpc/rpcController.hpp\<close> and their \<^verbatim>\<open>.cpp\<close>.
      \<open>Rpc\<close> is the protocol above the codec, \<open>RpcEnds\<close> the two ends as the code wires them to
      codec and connections.
    \<^item> \<open>Timestamp\<close>, \<open>LogFile\<close>, \<open>AsyncLog\<close>, \<open>Logger\<close>: \<^verbatim>\<open>util/timestamp.hpp\<close>, \<^verbatim>\<open>util/async_log.hpp\<close>,
      \<^verbatim>\<open>util/log.hpp\<close>, \<^verbatim>\<open>util/current_thread.hpp\<close> and their \<^verbatim>\<open>.cpp\<close>.
    \<^item> \<open>JsonCodec\<close>, \<open>Singleton\<close>: \<^verbatim>\<open>protocol/jsonCodec.hpp\<close>, \<^verbatim>\<open>util/singleton.hpp\<close>; no other part uses them.
    \<^item> \<open>Echo\<close>, \<open>WheelExample\<close>, \<open>RpcExample\<close>, \<open>LogExample\<close>: programs of \<^verbatim>\<open>src/example\<close> as
      compositions of the parts: client, network and server of the echo, timers on a loop, a remote call,
      threads that log at once; that of the JSON conversion is in \<open>JsonCodec\<close>.

  \<^bold>\<open>How it is modelled.\<close> A class is a record with a field per member, an operation a function on it.
  What a system call returns is an argument of the operation that makes it, what is asked of
  the kernel is logged in the state. A null or dangling pointer that is dereferenced, and a failed
  assertion, are \<open>None\<close> or a constructor of their own. What can happen to a component is a datatype of
  operations and a run over a list of them, so that a property of all runs holds for every
  interleaving; where threads share state (\<open>EventLoop\<close>, \<open>LoopPool\<close>, \<open>AsyncLog\<close>, \<open>ZkSession\<close>) the
  steps are the atomic actions or critical sections. Words have their widths (event masks and message
  ids 32 bits, ports 16, bytes 8); the sums of \<^verbatim>\<open>RoundRobin::Next\<close> are
  \<^verbatim>\<open>int\<close>s whose overflow is \<open>None\<close> (\<open>Cluster\<close>), the length counter of a log file wraps, and its theorem asks
  for sizes with which it does not (\<open>LogFile\<close>); the \<^verbatim>\<open>int\<close> counters of the wheel and of retries are
  integers whose bounds are proved or assumed where they matter. What the environment may do is
  allowed for: writes and reads of any length and with any error, a log file that cannot be opened,
  a wait on a condition variable that returns spuriously, characters of several threads that mix on
  \<^verbatim>\<open>std::cout\<close>, clocks that run backwards.

  \<^bold>\<open>Interfaces.\<close> Locales state what a component relies on, with the laws proved for the code's model
  by an interpretation in the theory that provides it: a queue of bytes for the buffer, what the
  closures of the wheel and of an event loop may do (their clients), a load balancer for the cluster, an
  output function of the logger, how server and client give callbacks to their connections, and in
  \<open>RpcEnds\<close> what \<^verbatim>\<open>onMessage\<close> does with a connection's input.

  \<^bold>\<open>Loops.\<close> The loop of the codec and the walk over a slot of the wheel, whose closures may add and
  cancel tasks, may not end: they are \<open>partial_function (option)\<close>. That the wheel returns is a
  theorem of \<open>WheelTimers\<close>, that the codec can loop forever one of \<open>Codec\<close>. All other loops are structural or have a measure;
  the event loop itself is a run over a given number of rounds, on which nothing is assumed.

  \<^bold>\<open>What is shown.\<close> For each component an invariant and that every operation keeps it, and from it
  the properties below: the bytes of a connection are neither lost nor reordered, user callbacks and
  owners see one UP and one DOWN, functors run in order and wake the loop, the poller agrees with the
  kernel, timers run once and in time, connections are established and destroyed once, retries
  back off, the balancer is fair, also through a cluster when the weights add up to an odd number, log
  lines stay whole and in order, and the destructor of the log returns. Where the code needs
  something for it, the text before the theorem says what: that a server closes each connection once
  and runs no dangling functor, that \<^verbatim>\<open>times_\<close> of a new task, which is never initialised, does not make
  it recur, that the log thread keeps up. What is shown of one connection
  holds of each connection of a loop (\<open>ConnLoop\<close>); what an echo client gets back is what it wrote, with
  the rest accounted for on its way (\<open>Echo\<close>). Some say what goes wrong: as wired, a
  server dies of the first complete request and a channel never hears an answer
  (\<open>RpcEnds\<close>), what a server publishes cannot be read back (\<open>Registry\<close>), \<^verbatim>\<open>shutdown\<close> from another thread can
  reach a freed connection (\<open>shutdown_touches_freed\<close> in \<open>ConnLoop\<close>), the echo client can miss its last
  notification (\<open>Echo\<close>), a reconnection of the session is
  undefined behaviour (\<open>ZkSession\<close>), \<^verbatim>\<open>stop\<close> of the log loses lines (\<open>AsyncLog\<close>).

  \<^bold>\<open>Parameters.\<close> Code that is not in the repository: the generated protobuf serializers and parsers and
  the services of the user (\<open>Codec\<close>, \<open>Rpc\<close>), the ZooKeeper calls with their documented laws
  (\<open>zk_laws\<close> in \<open>Registry\<close>), the JSON object of nlohmann (\<open>json_laws\<close> in \<open>JsonCodec\<close>), \<^verbatim>\<open>inet_addr\<close> on
  text that is not a dotted quad.

  \<^bold>\<open>Not modelled.\<close> \<^verbatim>\<open>protocol/codec.hpp\<close> is an interface without code,
  \<^verbatim>\<open>util/noncopyable.hpp\<close> and \<^verbatim>\<open>net/callback.hpp\<close> hold deleted operations and type names,
  \<^verbatim>\<open>protocol/PBCodec.hpp\<close> is empty; \<^verbatim>\<open>example_echoclient_zk.cpp\<close> dereferences a null pointer before
  anything else and uses templates that cannot be instantiated together (\<^verbatim>\<open>Client\<close> has no
  \<^verbatim>\<open>currentWeight_\<close>, \<^verbatim>\<open>RpcCluster\<close> calls \<^verbatim>\<open>add\<close> where there is \<^verbatim>\<open>Add\<close>): \<open>Cluster\<close> and \<open>Registry\<close> read them as
  they are meant; \<^verbatim>\<open>err_msg\<close> only formats \<^verbatim>\<open>errno\<close>; the getters of the classes are
  fields. Large parts of \<^verbatim>\<open>rpc/rpcChannelCli.cpp\<close>, \<^verbatim>\<open>rpc/rpcServer.cpp\<close> and
  \<^verbatim>\<open>protocol/protocol.cpp\<close> are comments. Handlers of
  one \<^verbatim>\<open>RpcServer\<close> that run in different loops share its state without a lock; they are taken one after
  the other here. Memory exhaustion, signals and the time calls take are outside the model.
\<close>

section \<open>Properties that span components\<close>

text \<open>C13. From \<^verbatim>\<open>send\<close> of the codec at one end to \<^verbatim>\<open>onMessage\<close> at the other. Between any two
  connections, in any life of both: when the kernel has taken all of what one end accepted,
  starting with a frame, and the other end has received that and retrieved nothing, then
  \<^verbatim>\<open>tryRead\<close> gives back exactly the frame and what follows, whatever direct writes, short writes,
  buffering and splitting happened; and there \<^verbatim>\<open>onMessage\<close> dereferences a null pointer, unless
  fewer than 8 bytes follow the length, when it leaves them unread.\<close>

theorem frame_arrives_but_is_not_delivered:
  assumes "\<not> isWriting ch1" and "conn_run ops1 (new_conn n1 ch1 p1 wc1 hw1) = (c1, frame head payload @ rest)"
    and "readable (outputBuffer c1) = []"
    and "\<not> isWriting ch2" and "conn_run ops2 (new_conn n2 ch2 p2 wc2 hw2) = (c2, accepted)"
    and "c_received c2 = c_sent c1" and "c_taken c2 = []" and "length head + length payload < 2 ^ 31"
  shows "tryRead c2 = frame head payload @ rest
    \<and> codec_onMessage parse cb s c2
        = Some (if 8 \<le> length head + length payload + length rest then Undefined else Returned s c2)"
proof -
  have "c_sent c1 = frame head payload @ rest"
    using conn_run_props [OF new_conn_ok [OF assms(1)], of ops1 n1 p1 wc1 hw1] assms(2,3)
    by (simp add: out_stream_def new_conn_def)
  moreover have "c_taken c2 @ readable (inputBuffer c2) = c_received c2"
    using conn_run_props [OF new_conn_ok [OF assms(4)], of ops2 n2 p2 wc2 hw2] assms(5) by (simp add: conn_ok_def)
  ultimately have "tryRead c2 = frame head payload @ rest" using assms(6,7) by (simp add: tryRead_def)
  then show ?thesis using sent_frame_is_never_delivered [OF _ assms(8), of c2 rest parse cb s] by simp
qed

definition sender_ops :: "bytes \<Rightarrow> conn_op list" where
  "sender_ops d = [Establish, UserSend True d (Wrote (length d))]"

definition receiver_ops :: "bytes \<Rightarrow> conn_op list" where
  "receiver_ops d = [Establish, Report EPOLLIN (ReadBytes d) (Wrote 0)]"

definition idle_conn :: conn where
  "idle_conn = new_conn ''c'' (new_channel 1 7) new_poller False False"

lemma new_channel_quiet: "\<not> isWriting (new_channel a f)"
  by (simp add: new_channel_def isWriting_def)

lemma established_idle:
  "c_state (connectEstablished idle_conn) = KConnected" "\<not> isWriting (c_channel (connectEstablished idle_conn))"
  "outputBuffer (connectEstablished idle_conn) = new_buffer kInitialSize"
  "inputBuffer (connectEstablished idle_conn) = new_buffer kInitialSize"
  "c_sent (connectEstablished idle_conn) = []" "c_received (connectEstablished idle_conn) = []"
  "c_taken (connectEstablished idle_conn) = []" "c_state idle_conn = KConnecting"
  "\<not> has_writeComplete idle_conn" "c_channel idle_conn = (new_channel 1 7)\<lparr>ch_cbs := [ReadCb, WriteCb, CloseCb, ErrorCb]\<rparr>"
  "c_poller idle_conn = new_poller"
proof -
  have "\<not> isWriting (new_channel 1 7\<lparr>ch_cbs := cbs\<rparr>)" for cbs by (simp add: new_channel_def isWriting_def)
  then show "\<not> isWriting (c_channel (connectEstablished idle_conn))"
    by (simp add: connectEstablished_def connectionCallback_def idle_conn_def new_conn_def Let_def)
qed (simp_all add: connectEstablished_def connectionCallback_def idle_conn_def new_conn_def Let_def)

lemma sender_run:
  "readable (outputBuffer (fst (conn_run (sender_ops d) idle_conn))) = []
    \<and> snd (conn_run (sender_ops d) idle_conn) = d"
proof -
  have "readableBytes (new_buffer kInitialSize) = 0" by (simp add: new_buffer_def readableBytes_def)
  then show ?thesis using established_idle
    by (simp add: sender_ops_def conn_send_def sendInLoop_def send_direct_def op_accepts_def
        send_accepts_def Let_def)
qed

lemma receiver_channel:
  "ch_state (c_channel (connectEstablished idle_conn)) = KAdded"
  "hasChannel (c_channel (connectEstablished idle_conn)) (c_poller (connectEstablished idle_conn))"
  "ch_tied (c_channel (connectEstablished idle_conn))"
  "ch_cbs (c_channel (connectEstablished idle_conn)) = [ReadCb, WriteCb, CloseCb, ErrorCb]"
  using established_idle
  by (simp_all add: connectEstablished_def connectionCallback_def Let_def channel_ops updateChannel_def tie_def
      new_channel_def hasChannel_def new_poller_def poller_update_def)

lemma receiver_run:
  assumes "d \<noteq> []"
  shows "c_received (fst (conn_run (receiver_ops d) idle_conn)) = d
    \<and> c_taken (fst (conn_run (receiver_ops d) idle_conn)) = []"
proof -
  have "handleRead (ReadBytes d) c = log_event Message (c\<lparr>inputBuffer := snd (readFd (ReadBytes d) (inputBuffer c)),
      c_received := c_received c @ d\<rparr>)" for c
    using assms by (simp add: handleRead_def readFd_def Let_def)
  then show ?thesis using established_idle receiver_channel
    by (simp add: receiver_ops_def conn_registered_def conn_dispatch_def handleEvent_def
        handleEventWithGuard_def conn_handler_def set_revents_def event_masks Let_def)
qed

lemma frame_arrives_but_is_not_delivered_witness:
  "let d = frame [8, 0, 18, 1] [1, 2, 3, 4];
       c = fst (conn_run (receiver_ops d) idle_conn)
   in tryRead c = d \<and> codec_onMessage (\<lambda>_ _ h. h) (\<lambda>_ _ x. x) () c = Some Undefined"
proof -
  let ?d = "frame [8, 0, 18, 1] [1, 2, 3, 4]"
  let ?c1 = "fst (conn_run (sender_ops ?d) idle_conn)" and ?c2 = "fst (conn_run (receiver_ops ?d) idle_conn)"
  have "?d \<noteq> []" by (simp add: frame_def)
  note received = receiver_run [OF this]
  have run1: "conn_run (sender_ops ?d) idle_conn = (?c1, frame [8, 0, 18, 1] [1, 2, 3, 4] @ [])"
    using sender_run [of ?d] by (simp add: prod_eq_iff)
  have "out_stream ?c1 = c_sent idle_conn @ snd (conn_run (sender_ops ?d) idle_conn)"
    using conn_run_props [OF new_conn_ok [OF new_channel_quiet]] unfolding idle_conn_def
    by (simp add: out_stream_def new_conn_def)
  then have sent: "c_sent ?c1 = ?d" using sender_run [of ?d] by (simp add: out_stream_def idle_conn_def new_conn_def)
  show ?thesis
    using frame_arrives_but_is_not_delivered [OF new_channel_quiet run1 [unfolded idle_conn_def] _ new_channel_quiet
        prod.collapse [symmetric], of "receiver_ops ?d" "''c''" 1 7 new_poller False False "\<lambda>_ _ h. h" "\<lambda>_ _ x. x" "()"]
      sender_run [of ?d] received sent
    by (simp add: idle_conn_def Let_def)
qed

text \<open>C17. From the text of the registry to the calls. The cluster is built from lines of servers with
  different addresses, whose weights add up to an odd number, less than \<open>2 ^ 31\<close> divided by the
  number of servers, and of which each is 0 or more; the current weights start at 0. Then among as
  many consecutive calls of \<^verbatim>\<open>RpcCluster::call\<close> as the weights add up to, each server of the text is
  called exactly as often as the weight in its line says.\<close>

theorem discovered_servers_called_by_weight:
  assumes "distinct (map (\<lambda>(port, q, w). (port, q)) es)" and "odd (sum_list (map (\<lambda>(port, q, w). w) es))"
    and "int (length es) * int (sum_list (map (\<lambda>(port, q, w). w) es)) < 2 ^ 31"
  shows "\<exists>cl rs lb. new_cluster other 0 (unlines (map endpoint_text es)) = Some cl
    \<and> cluster_calls (sum_list (map (\<lambda>(port, q, w). w) es)) (loadBalence cl) = Some (rs, lb)
    \<and> (\<forall>(port, q, w) \<in> set es. count_list rs (Some (new_inet other port (inet_ntop q), int w)) = w)"
proof -
  let ?W = "sum_list (map (\<lambda>(port, q, w). w) es)"
  obtain cl where cl: "new_cluster other 0 (unlines (map endpoint_text es)) = Some cl"
    "rr_members (loadBalence cl) = map endpoint_client es" "\<forall>e \<in> set (loadBalence cl). el_current e = 0"
    using new_cluster_texts by blast
  have clients: "map el_client (loadBalence cl) = map (fst \<circ> endpoint_client) es"
    unfolding rr_members_clients cl(2) by simp
  have weights: "map el_weight (loadBalence cl) = map (snd \<circ> endpoint_client) es"
    using arg_cong [OF cl(2), of "map snd"] by (simp add: rr_members_def o_def)
  have "inj_on (\<lambda>(port, q). \<lparr>sin_port = htons port, sin_addr = q\<rparr>) A" for A
    by (auto simp: inj_on_def) (metis ntohs_htons)
  then have "distinct (map (\<lambda>(port, q). \<lparr>sin_port = htons port, sin_addr = q\<rparr>) ys)" if "distinct ys" for ys
    using that by (simp add: distinct_map)
  from this [OF assms(1)]
  have "distinct (map (\<lambda>(port, q). \<lparr>sin_port = htons port, sin_addr = q\<rparr>) (map (\<lambda>(port, q, w). (port, q)) es))" .
  moreover have "map (\<lambda>(port, q). \<lparr>sin_port = htons port, sin_addr = q\<rparr>) (map (\<lambda>(port, q, w). (port, q)) es)
      = map el_client (loadBalence cl)"
    unfolding clients by (auto simp: endpoint_client_def)
  ultimately have dist: "distinct (map el_client (loadBalence cl))" by simp
  have total: "rr_total (loadBalence cl) = int ?W"
    unfolding rr_total_def weights by (induction es) (auto simp: endpoint_client_def)
  have len: "length (loadBalence cl) = length es" using arg_cong [OF cl(2), of length] by (simp add: rr_members_def)
  have nonneg: "\<forall>e \<in> set (loadBalence cl). 0 \<le> el_weight e \<and> el_current e = 0"
  proof
    fix e assume e: "e \<in> set (loadBalence cl)"
    then have "el_weight e \<in> set (map (snd \<circ> endpoint_client) es)" unfolding weights [symmetric] by simp
    then show "0 \<le> el_weight e \<and> el_current e = 0" using cl(3) e by (auto simp: endpoint_client_def)
  qed
  have "0 < ?W" using assms(2) by (metis even_zero gr0I)
  then have pos: "0 < rr_total (loadBalence cl)" unfolding total by simp
  have small: "rr_small (loadBalence cl)" using assms(3) by (simp add: rr_small_def total len)
  have odd: "odd (rr_total (loadBalence cl))" unfolding total using assms(2) by simp
  obtain rs where rs: "cluster_calls ?W (loadBalence cl) = Some (rs, loadBalence cl)"
    "\<forall>e \<in> set (loadBalence cl). int (count_list rs (Some (el_client e, el_weight e))) = el_weight e"
    using odd_totals_fair [OF dist nonneg pos odd small] unfolding total by auto
  have "count_list rs (Some (new_inet other port (inet_ntop q), int w)) = w" if "(port, q, w) \<in> set es" for port q w
  proof -
    have "endpoint_client (port, q, w) \<in> set (rr_members (loadBalence cl))" using that cl(2) by simp
    then obtain e where "e \<in> set (loadBalence cl)" "(el_client e, el_weight e) = endpoint_client (port, q, w)"
      by (auto simp: rr_members_def)
    then show ?thesis using rs(2) by (fastforce simp: endpoint_client_def new_inet_def inet_addr_def)
  qed
  then show ?thesis using cl(1) rs(1) by blast
qed

lemma discovered_servers_called_by_weight_witness:
  "\<exists>cl rs lb. new_cluster (\<lambda>_. (0, 0, 0, 0)) 0 (unlines (map endpoint_text [(80, (10, 0, 0, 1), 2), (81, (10, 0, 0, 1), 1)])) = Some cl
    \<and> cluster_calls 3 (loadBalence cl) = Some (rs, lb)
    \<and> count_list rs (Some (new_inet (\<lambda>_. (0, 0, 0, 0)) 80 (inet_ntop (10, 0, 0, 1)), 2)) = 2"
  using discovered_servers_called_by_weight
    [of "[(80, (10, 0, 0, 1), 2), (81, (10, 0, 0, 1), 1)]" "\<lambda>_. (0, 0, 0, 0)"]
  by simp blast

end
